(* ===== verification/Prelude.thy ===== *)
theory Prelude
  imports Main "HOL-Library.Word"
begin

text \<open>
  What the components share: the machine integer types of the code, the faults a C++ run can
  end in, the result type that carries them and its rules, the loops over it, and generic
  facts about words, lists and majorities.

  A function that may throw or run into undefined behaviour returns a \<open>result\<close>: \<open>Inl\<close> of a
  \<open>fault\<close>, or \<open>Inr\<close> of the value. \<open>bind_res\<close> is sequencing, \<open>fold_res\<close> is a loop over a
  vector that stops at the first fault. \<open>post E Q m\<close> is the one judgement about runs: it gives
  invariants, absence of faults and total correctness.
\<close>

named_theorems node_simps \<open>field access and update of the node's nested state\<close>
named_theorems keeps \<open>every operation keeps the invariant\<close>
named_theorems frame \<open>what an operation leaves unchanged\<close>

type_synonym u64 = "64 word"
type_synonym u32 = "32 word"
type_synonym u16 = "16 word"

section \<open>Faults and results\<close>

text \<open>
  \<open>OutOfRange\<close>: \<open>std::map::at\<close> throws \<open>std::out_of_range\<close>. \<open>LengthError\<close>: a vector grows past
  \<open>max_size()\<close> and throws \<open>std::length_error\<close>. \<open>PromiseSatisfied\<close>: \<open>set_value\<close> on a promise that
  has its value throws \<open>std::future_error\<close>. \<open>BrokenPromise\<close>: \<open>get\<close> on the future of a promise that was
  destroyed without a value throws \<open>std::future_error\<close>. \<open>BadOptionalAccess\<close>: \<open>std::optional::value\<close> throws.
  \<open>BadIndex\<close> and \<open>NullOptional\<close> are undefined behaviour: \<open>operator[]\<close> of a vector outside its
  size, \<open>operator*\<close> or \<open>operator->\<close> of an empty \<open>std::optional\<close>.
\<close>

datatype fault =
    OutOfRange
  | LengthError
  | PromiseSatisfied
  | BrokenPromise
  | BadOptionalAccess
  | BadIndex
  | NullOptional

type_synonym 'a result = "fault + 'a"

definition bind_res :: "'e + 'a \<Rightarrow> ('a \<Rightarrow> 'e + 'b) \<Rightarrow> 'e + 'b" where
  "bind_res m f = (case m of Inl e \<Rightarrow> Inl e | Inr x \<Rightarrow> f x)"

lemma bind_res_simps [simp]:
  "bind_res (Inl e) f = Inl e"
  "bind_res (Inr x) f = f x"
  by (simp_all add: bind_res_def)

lemma bind_res_eq_Inr: "bind_res m f = Inr y \<longleftrightarrow> (\<exists>x. m = Inr x \<and> f x = Inr y)"
  by (cases m) auto

lemma bind_res_assoc: "bind_res (bind_res m f) g = bind_res m (\<lambda>x. bind_res (f x) g)"
  by (cases m) auto

fun fold_res :: "('a \<Rightarrow> 's \<Rightarrow> 'e + 's) \<Rightarrow> 'a list \<Rightarrow> 's \<Rightarrow> 'e + 's" where
  "fold_res f [] s = Inr s"
| "fold_res f (x # xs) s = bind_res (f x s) (fold_res f xs)"

lemma fold_res_append: "fold_res f (xs @ ys) s = bind_res (fold_res f xs s) (fold_res f ys)"
  by (induction xs arbitrary: s) (simp_all add: bind_res_assoc bind_res_def split: sum.split)

lemma fold_res_pure: "fold_res (\<lambda>x s. Inr (f x s)) xs s = Inr (fold f xs s)"
  by (induction xs arbitrary: s) auto

text \<open>
  \<open>post E Q m\<close>: the run \<open>m\<close> ends with a value that satisfies \<open>Q\<close>, or with a fault of \<open>E\<close>. With
  \<open>E = UNIV\<close> this is partial correctness, with \<open>E = {}\<close> total correctness.
\<close>

definition post :: "'e set \<Rightarrow> ('a \<Rightarrow> bool) \<Rightarrow> 'e + 'a \<Rightarrow> bool" where
  "post E Q m = (case m of Inl e \<Rightarrow> e \<in> E | Inr x \<Rightarrow> Q x)"

abbreviation on_ok :: "('a \<Rightarrow> bool) \<Rightarrow> 'e + 'a \<Rightarrow> bool" where
  "on_ok Q m \<equiv> post UNIV Q m"

abbreviation succeeds :: "('a \<Rightarrow> bool) \<Rightarrow> 'e + 'a \<Rightarrow> bool" where
  "succeeds Q m \<equiv> post {} Q m"

lemma post_simps [simp]:
  "post E Q (Inl e) = (e \<in> E)"
  "post E Q (Inr x) = Q x"
  by (simp_all add: post_def)

lemma post_bind: "post E Q (bind_res m f) = post E (\<lambda>x. post E Q (f x)) m"
  by (cases m) auto

lemma post_if: "post E Q (if b then m else m') = (if b then post E Q m else post E Q m')"
  by simp

lemma on_okI: "(\<And>x. m = Inr x \<Longrightarrow> Q x) \<Longrightarrow> on_ok Q m"
  by (cases m) auto

lemma postD: "post E Q m \<Longrightarrow> m = Inr x \<Longrightarrow> Q x"
  by simp

lemma post_faultD: "post E Q m \<Longrightarrow> m = Inl e \<Longrightarrow> e \<in> E"
  by simp

lemma post_mono: "post E P m \<Longrightarrow> (\<And>x. P x \<Longrightarrow> Q x) \<Longrightarrow> E \<subseteq> F \<Longrightarrow> post F Q m"
  by (cases m) auto

lemma post_weaken: "post E P m \<Longrightarrow> (\<And>x. P x \<Longrightarrow> Q x) \<Longrightarrow> post E Q m"
  by (cases m) auto

lemma post_conj: "post E P m \<Longrightarrow> post F Q m \<Longrightarrow> post (E \<inter> F) (\<lambda>x. P x \<and> Q x) m"
  by (cases m) auto

lemma post_conj_same: "post E (\<lambda>x. P x \<and> Q x) m = (post E P m \<and> post E Q m)"
  by (cases m) auto

lemma succeedsD: "succeeds Q m \<Longrightarrow> \<exists>x. m = Inr x \<and> Q x"
  by (cases m) auto

lemma post_bindI:
  assumes "post E P m" and "\<And>x. P x \<Longrightarrow> post E Q (f x)"
  shows "post E Q (bind_res m f)"
  using assms by (cases m) auto

text \<open>The loop rule: an invariant that every round keeps holds at the end of the loop.\<close>

lemma post_fold:
  assumes "P s" and "\<And>x s. x \<in> set xs \<Longrightarrow> P s \<Longrightarrow> post E P (f x s)"
  shows "post E P (fold_res f xs s)"
  using assms
proof (induction xs arbitrary: s)
  case Nil
  then show ?case by simp
next
  case (Cons x xs)
  have "post E P (f x s)" using Cons.prems by simp
  then show ?case
    by (auto intro!: post_bindI Cons.IH Cons.prems(2))
qed

lemma fold_invariant_on:
  assumes "P s" and "\<And>x s. x \<in> set xs \<Longrightarrow> P s \<Longrightarrow> P (f x s)"
  shows "P (fold f xs s)"
  using assms by (induction xs arbitrary: s) auto

text \<open>
  A relation between the state before and after a run that composes: the frame conditions of the
  components are such relations, and this is how they pass through sequencing and loops.
\<close>

locale run_relation =
  fixes R :: "'s \<Rightarrow> 's \<Rightarrow> bool"
  assumes run_refl: "R s s"
    and run_trans: "R a b \<Longrightarrow> R b c \<Longrightarrow> R a c"
begin

lemma run_after: "R a b \<Longrightarrow> post E (R b) m \<Longrightarrow> post E (R a) m"
  by (cases m) (auto intro: run_trans)

lemma run_bind:
  assumes "post E (R n) m" and "\<And>x. R n x \<Longrightarrow> post E (R x) (f x)"
  shows "post E (R n) (bind_res m f)"
proof (rule post_bindI[OF assms(1)])
  fix x assume "R n x"
  then show "post E (R n) (f x)" by (rule run_after) (rule assms(2), fact)
qed

text \<open>A step that returns a value beside the state.\<close>

lemma run_bind_value:
  assumes "post E (\<lambda>(v, x). R n x) m" and "\<And>v x. R n x \<Longrightarrow> post E (R x) (f v x)"
  shows "post E (R n) (bind_res m (\<lambda>(v, x). f v x))"
  using assms by (cases m) (auto intro: run_after)

lemma run_fold:
  assumes "\<And>x s. x \<in> set xs \<Longrightarrow> post E (R s) (f x s)"
  shows "post E (R n) (fold_res f xs n)"
proof (rule post_fold[where P = "R n"])
  fix x s assume "x \<in> set xs" "R n s"
  then show "post E (R n) (f x s)" by (auto intro: run_after assms)
qed (rule run_refl)

end

text \<open>
  Congruences that keep the simplifier out of the continuation until the first part is a value;
  with them a concrete run is evaluated in program order.
\<close>

lemma bind_res_weak_cong: "m = m' \<Longrightarrow> bind_res m f = bind_res m' f"
  by simp

lemma fold_res_weak_cong: "xs = xs' \<Longrightarrow> s = s' \<Longrightarrow> fold_res f xs s = fold_res f xs' s'"
  by simp

lemma fold_weak_cong: "xs = xs' \<Longrightarrow> s = s' \<Longrightarrow> fold f xs s = fold f xs' s'"
  by simp

lemmas eval_cong = bind_res_weak_cong fold_res_weak_cong fold_weak_cong let_weak_cong

section \<open>Vectors\<close>

text \<open>
  \<open>read_at\<close> is \<open>operator[]\<close>, \<open>push_back\<close> grows a vector whose \<open>max_size()\<close> is \<open>limit\<close>,
  \<open>vector_resize\<close> is \<open>resize\<close> with value-initialised new elements.
\<close>

definition read_at :: "'a list \<Rightarrow> u64 \<Rightarrow> 'a result" where
  "read_at xs i = (if unat i < length xs then Inr (xs ! unat i) else Inl BadIndex)"

definition push_back :: "nat \<Rightarrow> 'a \<Rightarrow> 'a list \<Rightarrow> 'a list result" where
  "push_back limit x xs = (if length xs < limit then Inr (xs @ [x]) else Inl LengthError)"

definition vector_resize :: "'a \<Rightarrow> nat \<Rightarrow> 'a list \<Rightarrow> 'a list" where
  "vector_resize d n xs = take n xs @ replicate (n - length xs) d"

lemma vector_resize_shrink [simp]: "n \<le> length xs \<Longrightarrow> vector_resize d n xs = take n xs"
  by (simp add: vector_resize_def)

lemma length_vector_resize [simp]: "length (vector_resize d n xs) = n"
  by (simp add: vector_resize_def)

text \<open>A counting loop \<open>for (i = a; i < b; ++i) out.push_back(xs[i])\<close> over the indices \<open>[a..<b]\<close>.\<close>

definition read_range :: "'a list \<Rightarrow> nat list \<Rightarrow> 'a list result" where
  "read_range xs is =
     fold_res (\<lambda>i out. if i < length xs then Inr (out @ [xs ! i]) else Inl BadIndex) is []"

lemma read_range_acc:
  assumes "\<forall>i\<in>set is. i < length xs"
  shows "fold_res (\<lambda>i out. if i < length xs then Inr (out @ [xs ! i]) else Inl BadIndex) is acc
    = Inr (acc @ map (nth xs) is)"
  using assms by (induction "is" arbitrary: acc) auto

lemma read_range_ok: "\<forall>i\<in>set is. i < length xs \<Longrightarrow> read_range xs is = Inr (map (nth xs) is)"
  by (simp add: read_range_def read_range_acc)

lemma map_nth_upt: "b \<le> length xs \<Longrightarrow> map (nth xs) [a..<b] = drop a (take b xs)"
  by (rule nth_equalityI) auto

lemma read_range_upt: "b \<le> length xs \<Longrightarrow> read_range xs [a..<b] = Inr (drop a (take b xs))"
  by (simp add: read_range_ok map_nth_upt)

lemma sorted_le_last: "sorted xs \<Longrightarrow> x \<in> set xs \<Longrightarrow> x \<le> last xs" for x :: "'a::linorder"
  by (induction xs) (auto intro: order_trans)

section \<open>Words\<close>

lemma unat_of_nat_small: "n < 2 ^ 64 \<Longrightarrow> unat (of_nat n :: u64) = n"
  by (simp add: unat_of_nat)

lemma unat_plus_small: "unat a + unat b < 2 ^ 64 \<Longrightarrow> unat (a + b :: u64) = unat a + unat b"
  by (simp add: unat_word_ariths)

lemma unat_minus1: "a \<noteq> 0 \<Longrightarrow> unat (a - 1 :: u64) = unat a - 1"
  by (rule unat_minus_one)

lemma unat_max: "unat (max a b :: u64) = max (unat a) (unat b)"
  by (simp add: max_def word_le_nat_alt)

lemma unat_min: "unat (min a b :: u64) = min (unat a) (unat b)"
  by (simp add: min_def word_le_nat_alt)

section \<open>Majorities\<close>

text \<open>
  The code counts \<open>cnt * 2 >= total + 1\<close>. Two such sets of nodes of one cluster share a node.
\<close>

lemma majorities_intersect:
  assumes "finite V" and "A \<subseteq> V" and "B \<subseteq> V"
    and "card A * 2 \<ge> card V + 1" and "card B * 2 \<ge> card V + 1"
  shows "\<exists>x. x \<in> A \<and> x \<in> B"
proof (rule ccontr)
  assume "\<not> ?thesis"
  then have "A \<inter> B = {}" by auto
  moreover have "finite A" "finite B" using assms finite_subset by auto
  ultimately have "card A + card B = card (A \<union> B)" by (simp add: card_Un_disjoint)
  also have "\<dots> \<le> card V" using assms by (intro card_mono) auto
  finally show False using assms by simp
qed

section \<open>Word literals\<close>

text \<open>Comparisons of a word literal with 1, which the simplifier leaves alone.\<close>

lemma word_numeral_one:
  "(numeral k :: 'w::len word) \<le> 1 \<longleftrightarrow> unat (numeral k :: 'w word) \<le> unat (1 :: 'w word)"
  "(numeral k :: 'w word) < 1 \<longleftrightarrow> unat (numeral k :: 'w word) < unat (1 :: 'w word)"
  "1 < (numeral k :: 'w word) \<longleftrightarrow> unat (1 :: 'w word) < unat (numeral k :: 'w word)"
  "1 \<le> (numeral k :: 'w word) \<longleftrightarrow> unat (1 :: 'w word) \<le> unat (numeral k :: 'w word)"
  by (simp_all add: word_le_nat_alt word_less_nat_alt)

end
