(* ===== verification/StdMap.thy ===== *)
theory StdMap
  imports Prelude
begin

text \<open>
  \<open>std::map\<close> and \<open>std::set\<close> of the C++ library: an association list in ascending key order,
  which is the order the code's range-for loops visit it in. \<open>map_insert\<close> is the assignment
  \<open>m[k] = v\<close>, \<open>map_find\<close> is \<open>find\<close>, \<open>map_at\<close> is \<open>at\<close>, \<open>map_subscript\<close> is \<open>m[k]\<close> read as an
  rvalue, which inserts a value-initialised element when the key is missing. The locale
  \<open>ordered_map\<close> is the contract the components use; it is interpreted on these functions.
\<close>

type_synonym ('k, 'v) std_map = "('k \<times> 'v) list"

section \<open>The operations\<close>

fun map_insert :: "'k::linorder \<Rightarrow> 'v \<Rightarrow> ('k, 'v) std_map \<Rightarrow> ('k, 'v) std_map" where
  "map_insert k v [] = [(k, v)]"
| "map_insert k v ((k', v') # m) =
     (if k < k' then (k, v) # (k', v') # m
      else if k = k' then (k, v) # m
      else (k', v') # map_insert k v m)"

definition map_find :: "('k, 'v) std_map \<Rightarrow> 'k \<Rightarrow> 'v option" where
  "map_find m k = map_of m k"

fun map_erase :: "'k \<Rightarrow> ('k, 'v) std_map \<Rightarrow> ('k, 'v) std_map" where
  "map_erase k [] = []"
| "map_erase k ((k', v') # m) = (if k = k' then m else (k', v') # map_erase k m)"

definition map_keys :: "('k, 'v) std_map \<Rightarrow> 'k list" where
  "map_keys m = map fst m"

definition map_at :: "('k, 'v) std_map \<Rightarrow> 'k \<Rightarrow> 'v result" where
  "map_at m k = (case map_find m k of None \<Rightarrow> Inl OutOfRange | Some v \<Rightarrow> Inr v)"

definition map_subscript :: "'v \<Rightarrow> 'k::linorder \<Rightarrow> ('k, 'v) std_map \<Rightarrow> 'v \<times> ('k, 'v) std_map" where
  "map_subscript d k m =
     (case map_find m k of Some v \<Rightarrow> (v, m) | None \<Rightarrow> (d, map_insert k d m))"

text \<open>The class invariant of \<open>std::map\<close>: keys strictly ascending.\<close>

definition map_ok :: "('k::linorder, 'v) std_map \<Rightarrow> bool" where
  "map_ok m = sorted_wrt (<) (map_keys m)"

section \<open>Laws\<close>

lemma map_find_Nil [simp]: "map_find [] k = None"
  by (simp add: map_find_def)

lemma map_find_insert [simp]:
  "map_find (map_insert k v m) k' = (if k' = k then Some v else map_find m k')"
  by (induction k v m rule: map_insert.induct) (auto simp: map_find_def)

lemma map_keys_insert: "set (map_keys (map_insert k v m)) = insert k (set (map_keys m))"
  by (induction k v m rule: map_insert.induct) (auto simp: map_keys_def)

lemma map_keys_erase: "set (map_keys (map_erase k m)) \<subseteq> set (map_keys m)"
  by (induction k m rule: map_erase.induct) (auto simp: map_keys_def)

lemma map_ok_Nil [simp]: "map_ok []"
  by (simp add: map_ok_def map_keys_def)

lemma map_keys_Cons [simp]: "map_keys ((k, v) # m) = k # map_keys m"
  by (simp add: map_keys_def)

lemma map_keys_Nil [simp]: "map_keys [] = []"
  by (simp add: map_keys_def)

lemma map_ok_Cons [simp]:
  "map_ok ((k, v) # m) = ((\<forall>x\<in>set (map_keys m). k < x) \<and> map_ok m)"
  by (simp add: map_ok_def)

lemma map_ok_insert [simp]: "map_ok m \<Longrightarrow> map_ok (map_insert k v m)"
proof (induction k v m rule: map_insert.induct)
  case (1 k v)
  then show ?case by (simp add: map_keys_def)
next
  case (2 k v k' v' m)
  then show ?case by (auto simp: map_keys_insert)
qed

lemma map_ok_erase [simp]: "map_ok m \<Longrightarrow> map_ok (map_erase k m)"
proof (induction k m rule: map_erase.induct)
  case (1 k)
  then show ?case by simp
next
  case (2 k k' v' m)
  then show ?case using map_keys_erase[of k m] by auto
qed

lemma map_insert_not_Nil: "map_insert k v m \<noteq> []"
  by (cases "(k, v, m)" rule: map_insert.cases) auto

lemma map_ok_distinct: "map_ok m \<Longrightarrow> distinct (map_keys m)"
  by (simp add: map_ok_def strict_sorted_iff)

lemma map_of_append_case:
  "map_of (xs @ ys) k = (case map_of xs k of Some v \<Rightarrow> Some v | None \<Rightarrow> map_of ys k)"
  by (induction xs) auto

lemma map_find_None_iff: "map_find m k = None \<longleftrightarrow> k \<notin> set (map_keys m)"
  by (simp add: map_find_def map_of_eq_None_iff map_keys_def image_iff)

lemma map_find_Some_keys: "map_find m k = Some v \<Longrightarrow> k \<in> set (map_keys m)"
  by (metis map_find_None_iff option.distinct(1))

lemma map_find_Some_iff: "map_ok m \<Longrightarrow> map_find m k = Some v \<longleftrightarrow> (k, v) \<in> set m"
  using map_ok_distinct[of m] by (simp add: map_find_def map_keys_def)

lemma map_find_Cons: "map_find ((k, v) # m) k' = (if k' = k then Some v else map_find m k')"
  by (simp add: map_find_def)

lemma map_find_erase [simp]:
  "map_ok m \<Longrightarrow> map_find (map_erase k m) k' = (if k' = k then None else map_find m k')"
proof (induction k m rule: map_erase.induct)
  case (1 k)
  then show ?case by simp
next
  case (2 k k1 v1 m)
  then have "k1 \<notin> set (map_keys m)" by auto
  then have "map_find m k1 = None" by (simp add: map_find_None_iff)
  with 2 show ?case by (auto simp: map_find_Cons)
qed

lemma map_at_known: "k \<in> set (map_keys m) \<Longrightarrow> \<exists>v. map_at m k = Inr v \<and> map_find m k = Some v"
  using map_find_None_iff[of m k] by (auto simp: map_at_def split: option.splits)

lemma map_at_unknown: "k \<notin> set (map_keys m) \<Longrightarrow> map_at m k = Inl OutOfRange"
  using map_find_None_iff[of m k] by (auto simp: map_at_def split: option.splits)

lemma map_subscript_value:
  "fst (map_subscript d k m) = (case map_find m k of Some v \<Rightarrow> v | None \<Rightarrow> d)"
  by (simp add: map_subscript_def split: option.splits)

lemma map_subscript_find:
  "map_find (snd (map_subscript d k m)) k' =
     (if k' = k then Some (fst (map_subscript d k m)) else map_find m k')"
  by (auto simp: map_subscript_def split: option.splits)

lemma map_subscript_ok [simp]: "map_ok m \<Longrightarrow> map_ok (snd (map_subscript d k m))"
  by (simp add: map_subscript_def split: option.splits)

lemma map_subscript_keys:
  "set (map_keys (snd (map_subscript d k m))) = insert k (set (map_keys m))"
  using map_find_Some_keys[of m k]
  by (auto simp: map_subscript_def map_keys_insert split: option.splits)

section \<open>The interface\<close>

locale ordered_map =
  fixes empty :: "'m"
    and insert_at :: "'k::linorder \<Rightarrow> 'v \<Rightarrow> 'm \<Rightarrow> 'm"
    and erase :: "'k \<Rightarrow> 'm \<Rightarrow> 'm"
    and find :: "'m \<Rightarrow> 'k \<Rightarrow> 'v option"
    and ok :: "'m \<Rightarrow> bool"
  assumes ok_empty: "ok empty"
    and ok_insert: "ok m \<Longrightarrow> ok (insert_at k v m)"
    and ok_erase: "ok m \<Longrightarrow> ok (erase k m)"
    and find_empty: "find empty k = None"
    and find_insert: "ok m \<Longrightarrow> find (insert_at k v m) k' = (if k' = k then Some v else find m k')"
    and find_erase: "ok m \<Longrightarrow> find (erase k m) k' = (if k' = k then None else find m k')"
begin

text \<open>A loop that assigns a list of pairs: the last assignment of each key wins.\<close>

lemma ok_fold_insert: "ok m \<Longrightarrow> ok (fold (\<lambda>(k, v). insert_at k v) kvs m)"
  by (induction kvs arbitrary: m) (auto simp: ok_insert)

lemma find_fold_insert:
  "ok m \<Longrightarrow> find (fold (\<lambda>(k, v). insert_at k v) kvs m) k =
     (case map_of (rev kvs) k of Some v \<Rightarrow> Some v | None \<Rightarrow> find m k)"
proof (induction kvs arbitrary: m)
  case Nil
  then show ?case by simp
next
  case (Cons kv kvs)
  obtain a b where kv: "kv = (a, b)" by (cases kv)
  have "ok (insert_at a b m)" using Cons.prems by (rule ok_insert)
  with Cons show ?case
    by (auto simp: kv find_insert map_of_append_case split: option.splits)
qed

lemma find_set_all: "ok m \<Longrightarrow>
  find (fold (\<lambda>k. insert_at k (f k)) ks m) k = (if k \<in> set ks then Some (f k) else find m k)"
  by (induction ks arbitrary: m) (auto simp: find_insert ok_insert)

lemma ok_set_all: "ok m \<Longrightarrow> ok (fold (\<lambda>k. insert_at k (f k)) ks m)"
  by (induction ks arbitrary: m) (auto simp: ok_insert)

end

interpretation smap: ordered_map "[]" map_insert map_erase map_find map_ok
  by unfold_locales auto

section \<open>\<open>std::set\<close>\<close>

type_synonym 'k std_set = "'k list"

definition set_insert :: "'k::linorder \<Rightarrow> 'k std_set \<Rightarrow> 'k std_set" where
  "set_insert k s = insort_insert k s"

definition set_ok :: "'k::linorder std_set \<Rightarrow> bool" where
  "set_ok s = (sorted s \<and> distinct s)"

lemma set_ok_Nil [simp]: "set_ok []"
  by (simp add: set_ok_def)

lemma set_ok_insert [simp]: "set_ok s \<Longrightarrow> set_ok (set_insert k s)"
  by (simp add: set_ok_def set_insert_def sorted_insort_insert distinct_insort_insert)

lemma set_set_insert [simp]: "set (set_insert k s) = insert k (set s)"
  by (simp add: set_insert_def set_insort_insert)

lemma set_ok_length: "set_ok s \<Longrightarrow> length s = card (set s)"
  by (simp add: set_ok_def distinct_card)

definition set_erase :: "'k \<Rightarrow> 'k std_set \<Rightarrow> 'k std_set" where
  "set_erase k s = removeAll k s"

lemma set_ok_erase [simp]: "set_ok s \<Longrightarrow> set_ok (set_erase k s)"
  by (simp add: set_ok_def set_erase_def distinct_removeAll sorted_wrt_filter removeAll_filter_not_eq)

lemma set_set_erase [simp]: "set (set_erase k s) = set s - {k}"
  by (simp add: set_erase_def)

end
