(* ===== verification/ConsensusTypes.thy ===== *)
theory ConsensusTypes
  imports StdMap "HOL-Library.List_Lexorder" "HOL-Library.Char_ord"
begin

text \<open>
  The data of the consensus library: \<open>hw2/src/consensus/common.h\<close>, \<open>state.h\<close> and \<open>message.h\<close>.
  Structs are records with the fields in the order of the source; a field name that two structs
  share carries a prefix (\<open>ae_\<close>, \<open>aer_\<close>, \<open>rvr_\<close>). \<open>LogItem\<close> is a datatype, so that its defaulted
  comparison can be an instance of the library's order classes. \<open>std::variant\<close> is a datatype with
  one constructor per alternative.
\<close>

section \<open>\<open>common.h\<close>\<close>

type_synonym Term = u64
type_synonym NodeId = u64

datatype NodeState = kLeader | kFollower | kCandidate

section \<open>\<open>state.h\<close>\<close>

type_synonym LogItemId = u64
type_synonym Command = string

datatype LogItem = LogItem (command: Command) (leader_term: Term)

text \<open>\<open>operator<=>\<close> is defaulted: lexicographic in the order of the members.\<close>

instantiation LogItem :: linorder
begin

definition less_eq_LogItem :: "LogItem \<Rightarrow> LogItem \<Rightarrow> bool" where
  "less_eq_LogItem a b \<longleftrightarrow>
     command a < command b \<or> command a = command b \<and> leader_term a \<le> leader_term b"

definition less_LogItem :: "LogItem \<Rightarrow> LogItem \<Rightarrow> bool" where
  "less_LogItem a b \<longleftrightarrow>
     command a < command b \<or> command a = command b \<and> leader_term a < leader_term b"

instance
  by standard (auto simp: less_eq_LogItem_def less_LogItem_def intro: LogItem.expand)

end

type_synonym Log = "LogItem list"

text \<open>
  \<open>std::vector<LogItem>::max_size()\<close>: \<open>PTRDIFF_MAX / sizeof(LogItem)\<close>, with 32 bytes for the string
  and 8 for the term.
\<close>

definition max_log_size :: nat where
  "max_log_size = (2 ^ 63 - 1) div 40"

record PersistentState =
  current_term :: Term
  voted_for :: "NodeId option"
  plog :: Log

record VolatileState =
  commit_index :: LogItemId

record State =
  persistent_state :: PersistentState
  volatile_state :: VolatileState

record CandidateState =
  votes :: "NodeId std_set"

record LeaderState =
  next_index :: "(NodeId, LogItemId) std_map"
  match_index :: "(NodeId, LogItemId) std_map"

section \<open>\<open>message.h\<close>\<close>

record AppendEntriesRequest =
  ae_leader_term :: Term
  ae_leader_id :: NodeId
  prev_log_index :: LogItemId
  prev_log_term :: Term
  entries :: Log
  leader_commit :: LogItemId

record AppendEntriesResponse =
  aer_current_term :: Term
  success :: bool
  matched_until :: "LogItemId option"

record RequestVoteRequest =
  candidate_term :: Term
  candidate_id :: NodeId
  candidate_last_log_index :: LogItemId
  candidate_last_log_term :: Term

record RequestVoteResponse =
  rvr_current_term :: Term
  vote_granted :: bool
  rvr_candidate_term :: Term

datatype Message =
    AEReq AppendEntriesRequest
  | AEResp AppendEntriesResponse
  | RVReq RequestVoteRequest
  | RVResp RequestVoteResponse

text \<open>
  The classes that implement \<open>IMessageSender\<close>: \<open>TrivialMessageSender\<close> holds a pointer to a node,
  named here by the node's id; \<open>OtherNodesMessageSender\<close> holds the address of a peer process.
\<close>

datatype IMessageSender =
    TrivialMessageSender NodeId
  | OtherNodesMessageSender string

section \<open>Facts about the data\<close>

lemma max_log_size_value: "max_log_size = 230584300921369395"
  by (simp add: max_log_size_def)

lemma max_log_size_word: "max_log_size + max_log_size < 2 ^ 64"
  by (simp add: max_log_size_def)

lemma unat_log_length: "n \<le> max_log_size + max_log_size \<Longrightarrow> unat (of_nat n :: u64) = n"
  using max_log_size_word by (intro unat_of_nat_small) linarith

end
