(* ===== verification/Timeout.thy ===== *)
theory Timeout
  imports Prelude
begin

text \<open>
  \<open>hw2/src/common/timeout.h\<close>: the interface \<open>ITimeout\<close> as a locale, and \<open>UniformTimer\<close>, the class
  that implements it, with the interpretation.

  Two sources outside the program feed a \<open>UniformTimer\<close>: the random engine with its distribution
  (what \<open>uniform_int_distribution\<close> makes of \<open>mt19937\<close> is left to the implementation) and the steady
  clock. Both are given as the sequence of their future answers: \<open>draws\<close> holds the \<open>i\<close>-th value of
  \<open>uid_ms_(rnd_)\<close>, \<open>clock\<close> the \<open>i\<close>-th reading of \<open>Now()\<close> in milliseconds, and two counters say how
  many were consumed. Documented behaviour of the two is the predicate \<open>timer_ok\<close>: draws lie between
  the bounds given to the constructor and the steady clock never goes back.
\<close>

record UniformTimer =
  min_ms :: int
  max_ms :: int
  draws :: "nat \<Rightarrow> int"
  draws_used :: nat
  clock :: "nat \<Rightarrow> int"
  clock_reads :: nat
  expires_at :: int

definition make_UniformTimer :: "int \<Rightarrow> int \<Rightarrow> (nat \<Rightarrow> int) \<Rightarrow> (nat \<Rightarrow> int) \<Rightarrow> UniformTimer" where
  "make_UniformTimer mn mx rnd clk =
     \<lparr>min_ms = mn, max_ms = mx, draws = rnd, draws_used = 0, clock = clk, clock_reads = 0,
      expires_at = 0\<rparr>"

definition Now :: "UniformTimer \<Rightarrow> int \<times> UniformTimer" where
  "Now t = (clock t (clock_reads t), t\<lparr>clock_reads := Suc (clock_reads t)\<rparr>)"

definition Reset :: "UniformTimer \<Rightarrow> UniformTimer" where
  "Reset t =
     (let period = draws t (draws_used t);
          t = t\<lparr>draws_used := Suc (draws_used t)\<rparr>;
          (now, t) = Now t
      in t\<lparr>expires_at := now + period\<rparr>)"

text \<open>\<open>IsExpired\<close> reads the clock twice: once for the log line, once for the comparison.\<close>

definition IsExpired :: "UniformTimer \<Rightarrow> bool \<times> UniformTimer" where
  "IsExpired t =
     (let (_, t) = Now t;
          (now, t) = Now t
      in (now > expires_at t, t))"

definition timer_ok :: "UniformTimer \<Rightarrow> bool" where
  "timer_ok t \<longleftrightarrow> mono (clock t) \<and> 0 \<le> min_ms t \<and>
     (\<forall>i. min_ms t \<le> draws t i \<and> draws t i \<le> max_ms t)"

section \<open>The interface \<open>ITimeout\<close>\<close>

text \<open>
  \<open>now t\<close> is a lower bound of every later clock reading. What a client may rely on: a timer that
  was just reset does not report expiry while the clock stands still, expiry is stable until the
  next reset, and polling does not move the deadline.
\<close>

locale itimeout =
  fixes reset :: "'t \<Rightarrow> 't"
    and is_expired :: "'t \<Rightarrow> bool \<times> 't"
    and deadline :: "'t \<Rightarrow> int"
    and now :: "'t \<Rightarrow> int"
    and ok :: "'t \<Rightarrow> bool"
  assumes ok_reset: "ok t \<Longrightarrow> ok (reset t)"
    and ok_poll: "ok t \<Longrightarrow> ok (snd (is_expired t))"
    and reset_future: "ok t \<Longrightarrow> now t \<le> deadline (reset t)"
    and poll_deadline: "deadline (snd (is_expired t)) = deadline t"
    and poll_now: "ok t \<Longrightarrow> now t \<le> now (snd (is_expired t))"
    and expired_if_past: "ok t \<Longrightarrow> deadline t < now t \<Longrightarrow> fst (is_expired t)"
    and past_if_expired: "ok t \<Longrightarrow> fst (is_expired t) \<Longrightarrow> deadline t < now (snd (is_expired t))"
begin

lemma expiry_stable:
  assumes "ok t" and "fst (is_expired t)"
  shows "fst (is_expired (snd (is_expired t)))"
  using assms by (intro expired_if_past ok_poll) (auto simp: poll_deadline dest: past_if_expired)

text \<open>Polling any number of times after expiry reports expiry every time.\<close>

lemma expiry_stable_polls:
  assumes "ok t" and "fst (is_expired t)"
  shows "fst (is_expired (((\<lambda>t. snd (is_expired t)) ^^ k) t))"
proof -
  have "ok (((\<lambda>t. snd (is_expired t)) ^^ k) t) \<and>
        fst (is_expired (((\<lambda>t. snd (is_expired t)) ^^ k) t))"
    by (induction k) (auto simp: assms intro: expiry_stable ok_poll)
  then show ?thesis by simp
qed

end

lemma Now_simps [simp]:
  "fst (Now t) = clock t (clock_reads t)"
  "snd (Now t) = t\<lparr>clock_reads := Suc (clock_reads t)\<rparr>"
  by (simp_all add: Now_def)

lemma Reset_simps:
  "expires_at (Reset t) = clock t (clock_reads t) + draws t (draws_used t)"
  "clock (Reset t) = clock t" "draws (Reset t) = draws t"
  "min_ms (Reset t) = min_ms t" "max_ms (Reset t) = max_ms t"
  "clock_reads (Reset t) = Suc (clock_reads t)"
  by (simp_all add: Reset_def Now_def)

lemma IsExpired_simps:
  "fst (IsExpired t) = (expires_at t < clock t (Suc (clock_reads t)))"
  "expires_at (snd (IsExpired t)) = expires_at t"
  "clock (snd (IsExpired t)) = clock t" "draws (snd (IsExpired t)) = draws t"
  "min_ms (snd (IsExpired t)) = min_ms t" "max_ms (snd (IsExpired t)) = max_ms t"
  "clock_reads (snd (IsExpired t)) = clock_reads t + 2"
  by (simp_all add: IsExpired_def Now_def)

lemma Reset_fits:
  assumes "timer_ok t" and "max_ms t < 2 ^ 62" and "0 \<le> clock t (clock_reads t)" and "clock t (clock_reads t) < 2 ^ 62"
  shows "0 \<le> expires_at (Reset t) \<and> expires_at (Reset t) < 2 ^ 63"
proof -
  have "min_ms t \<le> draws t (draws_used t)" "draws t (draws_used t) \<le> max_ms t" "0 \<le> min_ms t"
    using assms(1) by (simp_all add: timer_ok_def)
  then show ?thesis using assms(2-4) by (simp add: Reset_simps)
qed

interpretation uniform_timer: itimeout Reset IsExpired expires_at
    "\<lambda>t. clock t (clock_reads t - 1)" timer_ok
proof
  fix t assume ok: "timer_ok t"
  have mono: "i \<le> j \<Longrightarrow> clock t i \<le> clock t j" for i j
    using ok by (auto simp: timer_ok_def dest: monoD)
  show "timer_ok (Reset t)" using ok by (simp add: timer_ok_def Reset_simps)
  show "timer_ok (snd (IsExpired t))" using ok by (simp add: timer_ok_def IsExpired_simps)
  show "clock t (clock_reads t - 1) \<le> expires_at (Reset t)"
    using ok mono[of "clock_reads t - 1" "clock_reads t"]
    by (simp add: timer_ok_def Reset_simps) (smt (verit))
  show "clock t (clock_reads t - 1)
      \<le> clock (snd (IsExpired t)) (clock_reads (snd (IsExpired t)) - 1)"
    using mono by (simp add: IsExpired_simps)
  show "fst (IsExpired t)" if "expires_at t < clock t (clock_reads t - 1)"
    using that order_less_le_trans[OF that mono[of "clock_reads t - 1" "Suc (clock_reads t)"]]
    by (simp add: IsExpired_simps)
  show "expires_at t < clock (snd (IsExpired t)) (clock_reads (snd (IsExpired t)) - 1)"
    if "fst (IsExpired t)"
    using that by (simp add: IsExpired_simps)
qed (simp add: IsExpired_simps)

end
