(* ===== verification/Node.thy ===== *)
theory Node
  imports ConsensusTypes Timeout
begin

text \<open>
  \<open>class Node\<close> of \<open>hw2/src/consensus/node.h\<close> and \<open>node.cpp\<close>: its fields as a record and every
  method as a function on it, in the order of the file. A method that may throw or run into
  undefined behaviour returns a \<open>result\<close>.

  Effects. \<open>channel->Send(my_id_, m)\<close> is \<open>channel_send\<close>: every call is appended to the field \<open>sent\<close>,
  and a \<open>TrivialMessageSender\<close> that points to this node also calls \<open>AddMessage\<close> on it, as in the
  source. A promise is a number; the two \<open>..._results\<close> fields hold what the matching futures see. A
  promise moves from the vector that holds it to where the code moves it; overwriting a promise
  without a value breaks it. The log lines (\<open>PRETTY_LOG\<close>, \<open>LOG\<close>) are not modelled. The mutexes make
  each access to a queue atomic; a \<open>Tick\<close> empties each queue once, so a call from another thread
  during a \<open>Tick\<close> has the effect of a call before or after it on that queue.
\<close>

section \<open>The state\<close>

datatype 'a promise_state = Pending | Ready 'a | Broken

datatype AddCommandResult = AddCommandResult (potential_leader_id: "NodeId option")

definition CommandPersisted :: "AddCommandResult \<Rightarrow> bool" where
  "CommandPersisted r = (potential_leader_id r = None)"

definition PotentialLeader :: "AddCommandResult \<Rightarrow> NodeId result" where
  "PotentialLeader r = (case potential_leader_id r of None \<Rightarrow> Inl BadOptionalAccess | Some i \<Rightarrow> Inr i)"

type_synonym promise = nat
type_synonym PersCommandsQuery = "LogItemId \<times> u64"

record Node =
  tick_number :: u64
  my_id :: NodeId
  channels :: "(NodeId, IMessageSender) std_map"
  total_nodes :: u64
  election_timeout :: UniformTimer
  node_state :: State
  leader_state :: "LeaderState option"
  candidate_state :: "CandidateState option"
  role :: NodeState
  incoming_append_entries_requests :: "(NodeId \<times> AppendEntriesRequest) list"
  incoming_request_vote_requests :: "(NodeId \<times> RequestVoteRequest) list"
  incoming_append_entries_responses :: "(NodeId \<times> AppendEntriesResponse) list"
  incoming_request_vote_responses :: "(NodeId \<times> RequestVoteResponse) list"
  incoming_commands :: "(Command \<times> promise) list"
  get_persistent_commands_reqs :: "(PersCommandsQuery \<times> promise) list"
  items_to_response :: "(LogItemId, promise) std_map"
  next_promise :: promise
  command_results :: "promise \<Rightarrow> AddCommandResult promise_state"
  query_results :: "promise \<Rightarrow> Command list promise_state"
  sent :: "(IMessageSender \<times> NodeId \<times> Message) list"

section \<open>Accessors\<close>

text \<open>The accessors return references: each is a read and a write function here.\<close>

definition GetCurrentTerm :: "Node \<Rightarrow> Term" where
  [node_simps]: "GetCurrentTerm n = current_term (persistent_state (node_state n))"

definition set_current_term :: "Term \<Rightarrow> Node \<Rightarrow> Node" where
  [node_simps]: "set_current_term t n =
     n\<lparr>node_state := (node_state n)\<lparr>persistent_state :=
        (persistent_state (node_state n))\<lparr>current_term := t\<rparr>\<rparr>\<rparr>"

definition GetLog :: "Node \<Rightarrow> Log" where
  [node_simps]: "GetLog n = plog (persistent_state (node_state n))"

definition set_log :: "Log \<Rightarrow> Node \<Rightarrow> Node" where
  [node_simps]: "set_log l n =
     n\<lparr>node_state := (node_state n)\<lparr>persistent_state := (persistent_state (node_state n))\<lparr>plog := l\<rparr>\<rparr>\<rparr>"

definition GetCommitIndex :: "Node \<Rightarrow> LogItemId" where
  [node_simps]: "GetCommitIndex n = commit_index (volatile_state (node_state n))"

definition set_commit_index :: "LogItemId \<Rightarrow> Node \<Rightarrow> Node" where
  [node_simps]: "set_commit_index i n =
     n\<lparr>node_state := (node_state n)\<lparr>volatile_state := (volatile_state (node_state n))\<lparr>commit_index := i\<rparr>\<rparr>\<rparr>"

definition GetVotedFor :: "Node \<Rightarrow> NodeId option" where
  [node_simps]: "GetVotedFor n = voted_for (persistent_state (node_state n))"

definition set_voted_for :: "NodeId option \<Rightarrow> Node \<Rightarrow> Node" where
  [node_simps]: "set_voted_for v n =
     n\<lparr>node_state := (node_state n)\<lparr>persistent_state := (persistent_state (node_state n))\<lparr>voted_for := v\<rparr>\<rparr>\<rparr>"

definition GetRole :: "Node \<Rightarrow> NodeState" where
  [node_simps]: "GetRole n = role n"

definition log_size :: "Log \<Rightarrow> u64" where
  "log_size l = of_nat (length l)"

definition GetLastLogTerm :: "Node \<Rightarrow> Term result" where
  "GetLastLogTerm n =
     (if GetLog n = [] then Inl BadIndex else Inr (leader_term (last (GetLog n))))"

definition GetLastLogIndex :: "Node \<Rightarrow> LogItemId" where
  "GetLastLogIndex n = log_size (GetLog n) - 1"

definition AppendEntriesUnsuccessfull :: "Node \<Rightarrow> AppendEntriesResponse" where
  "AppendEntriesUnsuccessfull n =
     \<lparr>aer_current_term = GetCurrentTerm n, success = False, matched_until = None\<rparr>"

definition AppendEntriesSuccessfull :: "LogItemId \<Rightarrow> Node \<Rightarrow> AppendEntriesResponse" where
  "AppendEntriesSuccessfull i n =
     \<lparr>aer_current_term = GetCurrentTerm n, success = True, matched_until = Some i\<rparr>"

text \<open>The designated initialiser leaves \<open>candidate_term\<close> out: it is value-initialised to 0.\<close>

definition RequestVoteUnsuccessfull :: "Node \<Rightarrow> RequestVoteResponse" where
  "RequestVoteUnsuccessfull n =
     \<lparr>rvr_current_term = GetCurrentTerm n, vote_granted = False, rvr_candidate_term = 0\<rparr>"

definition RequestVoteSuccessfull :: "Term \<Rightarrow> Node \<Rightarrow> RequestVoteResponse" where
  "RequestVoteSuccessfull t n =
     \<lparr>rvr_current_term = GetCurrentTerm n, vote_granted = True, rvr_candidate_term = t\<rparr>"

text \<open>\<open>RequestVoteResponse()\<close>: every member is value-initialised.\<close>

definition default_RequestVoteResponse :: RequestVoteResponse where
  "default_RequestVoteResponse =
     \<lparr>rvr_current_term = 0, vote_granted = False, rvr_candidate_term = 0\<rparr>"

section \<open>Promises\<close>

definition set_value :: "promise \<Rightarrow> 'a \<Rightarrow> (promise \<Rightarrow> 'a promise_state)
    \<Rightarrow> (promise \<Rightarrow> 'a promise_state) result" where
  "set_value p v rs =
     (case rs p of Pending \<Rightarrow> Inr (rs(p := Ready v)) | _ \<Rightarrow> Inl PromiseSatisfied)"

definition set_command_value :: "promise \<Rightarrow> AddCommandResult \<Rightarrow> Node \<Rightarrow> Node result" where
  "set_command_value p v n =
     bind_res (set_value p v (command_results n)) (\<lambda>rs. Inr (n\<lparr>command_results := rs\<rparr>))"

definition set_query_value :: "promise \<Rightarrow> Command list \<Rightarrow> Node \<Rightarrow> Node result" where
  "set_query_value p v n =
     bind_res (set_value p v (query_results n)) (\<lambda>rs. Inr (n\<lparr>query_results := rs\<rparr>))"

text \<open>Destroying a promise that has no value makes its future report \<open>broken_promise\<close>.\<close>

definition drop_promise :: "promise \<Rightarrow> Node \<Rightarrow> Node" where
  "drop_promise p n =
     (case command_results n p of
        Pending \<Rightarrow> n\<lparr>command_results := (command_results n)(p := Broken)\<rparr>
      | _ \<Rightarrow> n)"

section \<open>Messages and channels\<close>

definition AddMessage :: "NodeId \<Rightarrow> Message \<Rightarrow> Node \<Rightarrow> Node" where
  "AddMessage sender msg n =
     (case msg of
        AEReq r \<Rightarrow> n\<lparr>incoming_append_entries_requests :=
          incoming_append_entries_requests n @ [(sender, r)]\<rparr>
      | RVReq r \<Rightarrow> n\<lparr>incoming_request_vote_requests :=
          incoming_request_vote_requests n @ [(sender, r)]\<rparr>
      | AEResp r \<Rightarrow> n\<lparr>incoming_append_entries_responses :=
          incoming_append_entries_responses n @ [(sender, r)]\<rparr>
      | RVResp r \<Rightarrow> n\<lparr>incoming_request_vote_responses :=
          incoming_request_vote_responses n @ [(sender, r)]\<rparr>)"

definition channel_send :: "IMessageSender \<Rightarrow> NodeId \<Rightarrow> Message \<Rightarrow> Node \<Rightarrow> Node" where
  "channel_send ch sender msg n =
     (let n = n\<lparr>sent := sent n @ [(ch, sender, msg)]\<rparr>
      in case ch of
           TrivialMessageSender i \<Rightarrow> (if i = my_id n then AddMessage sender msg n else n)
         | OtherNodesMessageSender addr \<Rightarrow> n)"

section \<open>Construction\<close>

definition initial_log :: Log where
  "initial_log = [LogItem [] 0]"

definition make_Node ::
    "NodeId \<Rightarrow> (NodeId, IMessageSender) std_map \<Rightarrow> UniformTimer \<Rightarrow> Node" where
  "make_Node i chan timer =
     (let chan = map_insert i (TrivialMessageSender i) chan
      in \<lparr>tick_number = 0, my_id = i, channels = chan, total_nodes = of_nat (length chan),
          election_timeout = timer,
          node_state =
            \<lparr>persistent_state = \<lparr>current_term = 0, voted_for = None, plog = initial_log\<rparr>,
             volatile_state = \<lparr>commit_index = 0\<rparr>\<rparr>,
          leader_state = None, candidate_state = None, role = kFollower,
          incoming_append_entries_requests = [], incoming_request_vote_requests = [],
          incoming_append_entries_responses = [], incoming_request_vote_responses = [],
          incoming_commands = [], get_persistent_commands_reqs = [], items_to_response = [],
          next_promise = 0, command_results = (\<lambda>_. Pending), query_results = (\<lambda>_. Pending),
          sent = []\<rparr>)"

section \<open>Timer\<close>

definition DidElectionTimeoutExpire :: "Node \<Rightarrow> bool \<times> Node" where
  "DidElectionTimeoutExpire n =
     (let (e, t) = IsExpired (election_timeout n) in (e, n\<lparr>election_timeout := t\<rparr>))"

definition ResetElectionTimer :: "Node \<Rightarrow> Node" where
  "ResetElectionTimer n = n\<lparr>election_timeout := Reset (election_timeout n)\<rparr>"

section \<open>Role changes and outgoing requests\<close>

definition BecomeFollower :: "Node \<Rightarrow> Node" where
  "BecomeFollower n =
     (let n = n\<lparr>role := kFollower\<rparr>;
          n = set_voted_for None n;
          n = n\<lparr>candidate_state := None, leader_state := None\<rparr>
      in ResetElectionTimer n)"

definition SendRequestVoteToAll :: "Node \<Rightarrow> Node result" where
  "SendRequestVoteToAll n =
     bind_res (GetLastLogTerm n) (\<lambda>last_term.
       let request = \<lparr>candidate_term = GetCurrentTerm n, candidate_id = my_id n,
                      candidate_last_log_index = GetLastLogIndex n,
                      candidate_last_log_term = last_term\<rparr>
       in Inr (fold (\<lambda>(node_id, channel) n. channel_send channel (my_id n) (RVReq request) n)
                 (channels n) n))"

definition BecomeCandidate :: "Node \<Rightarrow> Node result" where
  "BecomeCandidate n =
     (let n = set_current_term (GetCurrentTerm n + 1) n;
          n = set_voted_for (Some (my_id n)) n;
          n = ResetElectionTimer n
      in bind_res (SendRequestVoteToAll n) (\<lambda>n.
           Inr (n\<lparr>role := kCandidate, candidate_state := Some \<lparr>votes = []\<rparr>,
                  leader_state := None\<rparr>)))"

text \<open>\<open>leader_state_->next_index[id]\<close>, read: a missing key is inserted with value 0.\<close>

definition read_next_index :: "NodeId \<Rightarrow> Node \<Rightarrow> (LogItemId \<times> Node) result" where
  "read_next_index i n =
     (case leader_state n of
        None \<Rightarrow> Inl NullOptional
      | Some ls \<Rightarrow>
          let (v, m) = map_subscript 0 i (next_index ls)
          in Inr (v, n\<lparr>leader_state := Some (ls\<lparr>next_index := m\<rparr>)\<rparr>))"

definition SendAppendEntriesToSomeone :: "NodeId \<Rightarrow> bool \<Rightarrow> Node \<Rightarrow> Node result" where
  "SendAppendEntriesToSomeone who heartbeat n =
     (if GetRole n \<noteq> kLeader then Inr n
      else bind_res (map_at (channels n) who) (\<lambda>channel.
           bind_res (read_next_index who n) (\<lambda>(next, n).
           if GetLastLogIndex n \<ge> next \<or> heartbeat then
             bind_res (read_range (GetLog n) [unat next..<Suc (unat (GetLastLogIndex n))])
               (\<lambda>log_to_send.
             bind_res (read_at (GetLog n) (next - 1)) (\<lambda>prev.
               let request = \<lparr>ae_leader_term = GetCurrentTerm n, ae_leader_id = my_id n,
                              prev_log_index = next - 1, prev_log_term = leader_term prev,
                              entries = log_to_send, leader_commit = GetCommitIndex n\<rparr>
               in Inr (channel_send channel (my_id n) (AEReq request) n)))
           else Inr n)))"

definition SendAppendEntriesToAll :: "bool \<Rightarrow> Node \<Rightarrow> Node result" where
  "SendAppendEntriesToAll heartbeat n =
     fold_res (\<lambda>(node_id, channel). SendAppendEntriesToSomeone node_id heartbeat) (channels n) n"

definition BecomeLeader :: "Node \<Rightarrow> Node result" where
  "BecomeLeader n =
     (let n = set_voted_for None n;
          ids = map_keys (channels n);
          last1 = GetLastLogIndex n + 1;
          ls = \<lparr>next_index = fold (\<lambda>i. map_insert i last1) ids [],
                match_index = fold (\<lambda>i. map_insert i 0) ids []\<rparr>;
          n = n\<lparr>candidate_state := None, leader_state := Some ls, role := kLeader\<rparr>
      in SendAppendEntriesToAll True n)"

section \<open>\<open>AppendEntries\<close>\<close>

text \<open>
  The promises of all queued commands are answered with the leader's id (a node that is not leader
  does this when a current \<open>AppendEntries\<close> request arrives).
\<close>

definition redirect_commands :: "NodeId \<Rightarrow> Node \<Rightarrow> Node result" where
  "redirect_commands leader n =
     (let new_commands = incoming_commands n;
          n = n\<lparr>incoming_commands := []\<rparr>
      in fold_res (\<lambda>(_, p). set_command_value p (AddCommandResult (Some leader)))
           new_commands n)"

text \<open>
  The loop over the request's entries. \<open>pos\<close> is \<open>pos_in_request\<close>; the third argument is the part of
  \<open>req.entries\<close> from \<open>pos\<close> on. Index arithmetic is on 64 bits.
\<close>

fun append_entries :: "LogItemId \<Rightarrow> u64 \<Rightarrow> Log \<Rightarrow> Log \<Rightarrow> Log result" where
  "append_entries prev pos [] log = Inr log"
| "append_entries prev pos (e # es) log =
     (if log_size log > prev + pos + 1 then
        bind_res (read_at log (prev + pos + 1)) (\<lambda>item.
        if item = e then append_entries prev (pos + 1) es log
        else bind_res (push_back max_log_size e
               (vector_resize (LogItem [] 0) (unat (prev + pos + 1)) log))
             (append_entries prev (pos + 1) es))
      else bind_res (push_back max_log_size e log) (append_entries prev (pos + 1) es))"

definition HandleAppendEntriesRequest ::
    "AppendEntriesRequest \<Rightarrow> Node \<Rightarrow> (AppendEntriesResponse \<times> Node) result" where
  "HandleAppendEntriesRequest req n =
     (let n = (if GetCurrentTerm n < ae_leader_term req
               then BecomeFollower (set_current_term (ae_leader_term req) n) else n);
          n = ResetElectionTimer n
      in if ae_leader_term req < GetCurrentTerm n then Inr (AppendEntriesUnsuccessfull n, n)
         else bind_res
           (if GetRole n \<noteq> kLeader then redirect_commands (ae_leader_id req) n else Inr n) (\<lambda>n.
         if log_size (GetLog n) \<le> prev_log_index req then Inr (AppendEntriesUnsuccessfull n, n)
         else bind_res (read_at (GetLog n) (prev_log_index req)) (\<lambda>prev.
         if leader_term prev \<noteq> prev_log_term req then Inr (AppendEntriesUnsuccessfull n, n)
         else bind_res (append_entries (prev_log_index req) 0 (entries req) (GetLog n)) (\<lambda>log.
           let n = set_log log n;
               last_new = prev_log_index req + log_size (entries req);
               n = (if leader_commit req > GetCommitIndex n
                    then set_commit_index (min (leader_commit req) last_new) n else n)
           in Inr (AppendEntriesSuccessfull (min (log_size (GetLog n) - 1) last_new) n, n)))))"

text \<open>
  \<open>--leader_state_->next_index[from_who]\<close> and the two updates of a successful response; the optional
  \<open>matched_until\<close> is dereferenced.
\<close>

definition HandleAppendEntriesResponse ::
    "AppendEntriesResponse \<Rightarrow> NodeId \<Rightarrow> Node \<Rightarrow> Node result" where
  "HandleAppendEntriesResponse resp from_who n =
     (let n = (if GetCurrentTerm n < aer_current_term resp
               then BecomeFollower (set_current_term (aer_current_term resp) n) else n)
      in if GetRole n \<noteq> kLeader then Inr n
         else case leader_state n of None \<Rightarrow> Inl NullOptional | Some ls \<Rightarrow>
           if \<not> success resp then
             (let next = fst (map_subscript 0 from_who (next_index ls))
              in Inr (n\<lparr>leader_state :=
                   Some (ls\<lparr>next_index := map_insert from_who (next - 1) (next_index ls)\<rparr>)\<rparr>))
           else case matched_until resp of None \<Rightarrow> Inl NullOptional | Some until \<Rightarrow>
             (let match = max (fst (map_subscript 0 from_who (match_index ls))) until;
                  next = max (fst (map_subscript 0 from_who (next_index ls))) (match + 1)
              in Inr (n\<lparr>leader_state :=
                   Some (ls\<lparr>match_index := map_insert from_who match (match_index ls),
                           next_index := map_insert from_who next (next_index ls)\<rparr>)\<rparr>)))"

section \<open>\<open>RequestVote\<close>\<close>

definition HandleRequestVoteRequest ::
    "RequestVoteRequest \<Rightarrow> Node \<Rightarrow> (RequestVoteResponse \<times> Node) result" where
  "HandleRequestVoteRequest req n =
     (let n = (if GetCurrentTerm n < candidate_term req
               then BecomeFollower (set_current_term (candidate_term req) n) else n)
      in if candidate_term req < GetCurrentTerm n then Inr (default_RequestVoteResponse, n)
         else if (case GetVotedFor n of None \<Rightarrow> candidate_id req | Some v \<Rightarrow> v) = candidate_id req
         then bind_res (GetLastLogTerm n) (\<lambda>last_term.
           if last_term < candidate_last_log_term req \<or>
              (last_term = candidate_last_log_term req \<and>
               GetLastLogIndex n \<le> candidate_last_log_index req)
           then let n = set_voted_for (Some (candidate_id req)) n
                in Inr (RequestVoteSuccessfull (candidate_term req) n, n)
           else Inr (RequestVoteUnsuccessfull n, n))
         else Inr (RequestVoteUnsuccessfull n, n))"

definition HandleRequestVoteResponse ::
    "RequestVoteResponse \<Rightarrow> NodeId \<Rightarrow> Node \<Rightarrow> Node result" where
  "HandleRequestVoteResponse resp from_who n =
     (let n = (if GetCurrentTerm n < rvr_current_term resp
               then BecomeFollower (set_current_term (rvr_current_term resp) n) else n)
      in if GetRole n \<noteq> kCandidate then Inr n
         else if \<not> vote_granted resp then Inr n
         else if rvr_candidate_term resp \<noteq> GetCurrentTerm n then Inr n
         else case candidate_state n of None \<Rightarrow> Inl NullOptional | Some cs \<Rightarrow>
           let vs = set_insert from_who (votes cs);
               n = n\<lparr>candidate_state := Some (cs\<lparr>votes := vs\<rparr>)\<rparr>
           in if of_nat (length vs) * 2 \<ge> total_nodes n + 1 then BecomeLeader n else Inr n)"

section \<open>Client requests\<close>

definition GetPersistentCommands :: "LogItemId \<Rightarrow> u64 \<Rightarrow> Node \<Rightarrow> promise \<times> Node" where
  "GetPersistentCommands from_idx max_count n =
     (let p = next_promise n;
          from_idx = (if from_idx = 0 then 1 else from_idx)
      in (p, n\<lparr>next_promise := Suc p,
               get_persistent_commands_reqs :=
                 get_persistent_commands_reqs n @ [((from_idx, max_count), p)]\<rparr>))"

definition AddCommand :: "Command \<Rightarrow> Node \<Rightarrow> promise \<times> Node" where
  "AddCommand c n =
     (let p = next_promise n
      in (p, n\<lparr>next_promise := Suc p, incoming_commands := incoming_commands n @ [(c, p)]\<rparr>))"

text \<open>
  One query: the loop \<open>for (i = from; i < from + cnt && i <= GetCommitIndex(); ++i)\<close> reads \<open>log[i]\<close>;
  \<open>from + cnt\<close> is taken on 64 bits.
\<close>

definition answer_query :: "PersCommandsQuery \<times> promise \<Rightarrow> Node \<Rightarrow> Node result" where
  "answer_query req n =
     (case req of ((from_idx, cnt), p) \<Rightarrow>
        bind_res (read_range (GetLog n)
            [unat from_idx..<min (unat (from_idx + cnt)) (Suc (unat (GetCommitIndex n)))])
          (\<lambda>items. set_query_value p (map command items) n))"

definition HandleGetPersistentCommandRequests :: "Node \<Rightarrow> Node result" where
  "HandleGetPersistentCommandRequests n =
     (let reqs = get_persistent_commands_reqs n;
          n = n\<lparr>get_persistent_commands_reqs := []\<rparr>
      in fold_res answer_query reqs n)"

section \<open>Draining the message queues\<close>

definition handle_ae_req :: "NodeId \<times> AppendEntriesRequest \<Rightarrow> Node \<Rightarrow> Node result" where
  "handle_ae_req m n =
     (case m of (sender, req) \<Rightarrow>
        bind_res (map_at (channels n) sender) (\<lambda>channel.
        bind_res (HandleAppendEntriesRequest req n) (\<lambda>(resp, n).
          Inr (channel_send channel (my_id n) (AEResp resp) n))))"

definition handle_rv_req :: "NodeId \<times> RequestVoteRequest \<Rightarrow> Node \<Rightarrow> Node result" where
  "handle_rv_req m n =
     (case m of (sender, req) \<Rightarrow>
        bind_res (map_at (channels n) sender) (\<lambda>channel.
        bind_res (HandleRequestVoteRequest req n) (\<lambda>(resp, n).
          Inr (channel_send channel (my_id n) (RVResp resp) n))))"

definition HandleIncomingMessages :: "Node \<Rightarrow> Node result" where
  "HandleIncomingMessages n =
     (let ae_reqs = incoming_append_entries_requests n;
          rv_reqs = incoming_request_vote_requests n;
          ae_resps = incoming_append_entries_responses n;
          rv_resps = incoming_request_vote_responses n;
          n = n\<lparr>incoming_append_entries_requests := [], incoming_request_vote_requests := [],
                incoming_append_entries_responses := [], incoming_request_vote_responses := []\<rparr>
      in bind_res (fold_res handle_ae_req ae_reqs n) (\<lambda>n.
         bind_res (fold_res handle_rv_req rv_reqs n) (\<lambda>n.
         bind_res (fold_res (\<lambda>(sender, resp). HandleAppendEntriesResponse resp sender) ae_resps n)
           (fold_res (\<lambda>(sender, resp). HandleRequestVoteResponse resp sender) rv_resps))))"

section \<open>Committing and appending\<close>

definition count_matched :: "LogItemId \<Rightarrow> (NodeId, LogItemId) std_map \<Rightarrow> u64" where
  "count_matched i m = of_nat (length (filter (\<lambda>(k, v). v \<ge> i) m))"

text \<open>One round of the search for the last index that a majority holds.\<close>

definition commit_candidate ::
    "Node \<Rightarrow> nat \<Rightarrow> LogItemId option \<Rightarrow> LogItemId option result" where
  "commit_candidate n i id_to_commit =
     (case leader_state n of None \<Rightarrow> Inl NullOptional | Some ls \<Rightarrow>
        Inr (if count_matched (of_nat i) (match_index ls) * 2 \<ge> total_nodes n + 1
             then Some (of_nat i) else id_to_commit))"

text \<open>The promise of item \<open>i\<close>, if the node holds one, reports success and is erased.\<close>

definition respond_item :: "nat \<Rightarrow> Node \<Rightarrow> Node result" where
  "respond_item i n =
     (case map_find (items_to_response n) (of_nat i) of
        None \<Rightarrow> Inr n
      | Some p \<Rightarrow>
          bind_res (set_command_value p (AddCommandResult None) n) (\<lambda>n.
            Inr (n\<lparr>items_to_response := map_erase (of_nat i) (items_to_response n)\<rparr>)))"

definition CommitIfPossible :: "Node \<Rightarrow> Node result" where
  "CommitIfPossible n =
     (let start = unat (GetCommitIndex n + 1) in
      bind_res (fold_res (commit_candidate n) [start..<Suc (unat (GetLastLogIndex n))] None)
        (\<lambda>id_to_commit.
      case id_to_commit of None \<Rightarrow> Inr n | Some i \<Rightarrow>
        bind_res (fold_res respond_item [start..<Suc (unat i)] n) (\<lambda>n.
          Inr (set_commit_index i n))))"

text \<open>
  \<open>items_to_response_[log.size() - 1] = std::move(command.second)\<close>: the promise that the entry held
  before, if any, is destroyed.
\<close>

definition store_response :: "LogItemId \<Rightarrow> promise \<Rightarrow> Node \<Rightarrow> Node" where
  "store_response i p n =
     (let n = (case map_find (items_to_response n) i of None \<Rightarrow> n | Some q \<Rightarrow> drop_promise q n)
      in n\<lparr>items_to_response := map_insert i p (items_to_response n)\<rparr>)"

definition append_command :: "Command \<times> promise \<Rightarrow> Node \<Rightarrow> Node result" where
  "append_command c n =
     (case c of (cmd, p) \<Rightarrow>
        bind_res (push_back max_log_size (LogItem cmd (GetCurrentTerm n)) (GetLog n)) (\<lambda>log.
          let n = set_log log n
          in Inr (store_response (log_size (GetLog n) - 1) p n)))"

definition AddNewCommandsToLog :: "Node \<Rightarrow> Node result" where
  "AddNewCommandsToLog n =
     (let new_commands = incoming_commands n;
          n = n\<lparr>incoming_commands := []\<rparr>
      in fold_res append_command new_commands n)"

section \<open>\<open>Tick\<close>\<close>

definition TickLeader :: "Node \<Rightarrow> Node result" where
  "TickLeader n =
     bind_res (CommitIfPossible n) (\<lambda>n.
     bind_res (HandleIncomingMessages n) (\<lambda>n.
       if GetRole n = kLeader
       then bind_res (SendAppendEntriesToAll True n) AddNewCommandsToLog
       else Inr n))"

definition TickFollower :: "Node \<Rightarrow> Node result" where
  "TickFollower n =
     bind_res (HandleIncomingMessages n) (\<lambda>n.
       let (expired, n) = DidElectionTimeoutExpire n
       in if expired then BecomeCandidate n else Inr n)"

definition TickCandidate :: "Node \<Rightarrow> Node result" where
  "TickCandidate n = TickFollower n"

definition tick_once :: "Node \<Rightarrow> Node result" where
  "tick_once n =
     (let n = n\<lparr>tick_number := tick_number n + 1\<rparr>
      in bind_res (HandleGetPersistentCommandRequests n) (\<lambda>n.
         case role n of
           kFollower \<Rightarrow> TickFollower n
         | kCandidate \<Rightarrow> TickCandidate n
         | kLeader \<Rightarrow> TickLeader n))"

fun tick_times :: "nat \<Rightarrow> Node \<Rightarrow> Node result" where
  "tick_times 0 n = Inr n"
| "tick_times (Suc k) n = bind_res (tick_once n) (tick_times k)"

definition Tick :: "u64 \<Rightarrow> Node \<Rightarrow> Node result" where
  "Tick ticks n = tick_times (unat ticks) n"

end
