(* ===== verification/NodeInv.thy ===== *)
theory NodeInv
  imports Node
begin

text \<open>
  The type invariant of a node. \<open>node_ok\<close> says what the fields of \<open>class Node\<close> promise each other:
  the log keeps its sentinel, the role agrees with the optional leader and candidate states, the
  channel to the node itself exists, the leader's maps cover every channel, and every message in a
  queue or ever sent is well formed. One lemma per method shows that it is kept and which faults
  the method can end in; the collection \<open>keeps\<close> holds them.
\<close>

section \<open>The invariant\<close>

definition log_ok :: "Log \<Rightarrow> bool" where
  "log_ok l \<longleftrightarrow> l \<noteq> [] \<and> hd l = LogItem [] 0 \<and> length l \<le> max_log_size"

definition msg_ok :: "Message \<Rightarrow> bool" where
  "msg_ok m = (case m of
     AEReq r \<Rightarrow> length (entries r) \<le> max_log_size
   | AEResp r \<Rightarrow> (success r \<longrightarrow> matched_until r \<noteq> None)
   | RVReq r \<Rightarrow> True
   | RVResp r \<Rightarrow> True)"

definition role_ok :: "Node \<Rightarrow> bool" where
  "role_ok n \<longleftrightarrow> (role n = kLeader \<longleftrightarrow> leader_state n \<noteq> None) \<and>
     (role n = kCandidate \<longleftrightarrow> candidate_state n \<noteq> None)"

definition channels_ok :: "Node \<Rightarrow> bool" where
  "channels_ok n \<longleftrightarrow> map_ok (channels n) \<and>
     map_find (channels n) (my_id n) = Some (TrivialMessageSender (my_id n)) \<and>
     total_nodes n = of_nat (length (channels n))"

definition leader_ok :: "Node \<Rightarrow> bool" where
  "leader_ok n \<longleftrightarrow> (\<forall>ls. leader_state n = Some ls \<longrightarrow>
     map_ok (next_index ls) \<and> map_ok (match_index ls) \<and>
     set (map_keys (channels n)) \<subseteq> set (map_keys (next_index ls)) \<and>
     set (map_keys (channels n)) \<subseteq> set (map_keys (match_index ls)))"

definition candidate_ok :: "Node \<Rightarrow> bool" where
  "candidate_ok n \<longleftrightarrow> (\<forall>cs. candidate_state n = Some cs \<longrightarrow> set_ok (votes cs))"

definition queues_ok :: "Node \<Rightarrow> bool" where
  "queues_ok n \<longleftrightarrow>
     (\<forall>(s, r)\<in>set (incoming_append_entries_requests n). msg_ok (AEReq r)) \<and>
     (\<forall>(s, r)\<in>set (incoming_append_entries_responses n). msg_ok (AEResp r)) \<and>
     (\<forall>(c, s, m)\<in>set (sent n). msg_ok m)"

definition node_ok :: "Node \<Rightarrow> bool" where
  "node_ok n \<longleftrightarrow> log_ok (GetLog n) \<and> role_ok n \<and> channels_ok n \<and> leader_ok n \<and>
     candidate_ok n \<and> queues_ok n \<and> map_ok (items_to_response n)"

lemmas ok_defs = node_ok_def role_ok_def channels_ok_def leader_ok_def candidate_ok_def
  queues_ok_def

section \<open>Small facts\<close>

lemma log_ok_size: "log_ok l \<Longrightarrow> unat (log_size l) = length l"
  by (simp add: log_ok_def log_size_def unat_log_length)

lemma log_ok_last_index: "log_ok l \<Longrightarrow> unat (log_size l - 1) = length l - 1"
proof -
  assume ok: "log_ok l"
  then have "log_size l \<noteq> 0"
    using log_ok_size[of l] by (auto simp: log_ok_def)
  then show ?thesis using ok by (simp add: unat_minus1 log_ok_size)
qed

lemma GetLastLogIndex_nat: "log_ok (GetLog n) \<Longrightarrow> unat (GetLastLogIndex n) = length (GetLog n) - 1"
  by (simp add: GetLastLogIndex_def log_ok_last_index)

lemma GetLastLogTerm_ok: "log_ok (GetLog n) \<Longrightarrow> GetLastLogTerm n = Inr (leader_term (last (GetLog n)))"
  by (simp add: GetLastLogTerm_def log_ok_def)

lemma channels_self: "channels_ok n \<Longrightarrow> my_id n \<in> set (map_keys (channels n))"
  by (auto simp: channels_ok_def intro: map_find_Some_keys)

text \<open>What \<open>channel_send\<close> leaves alone, and what it adds.\<close>

lemma channel_send_frame [simp]:
  "tick_number (channel_send c s m n) = tick_number n"
  "my_id (channel_send c s m n) = my_id n"
  "channels (channel_send c s m n) = channels n"
  "total_nodes (channel_send c s m n) = total_nodes n"
  "election_timeout (channel_send c s m n) = election_timeout n"
  "node_state (channel_send c s m n) = node_state n"
  "leader_state (channel_send c s m n) = leader_state n"
  "candidate_state (channel_send c s m n) = candidate_state n"
  "role (channel_send c s m n) = role n"
  "incoming_commands (channel_send c s m n) = incoming_commands n"
  "get_persistent_commands_reqs (channel_send c s m n) = get_persistent_commands_reqs n"
  "items_to_response (channel_send c s m n) = items_to_response n"
  "next_promise (channel_send c s m n) = next_promise n"
  "command_results (channel_send c s m n) = command_results n"
  "query_results (channel_send c s m n) = query_results n"
  "sent (channel_send c s m n) = sent n @ [(c, s, m)]"
  by (simp_all add: channel_send_def AddMessage_def Let_def
      split: IMessageSender.splits Message.splits)

lemma channel_send_queues:
  "incoming_append_entries_requests (channel_send c s m n) =
     incoming_append_entries_requests n @
       (case m of AEReq r \<Rightarrow> if c = TrivialMessageSender (my_id n) then [(s, r)] else [] | _ \<Rightarrow> [])"
  "incoming_request_vote_requests (channel_send c s m n) =
     incoming_request_vote_requests n @
       (case m of RVReq r \<Rightarrow> if c = TrivialMessageSender (my_id n) then [(s, r)] else [] | _ \<Rightarrow> [])"
  "incoming_append_entries_responses (channel_send c s m n) =
     incoming_append_entries_responses n @
       (case m of AEResp r \<Rightarrow> if c = TrivialMessageSender (my_id n) then [(s, r)] else [] | _ \<Rightarrow> [])"
  "incoming_request_vote_responses (channel_send c s m n) =
     incoming_request_vote_responses n @
       (case m of RVResp r \<Rightarrow> if c = TrivialMessageSender (my_id n) then [(s, r)] else [] | _ \<Rightarrow> [])"
  by (simp_all add: channel_send_def AddMessage_def Let_def
      split: IMessageSender.splits Message.splits)

lemma channel_send_acc [simp]:
  "GetCurrentTerm (channel_send c s m n) = GetCurrentTerm n"
  "GetLog (channel_send c s m n) = GetLog n"
  "GetCommitIndex (channel_send c s m n) = GetCommitIndex n"
  "GetVotedFor (channel_send c s m n) = GetVotedFor n"
  "GetRole (channel_send c s m n) = role n"
  "GetLastLogIndex (channel_send c s m n) = GetLastLogIndex n"
  by (simp_all add: node_simps GetLastLogIndex_def)

lemma node_ok_channel_send [keeps]: "node_ok n \<Longrightarrow> msg_ok m \<Longrightarrow> node_ok (channel_send c s m n)"
  by (auto simp: ok_defs channel_send_queues msg_ok_def split: Message.splits)

section \<open>Small steps\<close>

lemma node_ok_set_current_term [keeps]: "node_ok n \<Longrightarrow> node_ok (set_current_term t n)"
  by (simp add: ok_defs node_simps)

lemma node_ok_set_voted_for [keeps]: "node_ok n \<Longrightarrow> node_ok (set_voted_for v n)"
  by (simp add: ok_defs node_simps)

lemma node_ok_set_commit_index [keeps]: "node_ok n \<Longrightarrow> node_ok (set_commit_index i n)"
  by (simp add: ok_defs node_simps)

lemma node_ok_set_log [keeps]: "node_ok n \<Longrightarrow> log_ok l \<Longrightarrow> node_ok (set_log l n)"
  by (simp add: ok_defs node_simps)

lemma node_ok_Reset [keeps]: "node_ok n \<Longrightarrow> node_ok (ResetElectionTimer n)"
  by (simp add: ok_defs node_simps ResetElectionTimer_def)

lemma node_ok_BecomeFollower [keeps]: "node_ok n \<Longrightarrow> node_ok (BecomeFollower n)"
  by (simp add: ok_defs node_simps ResetElectionTimer_def BecomeFollower_def)

lemma node_ok_DidExpire [keeps]: "node_ok n \<Longrightarrow> node_ok (snd (DidElectionTimeoutExpire n))"
  by (simp add: ok_defs node_simps DidElectionTimeoutExpire_def split: prod.splits)

lemma node_ok_AddMessage [keeps]: "node_ok n \<Longrightarrow> msg_ok m \<Longrightarrow> node_ok (AddMessage s m n)"
  by (auto simp: ok_defs node_simps AddMessage_def msg_ok_def split: Message.splits)

lemma node_ok_AddCommand [keeps]: "node_ok n \<Longrightarrow> node_ok (snd (AddCommand c n))"
  by (simp add: ok_defs node_simps AddCommand_def Let_def)

lemma node_ok_GetPersistentCommands [keeps]:
  "node_ok n \<Longrightarrow> node_ok (snd (GetPersistentCommands i k n))"
  by (simp add: ok_defs node_simps GetPersistentCommands_def Let_def)

lemma node_ok_set_command_value [keeps]:
  "node_ok n \<Longrightarrow> post {PromiseSatisfied} node_ok (set_command_value p v n)"
  by (auto simp: ok_defs node_simps set_command_value_def set_value_def post_bind
      split: promise_state.splits)

lemma node_ok_set_query_value [keeps]:
  "node_ok n \<Longrightarrow> post {PromiseSatisfied} node_ok (set_query_value p v n)"
  by (auto simp: ok_defs node_simps set_query_value_def set_value_def post_bind
      split: promise_state.splits)

lemma node_ok_make_Node [keeps]: "map_ok chan \<Longrightarrow> node_ok (make_Node i chan t)"
  by (simp add: ok_defs node_simps make_Node_def Let_def log_ok_def initial_log_def max_log_size_def)

section \<open>Outgoing requests and role changes\<close>

lemma node_ok_SendRequestVoteToAll [keeps]:
  assumes "node_ok n"
  shows "succeeds node_ok (SendRequestVoteToAll n)"
proof -
  have "log_ok (GetLog n)" using assms by (simp add: node_ok_def)
  moreover have "node_ok (fold (\<lambda>(node_id, ch) n. channel_send ch (my_id n) (RVReq r) n) chs n)"
    for r chs
    by (rule fold_invariant_on) (auto simp: assms msg_ok_def intro: node_ok_channel_send)
  ultimately show ?thesis
    by (simp add: SendRequestVoteToAll_def GetLastLogTerm_ok Let_def)
qed

lemma node_ok_read_next_index [keeps]:
  assumes "node_ok n" and "role n = kLeader"
  shows "succeeds (\<lambda>(v, n'). node_ok n' \<and> role n' = kLeader \<and> channels n' = channels n \<and>
    GetLog n' = GetLog n) (read_next_index i n)"
proof -
  obtain ls where ls: "leader_state n = Some ls"
    using assms by (auto simp: node_ok_def role_ok_def)
  obtain v m where vm: "map_subscript 0 i (next_index ls) = (v, m)" by fastforce
  have "map_ok (next_index ls)" using assms(1) ls by (simp add: node_ok_def leader_ok_def)
  then have "map_ok m" and "set (map_keys m) = insert i (set (map_keys (next_index ls)))"
    using map_subscript_keys[of 0 i "next_index ls"] map_subscript_ok[of "next_index ls" 0 i] vm
    by simp_all
  then show ?thesis
    using assms ls vm by (auto simp: read_next_index_def ok_defs node_simps)
qed

lemma read_range_length: "read_range xs is = Inr ys \<Longrightarrow> length ys = length is"
proof -
  have "fold_res (\<lambda>i out. if i < length xs then Inr (out @ [xs ! i]) else Inl BadIndex) is acc
      = Inr ys \<Longrightarrow> length ys = length acc + length is" for acc
    by (induction "is" arbitrary: acc) (auto split: if_splits)
  then show "read_range xs is = Inr ys \<Longrightarrow> length ys = length is"
    by (fastforce simp: read_range_def)
qed

lemma read_range_fault: "read_range xs is = Inl e \<Longrightarrow> e = BadIndex"
proof -
  have "fold_res (\<lambda>i out. if i < length xs then Inr (out @ [xs ! i]) else Inl BadIndex) is acc
      = Inl e \<Longrightarrow> e = BadIndex" for acc
    by (induction "is" arbitrary: acc) (auto split: if_splits)
  then show "read_range xs is = Inl e \<Longrightarrow> e = BadIndex"
    by (fastforce simp: read_range_def)
qed

lemma post_read_range: "post {BadIndex} (\<lambda>ys. length ys = length is) (read_range xs is)"
  by (cases "read_range xs is") (auto dest: read_range_length read_range_fault)

lemma post_read_at: "post {BadIndex} (\<lambda>_. True) (read_at xs i)"
  by (simp add: read_at_def)

lemma node_ok_SendAppendEntriesToSomeone [keeps]:
  assumes ok: "node_ok n" and known: "who \<in> set (map_keys (channels n))"
  shows "post {BadIndex} (\<lambda>n'. node_ok n' \<and> channels n' = channels n)
    (SendAppendEntriesToSomeone who hb n)"
proof (cases "role n = kLeader")
  case False
  then show ?thesis using ok by (simp add: SendAppendEntriesToSomeone_def GetRole_def)
next
  case True
  obtain ch where ch: "map_at (channels n) who = Inr ch" using map_at_known[OF known] by auto
  obtain nx n1 where n1: "read_next_index who n = Inr (nx, n1)"
    and ok1: "node_ok n1" and same: "channels n1 = channels n"
    using succeedsD[OF node_ok_read_next_index[OF ok True, of who]] by auto
  have len: "length [unat nx..<Suc (unat (GetLastLogIndex n1))] \<le> max_log_size"
    using ok1 GetLastLogIndex_nat[of n1] by (auto simp: node_ok_def log_ok_def)
  show ?thesis
    using True ok1 same len
    by (auto simp: SendAppendEntriesToSomeone_def GetRole_def ch n1 Let_def msg_ok_def
        intro!: post_bindI[OF post_read_range] post_bindI[OF post_read_at] node_ok_channel_send
        simp del: upt_Suc)
qed

lemma node_ok_SendAppendEntriesToAll [keeps]:
  assumes "node_ok n"
  shows "post {BadIndex} node_ok (SendAppendEntriesToAll hb n)"
proof -
  have "post {BadIndex} (\<lambda>n'. node_ok n' \<and> channels n' = channels n)
      (SendAppendEntriesToAll hb n)"
    unfolding SendAppendEntriesToAll_def
    by (rule post_fold) (use assms in \<open>force simp: map_keys_def
        intro: post_weaken[OF node_ok_SendAppendEntriesToSomeone]\<close>)+
  then show ?thesis by (rule post_weaken) simp
qed

lemma node_ok_BecomeLeader [keeps]:
  assumes "node_ok n"
  shows "post {BadIndex} node_ok (BecomeLeader n)"
proof -
  have "map_ok (fold (\<lambda>i. map_insert i v) ids [])" for v :: u64 and ids :: "NodeId list"
    using smap.ok_set_all[of "[]" "\<lambda>_. v" ids] by simp
  moreover have "set ids \<subseteq> set (map_keys (fold (\<lambda>i. map_insert i v) ids []))"
    for v :: u64 and ids :: "NodeId list"
    using smap.find_set_all[of "[]" "\<lambda>_. v" ids]
    by (auto intro: map_find_Some_keys)
  ultimately show ?thesis
    using assms
    by (auto simp: BecomeLeader_def Let_def ok_defs node_simps
        intro!: node_ok_SendAppendEntriesToAll)
qed

lemma node_ok_BecomeCandidate [keeps]:
  assumes "node_ok n"
  shows "succeeds node_ok (BecomeCandidate n)"
proof -
  have "succeeds node_ok (SendRequestVoteToAll (ResetElectionTimer (set_voted_for v
      (set_current_term (GetCurrentTerm n + 1) n))))" for v
    by (intro keeps assms)
  then show ?thesis
    unfolding BecomeCandidate_def Let_def
    by (rule post_bindI) (simp add: ok_defs node_simps)
qed

end
