(* ===== verification/AppendLog.thy ===== *)
theory AppendLog
  imports NodeInv
begin

text \<open>
  The loop of \<open>HandleAppendEntriesRequest\<close> that merges the entries of a request into the log. The
  reference definition \<open>merge_entries\<close> says what the loop is for: keep the log when it already holds
  the entries after \<open>prev_log_index\<close>, otherwise cut it there and append them. The loop is equal to
  it, and the facts that the replication argument needs (prefix kept, agreement with the sender,
  idempotence) are proved about the reference.
\<close>

definition merge_entries :: "nat \<Rightarrow> Log \<Rightarrow> Log \<Rightarrow> Log" where
  "merge_entries p es log =
     (if take (length es) (drop (Suc p) log) = es then log else take (Suc p) log @ es)"

lemma append_entries_at:
  assumes "unat prev + unat pos + 1 = q" and "q \<le> length log"
    and "length log \<le> max_log_size" and "length es \<le> max_log_size"
  shows "append_entries prev pos es log =
     (if take (length es) (drop q log) = es then Inr log
      else if q + length es \<le> max_log_size then Inr (take q log @ es) else Inl LengthError)"
  using assms
proof (induction es arbitrary: pos log q)
  case Nil
  then show ?case by simp
next
  case (Cons e es)
  note q = Cons.prems(1) and ql = Cons.prems(2) and lmax = Cons.prems(3)
  have small: "q < 2 ^ 64" using ql lmax max_log_size_word by linarith
  then have prevpos: "unat (prev + pos) = unat prev + unat pos"
    using q by (intro unat_plus_small) linarith
  have idx: "unat (prev + pos + 1) = q"
    using small q prevpos by (subst unat_plus_small) auto
  have pos1: "unat (pos + 1) = unat pos + 1"
    using small q by (subst unat_plus_small) auto
  have size: "(log_size log > prev + pos + 1) = (q < length log)"
    using idx lmax by (simp add: word_less_nat_alt log_size_def unat_log_length)
  note IH = Cons.IH[of "pos + 1" "Suc q"]
  have q1: "unat prev + unat (pos + 1) + 1 = Suc q" using q pos1 by simp
  show ?case
  proof (cases "q < length log")
    case longer: True
    then have step: "drop q log = log ! q # drop (Suc q) log" by (rule Cons_nth_drop_Suc[symmetric])
    show ?thesis
    proof (cases "log ! q = e")
      case True
      then have "take q log @ e # es = take (Suc q) log @ es"
        using longer by (simp add: take_Suc_conv_app_nth)
      then show ?thesis
        using IH[OF q1 _ lmax] longer Cons.prems(4) True
        by (simp add: size idx read_at_def step)
    next
      case False
      have "take q log @ [e] \<noteq> []" by simp
      then show ?thesis
        using IH[OF q1, of "take q log @ [e]"] longer lmax Cons.prems(4) False
        by (auto simp: size idx read_at_def step push_back_def)
    qed
  next
    case False
    then have "q = length log" using ql by simp
    then show ?thesis
      using IH[OF q1, of "log @ [e]"] lmax Cons.prems(4) False
      by (auto simp: size push_back_def)
  qed
qed

text \<open>The loop as the method calls it.\<close>

lemma append_entries_merge:
  assumes "unat prev < length log" and "length log \<le> max_log_size"
    and "unat prev + length es < max_log_size"
  shows "append_entries prev 0 es log = Inr (merge_entries (unat prev) es log)"
  using assms append_entries_at[of prev 0 "Suc (unat prev)" log es]
  by (auto simp: merge_entries_def)

lemma append_entries_cases:
  assumes "unat prev < length log" and "length log \<le> max_log_size" and "length es \<le> max_log_size"
  shows "append_entries prev 0 es log = Inr (merge_entries (unat prev) es log) \<or>
    append_entries prev 0 es log = Inl LengthError"
  using assms append_entries_at[of prev 0 "Suc (unat prev)" log es]
  by (auto simp: merge_entries_def)

section \<open>Facts about the reference\<close>

lemma merge_keeps_prefix: "p < length log \<Longrightarrow> take (Suc p) (merge_entries p es log) = take (Suc p) log"
  by (auto simp: merge_entries_def)

lemma merge_holds_entries:
  assumes "p < length log"
  shows "take (length es) (drop (Suc p) (merge_entries p es log)) = es"
  using assms by (auto simp: merge_entries_def)

lemma merge_length: "p < length log \<Longrightarrow> Suc p + length es \<le> length (merge_entries p es log)"
proof -
  assume p: "p < length log"
  have "length es \<le> length (drop (Suc p) log)" if "take (length es) (drop (Suc p) log) = es"
    by (metis that length_take min.cobounded1)
  then show ?thesis using p by (auto simp: merge_entries_def)
qed

lemma merge_length_le:
  "length (merge_entries p es log) \<le> max (length log) (Suc p + length es)"
  by (auto simp: merge_entries_def)

lemma merge_hd: "log \<noteq> [] \<Longrightarrow> hd (merge_entries p es log) = hd log \<and> merge_entries p es log \<noteq> []"
  by (cases log) (auto simp: merge_entries_def)

lemma merge_idem: "p < length log \<Longrightarrow>
  merge_entries p es (merge_entries p es log) = merge_entries p es log"
  using merge_holds_entries[of p log es] by (subst merge_entries_def) simp

text \<open>
  A request built from the log \<open>l\<close> of its sender: when the receiver agrees with \<open>l\<close> up to the
  previous entry, it agrees with \<open>l\<close> up to the last new entry afterwards.
\<close>

lemma merge_agrees:
  assumes "p < length log" and "take (Suc p) log = take (Suc p) l" and "p < length l"
    and "es = take k (drop (Suc p) l)"
  shows "take (Suc p + length es) (merge_entries p es log) = take (Suc p + length es) l"
proof -
  have e: "take (length es) (drop (Suc p) l) = es"
    using assms(4) by (cases "k \<le> length l - Suc p") simp_all
  have "take (Suc p + length es) (merge_entries p es log) =
      take (Suc p) (merge_entries p es log) @ take (length es) (drop (Suc p) (merge_entries p es log))"
    by (simp only: take_add)
  also have "\<dots> = take (Suc p) l @ es"
    by (simp only: merge_keeps_prefix[OF assms(1)] merge_holds_entries[OF assms(1)] assms(2))
  also have "\<dots> = take (Suc p + length es) l"
    by (simp only: take_add e)
  finally show ?thesis .
qed

text \<open>An entry that agrees with the request, or lies before it, is never removed.\<close>

lemma merge_keeps_agreeing:
  assumes "p < length log" and "c < length log"
    and agree: "\<And>i. p < i \<Longrightarrow> i \<le> c \<Longrightarrow> i - Suc p < length es \<and> log ! i = es ! (i - Suc p)"
  shows "take (Suc c) (merge_entries p es log) = take (Suc c) log"
proof (cases "take (length es) (drop (Suc p) log) = es")
  case True
  then show ?thesis by (simp add: merge_entries_def)
next
  case False
  have "take (Suc c) (take (Suc p) log @ es) = take (Suc c) log"
  proof (rule nth_equalityI)
    have "c - p \<le> length es" if "p < c"
      using agree[OF that order_refl] that by linarith
    then show "length (take (Suc c) (take (Suc p) log @ es)) = length (take (Suc c) log)"
      using assms by (cases "p < c") auto
    fix i assume "i < length (take (Suc c) (take (Suc p) log @ es))"
    then have "i \<le> c" by simp
    then show "take (Suc c) (take (Suc p) log @ es) ! i = take (Suc c) log ! i"
      using agree[of i] assms by (cases "i \<le> p") (auto simp: nth_append min_def)
  qed
  with False show ?thesis by (simp add: merge_entries_def)
qed

lemma log_ok_merge:
  assumes "log_ok log" and "p < length log" and "Suc p + length es \<le> max_log_size"
  shows "log_ok (merge_entries p es log)"
  using assms merge_hd[of log p es] merge_length_le[of p es log] by (auto simp: log_ok_def)

lemma log_ok_append_entries:
  assumes "log_ok log" and "unat prev < length log" and "length es \<le> max_log_size"
  shows "post {LengthError} log_ok (append_entries prev 0 es log)"
  using assms append_entries_at[of prev 0 "Suc (unat prev)" log es]
    log_ok_merge[of log "unat prev" es]
  by (auto simp: log_ok_def merge_entries_def)

end
