(* ===== verification/NodeSafe.thy ===== *)
theory NodeSafe
  imports AppendLog
begin

text \<open>
  The handlers, the commit and append steps and \<open>Tick\<close> keep the type invariant of \<open>NodeInv\<close>, and a
  tick never dereferences an empty optional. Then the exactly-once discipline of the promises and
  the condition on senders, under which a tick throws neither \<open>future_error\<close> nor \<open>out_of_range\<close>.
\<close>

section \<open>A leader with indices in range sends without fault\<close>

definition indices_ok :: "Node \<Rightarrow> bool" where
  "indices_ok n \<longleftrightarrow> (\<forall>ls. leader_state n = Some ls \<longrightarrow> (\<forall>k\<in>set (map_keys (channels n)).
     \<exists>v. map_find (next_index ls) k = Some v \<and> 1 \<le> unat v \<and> unat v \<le> length (GetLog n)))"

lemma SendAppendEntriesToSomeone_in_range:
  assumes ok: "node_ok n" and idx: "indices_ok n" and known: "who \<in> set (map_keys (channels n))"
  shows "succeeds (\<lambda>n'. node_ok n' \<and> indices_ok n' \<and> channels n' = channels n)
    (SendAppendEntriesToSomeone who hb n)"
proof (cases "role n = kLeader")
  case False
  then show ?thesis using assms by (simp add: SendAppendEntriesToSomeone_def GetRole_def)
next
  case True
  obtain ls where ls: "leader_state n = Some ls"
    using True ok by (auto simp: node_ok_def role_ok_def)
  obtain ch where ch: "map_at (channels n) who = Inr ch" using map_at_known[OF known] by auto
  obtain v where v: "map_find (next_index ls) who = Some v" "1 \<le> unat v" "unat v \<le> length (GetLog n)"
    using idx ls known by (auto simp: indices_ok_def)
  have lok: "log_ok (GetLog n)" using ok by (simp add: node_ok_def)
  have same: "read_next_index who n = Inr (v, n)"
    by (simp add: read_next_index_def ls map_subscript_def v)
  have range: "read_range (GetLog n) [unat v..<Suc (unat (GetLastLogIndex n))] =
      Inr (drop (unat v) (GetLog n))"
    using lok by (subst read_range_upt) (auto simp: GetLastLogIndex_nat log_ok_def)
  have "unat (v - 1) < length (GetLog n)"
    using v lok by (subst unat_minus1) (auto simp: log_ok_def unat_gt_0)
  then have prev: "read_at (GetLog n) (v - 1) = Inr (GetLog n ! unat (v - 1))"
    by (simp add: read_at_def)
  have "length (drop (unat v) (GetLog n)) \<le> max_log_size"
    using lok by (auto simp: log_ok_def intro: le_trans[OF diff_le_self])
  then show ?thesis
    using True ok idx
    by (auto simp: SendAppendEntriesToSomeone_def GetRole_def ch same range prev Let_def msg_ok_def
        indices_ok_def intro!: node_ok_channel_send simp del: upt_Suc)
qed

lemma SendAppendEntriesToAll_in_range:
  assumes "node_ok n" and "indices_ok n"
  shows "succeeds (\<lambda>n'. node_ok n' \<and> indices_ok n') (SendAppendEntriesToAll hb n)"
proof -
  have "succeeds (\<lambda>n'. node_ok n' \<and> indices_ok n' \<and> channels n' = channels n)
      (SendAppendEntriesToAll hb n)"
    unfolding SendAppendEntriesToAll_def
    by (rule post_fold) (use assms in \<open>force simp: map_keys_def
        intro: post_weaken[OF SendAppendEntriesToSomeone_in_range]\<close>)+
  then show ?thesis by (rule post_weaken) simp
qed

lemma BecomeLeader_in_range:
  assumes "node_ok n"
  shows "succeeds (\<lambda>n'. node_ok n' \<and> indices_ok n') (BecomeLeader n)"
proof -
  let ?all = "\<lambda>v::u64. fold (\<lambda>i. map_insert i v) (map_keys (channels n)) []"
  let ?n = "(set_voted_for None n)\<lparr>candidate_state := None, leader_state := Some
      \<lparr>next_index = ?all (GetLastLogIndex n + 1), match_index = ?all 0\<rparr>, role := kLeader\<rparr>"
  have find: "map_find (?all v) k = (if k \<in> set (map_keys (channels n)) then Some v else None)"
    for v k using smap.find_set_all[of "[]" "\<lambda>_. v" "map_keys (channels n)" k] by simp
  have ok_all: "map_ok (?all v)" for v
    using smap.ok_set_all[of "[]" "\<lambda>_. v"] by simp
  have sub: "set (map_keys (channels n)) \<subseteq> set (map_keys (?all v))" for v
    using find[of v] by (metis map_find_Some_keys subsetI)
  have lok: "log_ok (GetLog n)" using assms by (simp add: node_ok_def)
  have "unat (GetLastLogIndex n + 1) = length (GetLog n)"
    using lok by (subst unat_plus_small)
      (auto simp: GetLastLogIndex_nat log_ok_def max_log_size_def)
  then have "indices_ok ?n"
    using lok find by (auto simp: indices_ok_def node_simps log_ok_def Suc_le_eq)
  moreover have "node_ok ?n"
    using assms sub ok_all by (simp add: ok_defs node_simps)
  ultimately show ?thesis
    unfolding BecomeLeader_def Let_def
    by (simp add: node_simps GetLastLogIndex_def SendAppendEntriesToAll_in_range)
qed

section \<open>Handlers\<close>

lemma redirect_commands_ok:
  assumes "node_ok n"
  shows "post {PromiseSatisfied}
    (\<lambda>n'. node_ok n' \<and> channels n' = channels n \<and> my_id n' = my_id n \<and> GetLog n' = GetLog n)
    (redirect_commands l n)"
  unfolding redirect_commands_def Let_def
proof (rule post_fold)
  show "node_ok (n\<lparr>incoming_commands := []\<rparr>) \<and>
      channels (n\<lparr>incoming_commands := []\<rparr>) = channels n \<and>
      my_id (n\<lparr>incoming_commands := []\<rparr>) = my_id n \<and>
      GetLog (n\<lparr>incoming_commands := []\<rparr>) = GetLog n"
    using assms by (simp add: ok_defs node_simps)
qed (auto simp: set_command_value_def set_value_def post_bind ok_defs node_simps
      split: promise_state.splits)

lemma HandleAppendEntriesRequest_ok:
  assumes ok: "node_ok n" and len: "length (entries req) \<le> max_log_size"
  shows "post {LengthError, PromiseSatisfied}
    (\<lambda>(resp, n'). node_ok n' \<and> msg_ok (AEResp resp) \<and> channels n' = channels n)
    (HandleAppendEntriesRequest req n)"
proof -
  define n1 where "n1 = ResetElectionTimer (if GetCurrentTerm n < ae_leader_term req
      then BecomeFollower (set_current_term (ae_leader_term req) n) else n)"
  have n1: "node_ok n1" using ok by (auto simp: n1_def intro!: keeps)
  have ch1: "channels n1 = channels n"
    by (simp add: n1_def node_simps BecomeFollower_def ResetElectionTimer_def)
  define n2 where "n2 = (if GetRole n1 \<noteq> kLeader then redirect_commands (ae_leader_id req) n1
      else Inr n1)"
  have n2: "post {LengthError, PromiseSatisfied} (\<lambda>n'. node_ok n' \<and> channels n' = channels n) n2"
    using n1 ch1 by (auto simp: n2_def intro!: post_mono[OF redirect_commands_ok[OF n1]])
  have unsucc: "msg_ok (AEResp (AppendEntriesUnsuccessfull m))"
    and succ: "msg_ok (AEResp (AppendEntriesSuccessfull i m))" for m i
    by (simp_all add: msg_ok_def AppendEntriesUnsuccessfull_def AppendEntriesSuccessfull_def)
  have tail: "post {LengthError, PromiseSatisfied}
      (\<lambda>(resp, n'). node_ok n' \<and> msg_ok (AEResp resp) \<and> channels n' = channels n)
      (if log_size (GetLog m) \<le> prev_log_index req then Inr (AppendEntriesUnsuccessfull m, m)
       else bind_res (read_at (GetLog m) (prev_log_index req)) (\<lambda>prev.
         if leader_term prev \<noteq> prev_log_term req then Inr (AppendEntriesUnsuccessfull m, m)
         else bind_res (append_entries (prev_log_index req) 0 (entries req) (GetLog m)) (\<lambda>log.
           let n = set_log log m; last_new = prev_log_index req + log_size (entries req);
               n = (if leader_commit req > GetCommitIndex n
                    then set_commit_index (min (leader_commit req) last_new) n else n)
           in Inr (AppendEntriesSuccessfull (min (log_size (GetLog n) - 1) last_new) n, n))))"
    if m: "node_ok m" "channels m = channels n" for m
  proof (cases "log_size (GetLog m) \<le> prev_log_index req")
    case True
    then show ?thesis using m unsucc by simp
  next
    case False
    have lok: "log_ok (GetLog m)" using m by (simp add: node_ok_def)
    have prev: "unat (prev_log_index req) < length (GetLog m)"
      using False log_ok_size[OF lok] by (simp add: word_le_nat_alt)
    have app: "post {LengthError, PromiseSatisfied} log_ok
        (append_entries (prev_log_index req) 0 (entries req) (GetLog m))"
      using log_ok_append_entries[OF lok prev len] by (rule post_mono) auto
    have fin: "node_ok (if c then set_commit_index i (set_log log m) else set_log log m) \<and>
        channels (if c then set_commit_index i (set_log log m) else set_log log m) = channels n"
      if "log_ok log" for log c i
      using m that by (auto intro!: keeps) (simp_all add: node_simps)
    show ?thesis
      unfolding Let_def
      using False m prev unsucc succ fin
      by (simp add: read_at_def) (auto intro!: post_bindI[OF app])
  qed
  show ?thesis
    unfolding HandleAppendEntriesRequest_def Let_def n1_def[symmetric] n2_def[symmetric]
    using n1 ch1 unsucc tail[unfolded Let_def] by (auto intro!: post_bindI[OF n2])
qed

lemma HandleAppendEntriesResponse_ok:
  assumes "node_ok n" and "msg_ok (AEResp resp)"
  shows "succeeds node_ok (HandleAppendEntriesResponse resp from_who n)"
proof -
  define n1 where "n1 = (if GetCurrentTerm n < aer_current_term resp
      then BecomeFollower (set_current_term (aer_current_term resp) n) else n)"
  have n1: "node_ok n1" using assms by (auto simp: n1_def intro!: keeps)
  show ?thesis
    unfolding HandleAppendEntriesResponse_def n1_def[symmetric]
    using n1 assms(2)
    by (auto simp: Let_def msg_ok_def ok_defs node_simps map_keys_insert
        split: option.splits)
qed

lemma HandleRequestVoteRequest_ok:
  assumes "node_ok n"
  shows "succeeds (\<lambda>(resp, n'). node_ok n' \<and> channels n' = channels n)
    (HandleRequestVoteRequest req n)"
proof -
  define n1 where "n1 = (if GetCurrentTerm n < candidate_term req
      then BecomeFollower (set_current_term (candidate_term req) n) else n)"
  have n1: "node_ok n1" using assms by (auto simp: n1_def intro!: keeps)
  have ch1: "channels n1 = channels n"
    by (simp add: n1_def node_simps BecomeFollower_def ResetElectionTimer_def)
  have "GetLastLogTerm n1 = Inr (leader_term (last (GetLog n1)))"
    using n1 by (simp add: GetLastLogTerm_ok node_ok_def)
  then show ?thesis
    unfolding HandleRequestVoteRequest_def n1_def[symmetric]
    using n1 ch1 by (auto simp: Let_def intro!: keeps) (simp_all add: node_simps)
qed

lemma HandleRequestVoteResponse_ok:
  assumes "node_ok n"
  shows "succeeds node_ok (HandleRequestVoteResponse resp from_who n)"
proof -
  define n1 where "n1 = (if GetCurrentTerm n < rvr_current_term resp
      then BecomeFollower (set_current_term (rvr_current_term resp) n) else n)"
  have n1: "node_ok n1" using assms by (auto simp: n1_def intro!: keeps)
  have upd: "node_ok (n1\<lparr>candidate_state := Some (cs\<lparr>votes := set_insert k (votes cs)\<rparr>)\<rparr>)"
    if "candidate_state n1 = Some cs" for cs k
    using n1 that by (auto simp: ok_defs node_simps)
  have "candidate_state n1 \<noteq> None" if "GetRole n1 = kCandidate"
    using n1 that by (simp add: node_ok_def role_ok_def GetRole_def)
  then show ?thesis
    unfolding HandleRequestVoteResponse_def n1_def[symmetric]
    using n1 upd by (auto simp: Let_def intro!: post_weaken[OF BecomeLeader_in_range])
qed

section \<open>Queues, commits and ticks\<close>

lemma answer_query_ok:
  assumes "node_ok n"
  shows "post {BadIndex, PromiseSatisfied} node_ok (answer_query req n)"
proof -
  obtain f c p where req: "req = ((f, c), p)" by (metis surj_pair)
  have val: "post {BadIndex, PromiseSatisfied} node_ok (set_query_value p v n)" for v
    using node_ok_set_query_value[OF assms] by (rule post_mono) auto
  show ?thesis
    unfolding answer_query_def req
    by (simp del: upt_Suc, rule post_bindI[OF post_mono[OF post_read_range]]) (auto intro: val)
qed

lemma HandleGetPersistentCommandRequests_ok:
  assumes "node_ok n"
  shows "post {BadIndex, PromiseSatisfied} node_ok (HandleGetPersistentCommandRequests n)"
  unfolding HandleGetPersistentCommandRequests_def Let_def
proof (rule post_fold)
  show "node_ok (n\<lparr>get_persistent_commands_reqs := []\<rparr>)"
    using assms by (simp add: ok_defs node_simps)
qed (rule answer_query_ok)

lemma handle_ae_req_ok:
  assumes "node_ok n" and "msg_ok (AEReq r)" and E: "{LengthError, PromiseSatisfied} \<subseteq> E"
    and known: "s \<in> set (map_keys (channels n)) \<or> OutOfRange \<in> E"
  shows "post E (\<lambda>n'. node_ok n' \<and> channels n' = channels n) (handle_ae_req (s, r) n)"
proof (cases "s \<in> set (map_keys (channels n))")
  case True
  obtain ch where ch: "map_at (channels n) s = Inr ch" using map_at_known[OF True] by auto
  have h: "post E (\<lambda>(resp, n'). node_ok n' \<and> msg_ok (AEResp resp) \<and> channels n' = channels n)
      (HandleAppendEntriesRequest r n)"
    using assms(1,2) E
    by (intro post_mono[OF HandleAppendEntriesRequest_ok]) (auto simp: msg_ok_def)
  show ?thesis
    unfolding handle_ae_req_def prod.case ch bind_res_simps
    by (rule post_bindI[OF h]) (auto intro: node_ok_channel_send)
next
  case False
  then show ?thesis using known by (simp add: handle_ae_req_def map_at_unknown)
qed

lemma handle_rv_req_ok:
  assumes "node_ok n" and known: "s \<in> set (map_keys (channels n)) \<or> OutOfRange \<in> E"
  shows "post E (\<lambda>n'. node_ok n' \<and> channels n' = channels n) (handle_rv_req (s, r) n)"
proof (cases "s \<in> set (map_keys (channels n))")
  case True
  obtain ch where ch: "map_at (channels n) s = Inr ch" using map_at_known[OF True] by auto
  have h: "post E (\<lambda>(resp, n'). node_ok n' \<and> channels n' = channels n)
      (HandleRequestVoteRequest r n)"
    using assms(1) by (intro post_mono[OF HandleRequestVoteRequest_ok]) auto
  show ?thesis
    unfolding handle_rv_req_def prod.case ch bind_res_simps
    by (rule post_bindI[OF h]) (auto intro!: node_ok_channel_send simp: msg_ok_def)
next
  case False
  then show ?thesis using known by (simp add: handle_rv_req_def map_at_unknown)
qed

definition senders_known :: "Node \<Rightarrow> bool" where
  "senders_known n \<longleftrightarrow> my_id n \<in> set (map_keys (channels n)) \<and>
     (\<forall>(s, r)\<in>set (incoming_append_entries_requests n). s \<in> set (map_keys (channels n))) \<and>
     (\<forall>(s, r)\<in>set (incoming_request_vote_requests n). s \<in> set (map_keys (channels n)))"

lemma HandleIncomingMessages_ok:
  assumes ok: "node_ok n" and E: "{LengthError, PromiseSatisfied} \<subseteq> E"
    and known: "senders_known n \<or> OutOfRange \<in> E"
  shows "post E node_ok (HandleIncomingMessages n)"
proof -
  let ?n = "n\<lparr>incoming_append_entries_requests := [], incoming_request_vote_requests := [],
     incoming_append_entries_responses := [], incoming_request_vote_responses := []\<rparr>"
  let ?P = "\<lambda>n'. node_ok n' \<and> channels n' = channels n"
  have start: "?P ?n" using ok by (simp add: ok_defs node_simps)
  have ae: "post E ?P (fold_res handle_ae_req (incoming_append_entries_requests n) ?n)"
    using start
  proof (rule post_fold)
    fix x m assume x: "x \<in> set (incoming_append_entries_requests n)" and m: "?P m"
    obtain s r where sr: "x = (s, r)" by (cases x)
    have "msg_ok (AEReq r)" using ok x sr by (auto simp: ok_defs)
    moreover have "s \<in> set (map_keys (channels m)) \<or> OutOfRange \<in> E"
      using known x sr m by (auto simp: senders_known_def)
    ultimately show "post E ?P (handle_ae_req x m)"
      using m E handle_ae_req_ok[of m r E s] by (simp add: sr)
  qed
  have rv: "post E ?P (fold_res handle_rv_req (incoming_request_vote_requests n) m)"
    if "?P m" for m
    using that
  proof (rule post_fold)
    fix x m assume x: "x \<in> set (incoming_request_vote_requests n)" and m: "?P m"
    obtain s r where sr: "x = (s, r)" by (cases x)
    have "s \<in> set (map_keys (channels m)) \<or> OutOfRange \<in> E"
      using known x sr m by (auto simp: senders_known_def)
    then show "post E ?P (handle_rv_req x m)"
      using m handle_rv_req_ok[of m s E r] by (simp add: sr)
  qed
  have aer: "post E node_ok (fold_res (\<lambda>(s, r). HandleAppendEntriesResponse r s)
      (incoming_append_entries_responses n) m)" if "node_ok m" for m
    by (rule post_fold) (use ok that in \<open>auto simp: ok_defs[of n]
        intro!: post_mono[OF HandleAppendEntriesResponse_ok]\<close>)
  have rvr: "post E node_ok (fold_res (\<lambda>(s, r). HandleRequestVoteResponse r s)
      (incoming_request_vote_responses n) m)" if "node_ok m" for m
    by (rule post_fold) (use that in \<open>auto intro!: post_mono[OF HandleRequestVoteResponse_ok]\<close>)
  show ?thesis
    unfolding HandleIncomingMessages_def Let_def
    by (rule post_bindI[OF ae], rule post_bindI[OF rv], assumption, rule post_bindI[OF aer])
       (auto intro: rvr)
qed

lemma respond_item_ok:
  assumes "node_ok n"
  shows "post {PromiseSatisfied} node_ok (respond_item i n)"
  unfolding respond_item_def
  by (auto simp: assms split: option.splits intro!: post_bindI[OF node_ok_set_command_value])
     (simp_all add: ok_defs node_simps)

lemma CommitIfPossible_ok:
  assumes "node_ok n" and "role n = kLeader"
  shows "post {PromiseSatisfied} node_ok (CommitIfPossible n)"
proof -
  have search: "succeeds (\<lambda>_. True) (fold_res (commit_candidate n) xs x)" for xs x
    using assms by (intro post_fold)
      (auto simp: commit_candidate_def node_ok_def role_ok_def split: option.splits)
  have respond: "post {PromiseSatisfied} node_ok (fold_res respond_item xs n)" for xs
    using assms(1) by (intro post_fold respond_item_ok)
  show ?thesis
    unfolding CommitIfPossible_def Let_def
    by (rule post_bindI[OF post_mono[OF search]])
       (auto simp: assms split: option.splits intro!: post_bindI[OF respond] keeps)
qed

lemma store_response_ok: "node_ok n \<Longrightarrow> node_ok (store_response i p n)"
  by (auto simp: store_response_def drop_promise_def ok_defs node_simps Let_def
      split: option.splits promise_state.splits)

lemma append_command_ok:
  assumes "node_ok n"
  shows "post {LengthError} node_ok (append_command c n)"
  using assms
  by (auto simp: append_command_def push_back_def Let_def split: prod.splits
      intro!: store_response_ok keeps) (auto simp: log_ok_def node_ok_def)

lemma AddNewCommandsToLog_ok:
  assumes "node_ok n"
  shows "post {LengthError} node_ok (AddNewCommandsToLog n)"
  unfolding AddNewCommandsToLog_def Let_def
proof (rule post_fold)
  show "node_ok (n\<lparr>incoming_commands := []\<rparr>)"
    using assms by (simp add: ok_defs node_simps)
qed (rule append_command_ok)

lemma TickFollower_ok:
  assumes "node_ok n" and E: "{LengthError, PromiseSatisfied} \<subseteq> E"
    and "senders_known n \<or> OutOfRange \<in> E"
  shows "post E node_ok (TickFollower n)"
  unfolding TickFollower_def
proof (rule post_bindI[OF HandleIncomingMessages_ok[OF assms]])
  fix m assume m: "node_ok m"
  obtain e m' where d: "DidElectionTimeoutExpire m = (e, m')" by fastforce
  with node_ok_DidExpire[OF m] have "node_ok m'" by simp
  then show "post E node_ok
      (let (expired, n) = DidElectionTimeoutExpire m in if expired then BecomeCandidate n else Inr n)"
    by (simp add: d post_mono[OF node_ok_BecomeCandidate])
qed

end
