(* ===== verification/NodeFrame.thy ===== *)
theory NodeFrame
  imports NodeSafe
begin

text \<open>
  What each method leaves alone. \<open>ident\<close> is the configuration of a node, which nothing changes;
  \<open>client_view\<close> is what belongs to the clients (queued commands and queries, promises and their
  results), which the protocol handlers leave alone; \<open>senders_known\<close> is the condition of
  \<open>channels_.at(sender)\<close>. The methods that do change the client's part keep \<open>promises_ok\<close>: every
  promise in a queue or in \<open>items_to_response_\<close> is there once and has no value yet.
\<close>

definition ident :: "Node \<Rightarrow> NodeId \<times> (NodeId, IMessageSender) std_map \<times> u64" where
  "ident n = (my_id n, channels n, total_nodes n)"

definition client_view :: "Node \<Rightarrow> (Command \<times> promise) list \<times> (PersCommandsQuery \<times> promise) list \<times>
    (LogItemId, promise) std_map \<times> promise \<times> (promise \<Rightarrow> AddCommandResult promise_state) \<times>
    (promise \<Rightarrow> Command list promise_state)" where
  "client_view n = (incoming_commands n, get_persistent_commands_reqs n, items_to_response n,
     next_promise n, command_results n, query_results n)"

text \<open>The node \<open>n'\<close> has the configuration and the client's part of \<open>n\<close>.\<close>

definition calm :: "Node \<Rightarrow> Node \<Rightarrow> bool" where
  "calm n n' \<longleftrightarrow> ident n' = ident n \<and> client_view n' = client_view n \<and>
     (senders_known n \<longrightarrow> senders_known n')"

lemmas calm_defs = calm_def ident_def client_view_def senders_known_def

lemma calm_refl [simp]: "calm n n"
  by (simp add: calm_def)

lemma calm_trans [trans]: "calm a b \<Longrightarrow> calm b c \<Longrightarrow> calm a c"
  by (auto simp: calm_def)

interpretation calm_run: run_relation calm
  by unfold_locales (auto intro: calm_trans)

lemmas post_calm_trans = calm_run.run_after
lemmas post_calm_bind = calm_run.run_bind
lemmas post_calm_fold = calm_run.run_fold

lemma calm_setters [frame]:
  "calm n (set_current_term t n)" "calm n (set_log l n)" "calm n (set_voted_for v n)"
  "calm n (set_commit_index i n)" "calm n (ResetElectionTimer n)"
  "calm n (BecomeFollower n)" "calm n (snd (DidElectionTimeoutExpire n))"
  "calm n (n\<lparr>role := r\<rparr>)" "calm n (n\<lparr>candidate_state := cs\<rparr>)" "calm n (n\<lparr>leader_state := ls\<rparr>)"
  by (simp_all add: calm_defs node_simps ResetElectionTimer_def BecomeFollower_def
      DidElectionTimeoutExpire_def split: prod.splits)

lemma calm_channel_send [frame]: "calm n (channel_send c (my_id n) m n)"
  by (auto simp: calm_defs channel_send_queues split: Message.splits if_splits)

lemma calm_SendRequestVoteToAll [frame]: "on_ok (calm n) (SendRequestVoteToAll n)"
proof -
  have "calm n (fold (\<lambda>(k, ch) n. channel_send ch (my_id n) (RVReq r) n) chs n)" for r chs
  proof (rule fold_invariant_on)
    fix x s assume "calm n s"
    then show "calm n ((case x of (k, ch) \<Rightarrow> \<lambda>n. channel_send ch (my_id n) (RVReq r) n) s)"
      by (cases x) (auto intro: calm_trans calm_channel_send)
  qed simp
  then show ?thesis
    by (auto simp: SendRequestVoteToAll_def Let_def post_bind intro!: on_okI)
qed

lemma calm_BecomeCandidate [frame]: "on_ok (calm n) (BecomeCandidate n)"
proof -
  have "calm n (ResetElectionTimer (set_voted_for v (set_current_term t n)))" for v t
    by (meson calm_setters calm_trans)
  moreover have "calm m (m\<lparr>role := r, candidate_state := c, leader_state := l\<rparr>)" for m r c l
    by (simp add: calm_defs)
  ultimately show ?thesis
    unfolding BecomeCandidate_def Let_def
    by (intro post_calm_bind[OF post_calm_trans[OF _ calm_SendRequestVoteToAll]]) simp_all
qed

lemma calm_SendAppendEntriesToSomeone [frame]: "on_ok (calm n) (SendAppendEntriesToSomeone k hb n)"
proof -
  have "calm n b" if "read_next_index k n = Inr (v, b)" for v b
    using that by (auto simp: read_next_index_def calm_defs Let_def split: option.splits prod.splits)
  then show ?thesis
    by (intro on_okI)
       (auto simp: SendAppendEntriesToSomeone_def bind_res_eq_Inr Let_def split: if_splits
         intro: calm_trans calm_channel_send)
qed

lemma calm_SendAppendEntriesToAll [frame]: "on_ok (calm n) (SendAppendEntriesToAll hb n)"
  unfolding SendAppendEntriesToAll_def
  by (rule post_calm_fold) (auto intro: calm_SendAppendEntriesToSomeone)

lemma calm_BecomeLeader [frame]: "on_ok (calm n) (BecomeLeader n)"
  unfolding BecomeLeader_def Let_def
  by (rule post_weaken[OF calm_SendAppendEntriesToAll]) (auto simp: calm_defs node_simps)

lemma calm_HandleAppendEntriesResponse [frame]:
  "on_ok (calm n) (HandleAppendEntriesResponse r k n)"
  by (auto simp: HandleAppendEntriesResponse_def Let_def BecomeFollower_def ResetElectionTimer_def
      node_simps calm_defs split: option.splits)

lemma calm_HandleRequestVoteRequest [frame]:
  "on_ok (\<lambda>(r, n'). calm n n') (HandleRequestVoteRequest req n)"
  by (auto simp: HandleRequestVoteRequest_def Let_def BecomeFollower_def ResetElectionTimer_def
      node_simps calm_defs post_bind intro!: on_okI)

lemma calm_HandleRequestVoteResponse [frame]:
  "on_ok (calm n) (HandleRequestVoteResponse r k n)"
proof -
  define n1 where "n1 = (if GetCurrentTerm n < rvr_current_term r
      then BecomeFollower (set_current_term (rvr_current_term r) n) else n)"
  have "calm n n1" by (auto simp: n1_def intro: calm_setters calm_trans)
  moreover have "on_ok (calm n1) (BecomeLeader (n1\<lparr>candidate_state := cs\<rparr>))" for cs
    by (rule post_calm_trans[OF _ calm_BecomeLeader]) (rule calm_setters)
  moreover have "calm n1 (n1\<lparr>candidate_state := cs\<rparr>)" for cs
    by (rule calm_setters)
  ultimately show ?thesis
    unfolding HandleRequestVoteResponse_def n1_def[symmetric]
    by (auto simp: Let_def split: option.splits intro: calm_trans post_calm_trans)
qed

end
