(* ===== verification/Promises.thy ===== *)
theory Promises
  imports NodeFrame
begin

text \<open>
  The discipline of the promises. A promise that a client waits on sits in exactly one place (the
  queue of commands, \<open>items_to_response_\<close>, or the queue of queries) and has no value there; so
  \<open>set_value\<close> is never called twice on it. The commands' promises are followed through
  \<open>redirect_commands\<close>, \<open>AddNewCommandsToLog\<close> and \<open>CommitIfPossible\<close>.
\<close>

section \<open>The invariant\<close>

text \<open>\<open>cs\<close> are the commands a method has taken off the queue and not handled yet.\<close>

definition live_promises :: "(Command \<times> promise) list \<Rightarrow> Node \<Rightarrow> promise list" where
  "live_promises cs n = map snd cs @ map snd (items_to_response n)"

definition commands_ok :: "(Command \<times> promise) list \<Rightarrow> Node \<Rightarrow> bool" where
  "commands_ok cs n \<longleftrightarrow> distinct (live_promises cs n) \<and>
     (\<forall>p\<in>set (live_promises cs n). command_results n p = Pending \<and> p < next_promise n) \<and>
     (\<forall>p\<ge>next_promise n. command_results n p = Pending)"

definition queries_ok :: "(PersCommandsQuery \<times> promise) list \<Rightarrow> Node \<Rightarrow> bool" where
  "queries_ok qs n \<longleftrightarrow> distinct (map snd qs) \<and>
     (\<forall>p\<in>set (map snd qs). query_results n p = Pending \<and> p < next_promise n) \<and>
     (\<forall>p\<ge>next_promise n. query_results n p = Pending)"

definition promises_ok :: "Node \<Rightarrow> bool" where
  "promises_ok n \<longleftrightarrow> commands_ok (incoming_commands n) n \<and>
     queries_ok (get_persistent_commands_reqs n) n"

lemmas promises_defs = promises_ok_def commands_ok_def queries_ok_def live_promises_def

lemma promises_ok_calm: "calm n n' \<Longrightarrow> promises_ok n \<Longrightarrow> promises_ok n'"
  by (simp add: calm_def client_view_def promises_defs)

lemma promises_ok_make_Node: "promises_ok (make_Node i chan t)"
  by (simp add: promises_defs make_Node_def Let_def)

lemma promises_ok_AddMessage: "promises_ok n \<Longrightarrow> promises_ok (AddMessage s m n)"
  by (simp add: promises_defs AddMessage_def split: Message.splits)

lemma promises_ok_AddCommand: "promises_ok n \<Longrightarrow> promises_ok (snd (AddCommand c n))"
  by (auto simp: promises_defs AddCommand_def Let_def less_Suc_eq)

lemma promises_ok_GetPersistentCommands:
  "promises_ok n \<Longrightarrow> promises_ok (snd (GetPersistentCommands i k n))"
  by (auto simp: promises_defs GetPersistentCommands_def Let_def less_Suc_eq)

section \<open>Redirected commands\<close>

lemma set_command_values:
  assumes "distinct (map snd cs)" and "\<forall>p\<in>snd ` set cs. command_results n p = Pending"
  shows "fold_res (\<lambda>(_, p). set_command_value p v) cs n =
    Inr (n\<lparr>command_results := (\<lambda>p. if p \<in> snd ` set cs then Ready v else command_results n p)\<rparr>)"
  using assms
proof (induction cs arbitrary: n)
  case Nil
  then show ?case by simp
next
  case (Cons c cs)
  obtain d p where c: "c = (d, p)" by (cases c)
  let ?n = "n\<lparr>command_results := (command_results n)(p := Ready v)\<rparr>"
  have "set_command_value p v n = Inr ?n"
    using Cons.prems by (simp add: c set_command_value_def set_value_def)
  moreover have "\<forall>q\<in>snd ` set cs. command_results ?n q = Pending"
    using Cons.prems by (auto simp: c)
  moreover have "(\<lambda>q. if q \<in> snd ` set cs then Ready v else command_results ?n q) =
      (\<lambda>q. if q \<in> snd ` set (c # cs) then Ready v else command_results n q)"
    by (auto simp: c)
  ultimately show ?case
    using Cons.IH[of ?n] Cons.prems by (simp add: c)
qed

lemma redirect_commands_value:
  assumes "promises_ok n"
  shows "redirect_commands l n =
    Inr (n\<lparr>incoming_commands := [],
           command_results := (\<lambda>p. if p \<in> snd ` set (incoming_commands n)
             then Ready (AddCommandResult (Some l)) else command_results n p)\<rparr>)"
proof -
  have "distinct (map snd (incoming_commands n))"
    and "\<forall>p\<in>snd ` set (incoming_commands n).
      command_results (n\<lparr>incoming_commands := []\<rparr>) p = Pending"
    using assms by (simp_all add: promises_defs)
  from set_command_values[OF this] show ?thesis
    by (simp add: redirect_commands_def cong: if_cong)
qed

lemma promises_ok_redirect_commands:
  assumes "promises_ok n"
  shows "succeeds promises_ok (redirect_commands l n)"
proof -
  let ?A = "snd ` set (incoming_commands n)"
  have "\<And>p. p \<in> ?A \<Longrightarrow> p < next_promise n" and "?A \<inter> snd ` set (items_to_response n) = {}"
    using assms by (simp_all add: promises_defs)
  then have "\<forall>p\<ge>next_promise n. p \<notin> ?A"
    and "\<forall>p\<in>snd ` set (items_to_response n). p \<notin> ?A" by (fastforce, blast)
  then show ?thesis
    using assms unfolding redirect_commands_value[OF assms] promises_defs by (simp add: ball_Un)
qed

section \<open>Queries\<close>

definition committed_slice :: "Log \<Rightarrow> nat \<Rightarrow> nat \<Rightarrow> nat \<Rightarrow> Command list" where
  "committed_slice log commit from_idx until =
     map command (drop from_idx (take (min until (Suc commit)) log))"

lemma answer_query_value:
  assumes "unat (GetCommitIndex n) < length (GetLog n)" and "query_results n p = Pending"
  shows "answer_query ((f, c), p) n =
    Inr (n\<lparr>query_results := (query_results n)(p := Ready
      (committed_slice (GetLog n) (unat (GetCommitIndex n)) (unat f) (unat (f + c))))\<rparr>)"
proof -
  have "read_range (GetLog n) [unat f..<min (unat (f + c)) (Suc (unat (GetCommitIndex n)))] =
      Inr (drop (unat f) (take (min (unat (f + c)) (Suc (unat (GetCommitIndex n)))) (GetLog n)))"
    using assms(1) by (intro read_range_upt) linarith
  then show ?thesis
    using assms(2)
    by (simp add: answer_query_def set_query_value_def set_value_def committed_slice_def
        del: upt_Suc)
qed

lemma answer_queries_value:
  assumes "distinct (map snd qs)" and "\<forall>p\<in>snd ` set qs. query_results n p = Pending"
    and "unat (GetCommitIndex n) < length (GetLog n)"
  shows "\<exists>rs. fold_res answer_query qs n = Inr (n\<lparr>query_results := rs\<rparr>) \<and>
    (\<forall>((f, c), p)\<in>set qs. rs p = Ready
      (committed_slice (GetLog n) (unat (GetCommitIndex n)) (unat f) (unat (f + c)))) \<and>
    (\<forall>p. p \<notin> snd ` set qs \<longrightarrow> rs p = query_results n p)"
  using assms
proof (induction qs arbitrary: n)
  case Nil
  show ?case by (intro exI[of _ "query_results n"]) simp
next
  case (Cons q qs)
  obtain f c p where q: "q = ((f, c), p)" by (metis surj_pair)
  let ?slice = "\<lambda>f c. committed_slice (GetLog n) (unat (GetCommitIndex n)) (unat f) (unat (f + c))"
  let ?n = "n\<lparr>query_results := (query_results n)(p := Ready (?slice f c))\<rparr>"
  have acc: "GetLog ?n = GetLog n" "GetCommitIndex ?n = GetCommitIndex n"
    by (simp_all add: node_simps)
  have step: "answer_query q n = Inr ?n"
    using Cons.prems unfolding q by (intro answer_query_value) auto
  have pend: "\<forall>p\<in>snd ` set qs. query_results ?n p = Pending"
    using Cons.prems by (auto simp: q)
  have dq: "distinct (map snd qs)" using Cons.prems(1) by simp
  from Cons.IH[of ?n, unfolded acc, OF dq pend Cons.prems(3)]
  obtain rs where rs: "fold_res answer_query qs ?n = Inr (?n\<lparr>query_results := rs\<rparr>)"
    "\<forall>((f, c), p)\<in>set qs. rs p = Ready (?slice f c)"
    "\<forall>p. p \<notin> snd ` set qs \<longrightarrow> rs p = query_results ?n p"
    by (elim exE conjE) (rule that)
  have "p \<notin> snd ` set qs" using Cons.prems by (simp add: q)
  then have "rs p = Ready (?slice f c)" using rs(3) by simp
  with rs step show ?case
    by (intro exI[of _ rs]) (auto simp: q)
qed

lemma HandleGetPersistentCommandRequests_value:
  assumes "promises_ok n" and "unat (GetCommitIndex n) < length (GetLog n)"
  shows "\<exists>rs. HandleGetPersistentCommandRequests n =
      Inr (n\<lparr>get_persistent_commands_reqs := [], query_results := rs\<rparr>) \<and>
    (\<forall>((f, c), p)\<in>set (get_persistent_commands_reqs n). rs p = Ready
      (committed_slice (GetLog n) (unat (GetCommitIndex n)) (unat f) (unat (f + c)))) \<and>
    (\<forall>p. p \<notin> snd ` set (get_persistent_commands_reqs n) \<longrightarrow> rs p = query_results n p)"
proof -
  let ?n = "n\<lparr>get_persistent_commands_reqs := []\<rparr>"
  have "distinct (map snd (get_persistent_commands_reqs n))"
    and "\<forall>p\<in>snd ` set (get_persistent_commands_reqs n). query_results ?n p = Pending"
    using assms(1) by (simp_all add: promises_defs)
  from answer_queries_value[OF this] show ?thesis
    using assms(2) by (simp add: HandleGetPersistentCommandRequests_def node_simps)
qed

lemma promises_ok_HandleGetPersistentCommandRequests:
  assumes "promises_ok n"
  shows "post {BadIndex} promises_ok (HandleGetPersistentCommandRequests n)"
proof -
  have step: "post {BadIndex} (\<lambda>n'. queries_ok qs n' \<and> commands_ok (incoming_commands n') n' \<and>
      get_persistent_commands_reqs n' = get_persistent_commands_reqs n) (answer_query q n)"
    if "queries_ok (q # qs) n" "commands_ok (incoming_commands n) n" for q qs n
  proof -
    obtain f c p where q: "q = ((f, c), p)" by (metis surj_pair)
    have "queries_ok qs (n\<lparr>query_results := (query_results n)(p := v)\<rparr>)" for v
      using that(1) by (auto simp: queries_ok_def q)
    then show ?thesis
      using that unfolding answer_query_def q prod.case
      by (intro post_bindI[OF post_read_range])
         (auto simp: set_query_value_def set_value_def queries_ok_def commands_ok_def
           live_promises_def post_bind)
  qed
  have "post {BadIndex} (\<lambda>n'. queries_ok [] n' \<and> commands_ok (incoming_commands n') n' \<and>
      get_persistent_commands_reqs n' = get_persistent_commands_reqs n) (fold_res answer_query qs n)"
    if "queries_ok qs n" "commands_ok (incoming_commands n) n" for qs n
    using that
  proof (induction qs arbitrary: n)
    case Nil
    then show ?case by simp
  next
    case (Cons q qs)
    show ?case
      unfolding fold_res.simps
      by (rule post_bindI[OF step[OF Cons.prems]]) (auto elim!: post_weaken dest!: Cons.IH)
  qed
  from this[of "get_persistent_commands_reqs n" "n\<lparr>get_persistent_commands_reqs := []\<rparr>"]
  show ?thesis
    unfolding HandleGetPersistentCommandRequests_def Let_def
    using assms by (auto simp: promises_defs elim!: post_weaken)
qed

section \<open>Committed commands\<close>

lemma map_erase_filter: "map_ok m \<Longrightarrow> map_erase k m = filter (\<lambda>(k', v). k' \<noteq> k) m"
proof (induction k m rule: map_erase.induct)
  case (1 k)
  then show ?case by simp
next
  case (2 k k' v' m)
  then have "filter (\<lambda>(k'', v). k'' \<noteq> k') m = m"
    by (intro filter_True) (auto simp: map_keys_def)
  with 2 show ?case by auto
qed

definition answered :: "nat set \<Rightarrow> Node \<Rightarrow> promise set" where
  "answered S n = {p. \<exists>k. (k, p) \<in> set (items_to_response n) \<and> unat k \<in> S}"

lemma respond_item_value:
  assumes "i < 2 ^ 64" and "map_ok (items_to_response n)"
    and "\<forall>p\<in>snd ` set (items_to_response n). command_results n p = Pending"
  shows "respond_item i n =
    Inr (n\<lparr>items_to_response := filter (\<lambda>(k, p). unat k \<noteq> i) (items_to_response n),
           command_results := (\<lambda>p. if p \<in> answered {i} n then Ready (AddCommandResult None)
             else command_results n p)\<rparr>)"
proof -
  have key: "(k = of_nat i) = (unat k = i)" for k :: u64
    using assms(1) unat_of_nat_small[of i] by (auto simp: of_nat_unat)
  show ?thesis
  proof (cases "map_find (items_to_response n) (of_nat i)")
    case None
    then have none: "\<And>k p. (k, p) \<in> set (items_to_response n) \<Longrightarrow> unat k \<noteq> i"
      by (force simp: map_find_None_iff map_keys_def key[symmetric])
    then have "filter (\<lambda>(k, p). unat k \<noteq> i) (items_to_response n) = items_to_response n"
      and "answered {i} n = {}"
      by (auto simp: answered_def intro: filter_True)
    then show ?thesis using None by (simp add: respond_item_def)
  next
    case (Some p)
    then have mem: "(of_nat i, p) \<in> set (items_to_response n)"
      using assms(2) by (simp add: map_find_Some_iff)
    have "p \<in> snd ` set (items_to_response n)" using mem by force
    then have pend: "command_results n p = Pending" using assms(3) by blast
    have "answered {i} n = {p}"
      using assms(2) Some mem by (auto simp: answered_def key[symmetric] map_find_Some_iff[symmetric])
    then have "(command_results n)(p := Ready (AddCommandResult None)) =
        (\<lambda>q. if q \<in> answered {i} n then Ready (AddCommandResult None) else command_results n q)"
      by auto
    then show ?thesis
      using Some pend assms(2)
      by (simp add: respond_item_def set_command_value_def set_value_def map_erase_filter key)
  qed
qed

lemma respond_items_value:
  assumes "\<forall>i\<in>set is. i < 2 ^ 64" and "map_ok (items_to_response n)"
    and "distinct (map snd (items_to_response n))"
    and "\<forall>p\<in>snd ` set (items_to_response n). command_results n p = Pending"
  shows "fold_res respond_item is n =
    Inr (n\<lparr>items_to_response := filter (\<lambda>(k, p). unat k \<notin> set is) (items_to_response n),
           command_results := (\<lambda>p. if p \<in> answered (set is) n then Ready (AddCommandResult None)
             else command_results n p)\<rparr>)"
  using assms
proof (induction "is" arbitrary: n)
  case Nil
  then show ?case by (simp add: answered_def case_prod_unfold)
next
  case (Cons i "is")
  let ?items = "filter (\<lambda>(k, p). unat k \<noteq> i) (items_to_response n)"
  let ?rs = "\<lambda>p. if p \<in> answered {i} n then Ready (AddCommandResult None) else command_results n p"
  let ?n = "n\<lparr>items_to_response := ?items, command_results := ?rs\<rparr>"
  have sub: "set ?items \<subseteq> set (items_to_response n)" by auto
  have inj: "inj_on snd (set (items_to_response n))" and "distinct (items_to_response n)"
    using Cons.prems(3) by (simp_all add: distinct_map)
  have step: "respond_item i n = Inr ?n"
    using Cons.prems by (intro respond_item_value) auto
  have ok: "map_ok ?items"
    using Cons.prems(2) unfolding map_erase_filter[symmetric, of _ "of_nat i"]
    by (auto simp: map_ok_def map_keys_def sorted_wrt_map intro: sorted_wrt_filter)
  have dist: "distinct (map snd ?items)"
    using inj \<open>distinct (items_to_response n)\<close> sub
    by (auto simp: distinct_map intro: inj_on_subset)
  have fresh: "p \<notin> answered {i} n" if "p \<in> snd ` set ?items" for p
    using that inj unfolding answered_def inj_on_def by fastforce
  then have pend: "\<forall>p\<in>snd ` set ?items. command_results ?n p = Pending"
    using Cons.prems(4) sub by auto
  have ans: "answered (set (i # is)) n = answered {i} n \<union> answered (set is) ?n"
    by (auto simp: answered_def)
  have "fold_res respond_item (i # is) n = fold_res respond_item is ?n" by (simp add: step)
  also have "\<dots> = Inr (?n\<lparr>items_to_response := filter (\<lambda>(k, p). unat k \<notin> set is) ?items,
      command_results := (\<lambda>p. if p \<in> answered (set is) ?n then Ready (AddCommandResult None)
             else command_results ?n p)\<rparr>)"
    using Cons.IH[of ?n] Cons.prems(1) ok dist pend by simp
  also have "\<dots> = Inr (n\<lparr>items_to_response :=
        filter (\<lambda>(k, p). unat k \<notin> set (i # is)) (items_to_response n),
      command_results := (\<lambda>p. if p \<in> answered (set (i # is)) n
        then Ready (AddCommandResult None) else command_results n p)\<rparr>)"
  proof -
    have items: "filter (\<lambda>(k, p). unat k \<notin> set is) ?items =
        filter (\<lambda>(k, p). unat k \<notin> set (i # is)) (items_to_response n)"
      by (auto simp: case_prod_unfold intro: filter_cong)
    have results: "(\<lambda>p. if p \<in> answered (set is) ?n then Ready (AddCommandResult None)
          else command_results ?n p) =
        (\<lambda>p. if p \<in> answered (set (i # is)) n then Ready (AddCommandResult None)
          else command_results n p)"
      unfolding ans by (rule ext) simp
    show ?thesis unfolding items results by simp
  qed
  finally show ?case .
qed

end
