(* ===== verification/Commit.thy ===== *)
theory Commit
  imports Promises
begin

text \<open>
  \<open>CommitIfPossible\<close> and \<open>AddNewCommandsToLog\<close>: their functional behaviour. The search loop finds
  the largest index of the log above the commit index that a majority of \<open>match_index\<close> reaches;
  the second loop answers exactly the promises of the newly committed items. Then the promise
  discipline through both methods, and the theorem about a whole tick.
\<close>

section \<open>The search\<close>

definition reached :: "Node \<Rightarrow> nat \<Rightarrow> bool" where
  "reached n i \<longleftrightarrow> (case leader_state n of None \<Rightarrow> False | Some ls \<Rightarrow>
     count_matched (of_nat i) (match_index ls) * 2 \<ge> total_nodes n + 1)"

definition newly_reached :: "Node \<Rightarrow> nat list" where
  "newly_reached n =
     filter (reached n) [unat (GetCommitIndex n + 1)..<Suc (unat (GetLastLogIndex n))]"

lemma commit_search_value:
  assumes "leader_state n \<noteq> None"
  shows "fold_res (commit_candidate n) is x =
    Inr (if filter (reached n) is = [] then x else Some (of_nat (last (filter (reached n) is))))"
  using assms
  by (induction "is" arbitrary: x) (auto simp: commit_candidate_def reached_def)

text \<open>Without wrap-around the test is a strict majority of the cluster.\<close>

lemma reached_majority:
  assumes "leader_state n = Some ls" and "length (match_index ls) < 2 ^ 62"
    and "unat (total_nodes n) < 2 ^ 62" and "i < 2 ^ 64"
  shows "reached n i \<longleftrightarrow>
    unat (total_nodes n) < 2 * length (filter (\<lambda>(k, v). i \<le> unat v) (match_index ls))"
proof -
  let ?c = "length (filter (\<lambda>(k, v). i \<le> unat v) (match_index ls))"
  have c: "?c < 2 ^ 62" using assms(2) length_filter_le by (rule order.strict_trans1[rotated])
  have "count_matched (of_nat i) (match_index ls) = of_nat ?c"
    using assms(4) by (simp add: count_matched_def word_le_nat_alt unat_of_nat_small)
  moreover have "unat (of_nat ?c * 2 :: u64) = ?c * 2"
    using c by (simp add: unat_word_ariths unat_of_nat_small)
  moreover have "unat (total_nodes n + 1) = unat (total_nodes n) + 1"
    using assms(3) by (subst unat_plus_small) auto
  ultimately show ?thesis
    using assms(1) by (auto simp: reached_def word_le_nat_alt)
qed

lemma newly_reached_bounds:
  assumes "node_ok n" and "i \<in> set (newly_reached n)" and "unat (GetCommitIndex n) < 2 ^ 64 - 1"
  shows "unat (GetCommitIndex n) < i \<and> i < length (GetLog n) \<and> reached n i"
proof -
  have lok: "log_ok (GetLog n)" using assms(1) by (simp add: node_ok_def)
  then have "Suc (unat (GetLastLogIndex n)) = length (GetLog n)"
    by (simp add: GetLastLogIndex_nat log_ok_def)
  moreover have "unat (GetCommitIndex n + 1) = Suc (unat (GetCommitIndex n))"
    using assms(3) by (subst unat_plus_small) auto
  ultimately show ?thesis using assms(2) by (auto simp: newly_reached_def)
qed

lemma newly_reached_complete:
  assumes "node_ok n" and "unat (GetCommitIndex n) < i" and "i < length (GetLog n)" and "reached n i"
  shows "i \<in> set (newly_reached n)"
proof -
  have lok: "log_ok (GetLog n)" using assms(1) by (simp add: node_ok_def)
  then have "Suc (unat (GetLastLogIndex n)) = length (GetLog n)"
    by (simp add: GetLastLogIndex_nat log_ok_def)
  moreover have "unat (GetCommitIndex n + 1) = Suc (unat (GetCommitIndex n))"
    using assms(2,3) lok by (subst unat_plus_small) (auto simp: log_ok_def max_log_size_def)
  ultimately show ?thesis using assms by (auto simp: newly_reached_def)
qed

section \<open>The method\<close>

lemma CommitIfPossible_value:
  assumes ok: "node_ok n" and role: "role n = kLeader" and prom: "promises_ok n"
    and ci: "unat (GetCommitIndex n) < 2 ^ 64 - 1"
  shows "CommitIfPossible n =
    (if newly_reached n = [] then Inr n
     else let i = last (newly_reached n); new = {unat (GetCommitIndex n)<..i} in
       Inr (set_commit_index (of_nat i)
         (n\<lparr>items_to_response := filter (\<lambda>(k, p). unat k \<notin> new) (items_to_response n),
            command_results := (\<lambda>p. if p \<in> answered new n
              then Ready (AddCommandResult None) else command_results n p)\<rparr>)))"
proof -
  have ls: "leader_state n \<noteq> None" using ok role by (simp add: node_ok_def role_ok_def)
  have start: "unat (GetCommitIndex n + 1) = Suc (unat (GetCommitIndex n))"
    using ci by (subst unat_plus_small) auto
  show ?thesis
  proof (cases "newly_reached n = []")
    case True
    then show ?thesis
      by (simp add: CommitIfPossible_def commit_search_value[OF ls] newly_reached_def
          del: upt_Suc)
  next
    case False
    define i where "i = last (newly_reached n)"
    have "i \<in> set (newly_reached n)" using False by (simp add: i_def)
    then have "i < length (GetLog n)" using newly_reached_bounds[OF ok _ ci] by simp
    moreover have lok: "log_ok (GetLog n)" using ok by (simp add: node_ok_def)
    ultimately have small: "i < 2 ^ 64" by (simp add: log_ok_def max_log_size_def)
    have range: "set [Suc (unat (GetCommitIndex n))..<Suc i] = {unat (GetCommitIndex n)<..i}"
      by auto
    have respond: "fold_res respond_item [Suc (unat (GetCommitIndex n))..<Suc i] n =
      Inr (n\<lparr>items_to_response :=
            filter (\<lambda>(k, p). unat k \<notin> {unat (GetCommitIndex n)<..i}) (items_to_response n),
          command_results := (\<lambda>p. if p \<in> answered {unat (GetCommitIndex n)<..i} n
              then Ready (AddCommandResult None) else command_results n p)\<rparr>)"
      unfolding range[symmetric]
      by (rule respond_items_value) (use small ok prom in \<open>auto simp: node_ok_def promises_defs\<close>)
    have nr: "filter (reached n) [Suc (unat (GetCommitIndex n))..<Suc (unat (GetLastLogIndex n))] =
        newly_reached n"
      by (simp only: newly_reached_def start)
    have "CommitIfPossible n =
        bind_res (fold_res respond_item [Suc (unat (GetCommitIndex n))..<Suc i] n)
          (\<lambda>n. Inr (set_commit_index (of_nat i) n))"
      using False small
      by (simp add: CommitIfPossible_def commit_search_value[OF ls] start nr i_def[symmetric]
          unat_of_nat_small del: upt_Suc)
    then show ?thesis
      using False unfolding respond bind_res_simps i_def[symmetric] Let_def by simp
  qed
qed

lemma promises_ok_respond_item:
  assumes "promises_ok n" and "map_ok (items_to_response n)" and "i < 2 ^ 64"
  shows "succeeds (\<lambda>n'. promises_ok n' \<and> map_ok (items_to_response n')) (respond_item i n)"
proof -
  let ?items = "filter (\<lambda>(k, p). unat k \<noteq> i) (items_to_response n)"
  have inj: "inj_on snd (set (items_to_response n))" "distinct (items_to_response n)"
    and pend: "\<forall>p\<in>snd ` set (items_to_response n). command_results n p = Pending"
    and disj: "snd ` set (incoming_commands n) \<inter> snd ` set (items_to_response n) = {}"
    and lt: "\<forall>p\<in>snd ` set (items_to_response n). p < next_promise n"
    using assms(1) by (simp_all add: promises_defs distinct_map)
  have sub: "answered {i} n \<subseteq> snd ` set (items_to_response n)" by (force simp: answered_def)
  have fresh: "p \<notin> answered {i} n" if "(k, p) \<in> set (items_to_response n)" "unat k \<noteq> i" for k p
    using that inj(1) unfolding answered_def inj_on_def by fastforce
  have "snd ` set ?items \<subseteq> snd ` set (items_to_response n)" by auto
  moreover have "distinct (map snd ?items)"
    using inj by (auto simp: distinct_map intro: inj_on_subset)
  moreover have "map_ok ?items"
    using assms(2) by (auto simp: map_ok_def map_keys_def sorted_wrt_map intro: sorted_wrt_filter)
  moreover have "\<forall>p\<ge>next_promise n. p \<notin> answered {i} n" using sub lt by (meson leD subsetD)
  moreover have "\<forall>p\<in>snd ` set (incoming_commands n). p \<notin> answered {i} n" using sub disj by blast
  ultimately show ?thesis
    unfolding respond_item_value[OF assms(3,2) pend]
    using assms(1) fresh pend lt disj by (auto simp: promises_defs)
qed

lemma promises_ok_CommitIfPossible:
  assumes "node_ok n" and "promises_ok n" and "role n = kLeader"
  shows "succeeds promises_ok (CommitIfPossible n)"
proof -
  have ls: "leader_state n \<noteq> None" using assms by (simp add: node_ok_def role_ok_def)
  have loop: "succeeds (\<lambda>n'. promises_ok n' \<and> map_ok (items_to_response n'))
      (fold_res respond_item [a..<Suc (unat (b :: u64))] n)" for a b
  proof (rule post_fold)
    show "promises_ok n \<and> map_ok (items_to_response n)"
      using assms by (simp add: node_ok_def)
  next
    fix i m assume "i \<in> set [a..<Suc (unat b)]"
      and "promises_ok m \<and> map_ok (items_to_response m)"
    moreover have "unat b < 2 ^ 64" using unsigned_less[of b] by simp
    ultimately show "succeeds (\<lambda>n'. promises_ok n' \<and> map_ok (items_to_response n')) (respond_item i m)"
      by (intro promises_ok_respond_item) auto
  qed
  have "promises_ok (set_commit_index i m)" if "promises_ok m" for i m
    by (rule promises_ok_calm[OF _ that]) (rule calm_setters)
  then show ?thesis
    using assms(2)
    by (auto simp: CommitIfPossible_def commit_search_value[OF ls] Let_def simp del: upt_Suc
        intro!: post_bindI[OF loop])
qed

section \<open>New commands\<close>

lemma map_insert_split:
  "map_ok m \<Longrightarrow> \<exists>xs ys. map_insert k v m = xs @ (k, v) # ys \<and>
     (m = xs @ ys \<and> map_find m k = None \<or>
      (\<exists>old. m = xs @ (k, old) # ys \<and> map_find m k = Some old))"
proof (induction k v m rule: map_insert.induct)
  case (1 k v)
  then show ?case by (intro exI[of _ "[]"]) simp
next
  case (2 k v k' v' m)
  consider "k < k'" | "k = k'" | "k' < k" by fastforce
  then show ?case
  proof cases
    case 1
    then have "map_find ((k', v') # m) k = None"
      using 2 by (auto simp: map_find_None_iff)
    then show ?thesis using 1 by (intro exI[of _ "[]"] exI[of _ "(k', v') # m"]) simp
  next
    case 2
    then show ?thesis by (intro exI[of _ "[]"] exI[of _ m]) (simp add: map_find_Cons)
  next
    case 3
    then have "\<not> k < k'" and "k \<noteq> k'" by auto
    then obtain xs ys where IH: "map_insert k v m = xs @ (k, v) # ys"
      "m = xs @ ys \<and> map_find m k = None \<or> (\<exists>old. m = xs @ (k, old) # ys \<and> map_find m k = Some old)"
      using 2 by auto
    then show ?thesis
      using 3 by (intro exI[of _ "(k', v') # xs"] exI[of _ ys]) (auto simp: map_find_Cons)
  qed
qed

lemma commands_ok_store_response:
  assumes "commands_ok ((c, p) # cs) n" and "map_ok (items_to_response n)"
  shows "commands_ok cs (store_response i p n)"
proof -
  obtain xs ys where split: "map_insert i p (items_to_response n) = xs @ (i, p) # ys"
    "items_to_response n = xs @ ys \<and> map_find (items_to_response n) i = None \<or>
     (\<exists>old. items_to_response n = xs @ (i, old) # ys \<and> map_find (items_to_response n) i = Some old)"
    using map_insert_split[OF assms(2), of i p] by blast
  from split(2) show ?thesis
  proof (elim disjE exE conjE)
    assume items: "items_to_response n = xs @ ys" and find: "map_find (items_to_response n) i = None"
    have "live_promises cs (store_response i p n) = map snd cs @ map snd (xs @ (i, p) # ys)"
      and "command_results (store_response i p n) = command_results n"
      and "next_promise (store_response i p n) = next_promise n"
      using split(1) find by (simp_all add: store_response_def live_promises_def)
    then show ?thesis
      using assms(1) items by (auto simp: commands_ok_def live_promises_def)
  next
    fix old
    assume items: "items_to_response n = xs @ (i, old) # ys"
      and find: "map_find (items_to_response n) i = Some old"
    have old: "command_results n old = Pending" "old < next_promise n"
      "old \<notin> set (p # map snd cs @ map snd xs @ map snd ys)"
      using assms(1) items by (simp_all add: commands_ok_def live_promises_def)
    have "live_promises cs (store_response i p n) = map snd cs @ map snd (xs @ (i, p) # ys)"
      and "command_results (store_response i p n) = (command_results n)(old := Broken)"
      and "next_promise (store_response i p n) = next_promise n"
      using split(1) find old(1)
      by (simp_all add: store_response_def live_promises_def drop_promise_def)
    then show ?thesis
      using assms(1) items old by (auto simp: commands_ok_def live_promises_def)
  qed
qed

lemma promises_ok_AddNewCommandsToLog:
  assumes "promises_ok n" and "map_ok (items_to_response n)"
  shows "post {LengthError} promises_ok (AddNewCommandsToLog n)"
proof -
  let ?P = "\<lambda>cs n'. commands_ok cs n' \<and> map_ok (items_to_response n') \<and>
     incoming_commands n' = [] \<and> queries_ok (get_persistent_commands_reqs n') n'"
  have step: "post {LengthError} (?P cs) (append_command c m)" if "?P (c # cs) m" for c cs m
  proof -
    obtain d p where c: "c = (d, p)" by (cases c)
    have "commands_ok cs (store_response i p (set_log l m))" for i l
      using that by (intro commands_ok_store_response[of d])
        (simp_all add: c commands_ok_def live_promises_def node_simps)
    then show ?thesis
      using that
      by (auto simp: append_command_def c push_back_def Let_def)
         (auto simp: store_response_def drop_promise_def node_simps queries_ok_def Let_def
           split: option.splits promise_state.splits)
  qed
  have "post {LengthError} (?P []) (fold_res append_command cs m)" if "?P cs m" for cs m
    using that
  proof (induction cs arbitrary: m)
    case Nil
    then show ?case by simp
  next
    case (Cons c cs)
    show ?case
      unfolding fold_res.simps by (rule post_bindI[OF step[OF Cons.prems]]) (rule Cons.IH)
  qed
  from this[of "incoming_commands n" "n\<lparr>incoming_commands := []\<rparr>"] show ?thesis
    unfolding AddNewCommandsToLog_def Let_def
    using assms by (auto simp: promises_defs elim!: post_weaken)
qed

end
