(* ===== verification/TickSafe.thy ===== *)
theory TickSafe
  imports Commit
begin

text \<open>
  A whole \<open>Tick\<close>: from a state that satisfies the type invariant, the promise discipline and the
  condition on senders (\<open>fine\<close>), a tick ends in such a state again, and the only faults left are a
  vector beyond \<open>max_size()\<close> and an index outside the log. The locale \<open>safe_machine\<close> carries such
  an invariant over whole runs of any machine; it is interpreted on the node and on the cluster.
\<close>

section \<open>Machines with an invariant\<close>

locale safe_machine =
  fixes step :: "'event \<Rightarrow> 'state \<Rightarrow> 'state result"
    and good :: "'state \<Rightarrow> bool"
    and legal :: "'event \<Rightarrow> bool"
    and faults :: "fault set"
  assumes step_good: "good s \<Longrightarrow> legal e \<Longrightarrow> post faults good (step e s)"
begin

lemma run_good: "good s \<Longrightarrow> \<forall>e\<in>set es. legal e \<Longrightarrow> post faults good (fold_res step es s)"
  by (rule post_fold) (auto intro: step_good)

lemma run_good_state:
  assumes "good s" and "\<forall>e\<in>set es. legal e" and "fold_res step es s = Inr s'"
  shows "good s'"
  using run_good[OF assms(1,2)] assms(3) by simp

lemma run_fault:
  assumes "good s" and "\<forall>e\<in>set es. legal e" and "fold_res step es s = Inl f"
  shows "f \<in> faults"
  using run_good[OF assms(1,2)] assms(3) by simp

lemma run_prefix_good:
  assumes "good s" and "\<forall>e\<in>set (es @ es'). legal e" and "fold_res step (es @ es') s = Inr s'"
  shows "\<exists>t. fold_res step es s = Inr t \<and> good t \<and> fold_res step es' t = Inr s'"
  using assms run_good[OF assms(1), of es]
  by (cases "fold_res step es s") (auto simp: fold_res_append)

end

section \<open>The node\<close>

definition steady :: "NodeId \<times> (NodeId, IMessageSender) std_map \<times> u64 \<Rightarrow> Node \<Rightarrow> bool" where
  "steady I n \<longleftrightarrow> promises_ok n \<and> senders_known n \<and> ident n = I"

definition fine :: "NodeId \<times> (NodeId, IMessageSender) std_map \<times> u64 \<Rightarrow> Node \<Rightarrow> bool" where
  "fine I n \<longleftrightarrow> node_ok n \<and> steady I n"

lemma steady_calm: "calm n n' \<Longrightarrow> steady I n \<Longrightarrow> steady I n'"
  by (auto simp: steady_def promises_ok_calm) (simp_all add: calm_def)

lemma post_steady_calm: "post E (calm n) m \<Longrightarrow> steady I n \<Longrightarrow> post E (steady I) m"
  by (cases m) (auto intro: steady_calm)

text \<open>Methods that change the client's part only.\<close>

definition same_queues :: "Node \<Rightarrow> Node \<Rightarrow> bool" where
  "same_queues n n' \<longleftrightarrow> ident n' = ident n \<and> role n' = role n \<and>
     incoming_append_entries_requests n' = incoming_append_entries_requests n \<and>
     incoming_request_vote_requests n' = incoming_request_vote_requests n"

lemma same_queues_refl [simp]: "same_queues n n"
  by (simp add: same_queues_def)

lemma same_queues_trans: "same_queues a b \<Longrightarrow> same_queues b c \<Longrightarrow> same_queues a c"
  by (simp add: same_queues_def)

lemma same_queues_senders: "same_queues n n' \<Longrightarrow> senders_known n \<Longrightarrow> senders_known n'"
  by (simp add: same_queues_def senders_known_def ident_def)

lemma same_queues_fold:
  assumes "\<And>x n. on_ok (same_queues n) (f x n)"
  shows "on_ok (same_queues n) (fold_res f xs n)"
  by (rule post_fold) (auto intro: post_weaken[OF assms] same_queues_trans)

lemma same_queues_set_command_value: "on_ok (same_queues n) (set_command_value p v n)"
  by (auto simp: set_command_value_def post_bind same_queues_def ident_def intro!: on_okI)

lemma same_queues_redirect: "on_ok (same_queues n) (redirect_commands l n)"
proof -
  have "on_ok (same_queues m) (fold_res (\<lambda>(_, p). set_command_value p v) cs m)" for cs v m
    by (rule same_queues_fold) (auto intro: same_queues_set_command_value)
  then show ?thesis
    unfolding redirect_commands_def Let_def
    by (rule post_weaken) (simp add: same_queues_def ident_def)
qed

lemma same_queues_queries: "on_ok (same_queues n) (HandleGetPersistentCommandRequests n)"
proof -
  have "on_ok (same_queues m) (answer_query q m)" for q m
    by (auto simp: answer_query_def post_bind set_query_value_def same_queues_def ident_def
        split: prod.splits intro!: on_okI simp del: upt_Suc)
  then have "on_ok (same_queues m) (fold_res answer_query qs m)" for qs m
    by (rule same_queues_fold)
  then show ?thesis
    unfolding HandleGetPersistentCommandRequests_def Let_def
    by (rule post_weaken) (simp add: same_queues_def ident_def)
qed

lemma same_queues_commit: "on_ok (same_queues n) (CommitIfPossible n)"
proof -
  have item: "on_ok (same_queues m) (respond_item i m)" for i m
  proof -
    have "same_queues m (m'\<lparr>items_to_response := x\<rparr>) = same_queues m m'" for m' x
      by (simp add: same_queues_def ident_def)
    then show ?thesis
      using same_queues_set_command_value[of m]
      by (auto simp: respond_item_def post_bind split: option.splits)
  qed
  have loop: "on_ok (same_queues m) (fold_res respond_item xs m)" for xs m
    by (rule same_queues_fold) (rule item)
  show ?thesis
    unfolding CommitIfPossible_def Let_def
    by (auto simp: post_bind split: option.splits intro!: on_okI simp del: upt_Suc
        dest!: postD[OF loop]) (auto simp: same_queues_def ident_def node_simps)
qed

lemma same_queues_new_commands: "on_ok (same_queues n) (AddNewCommandsToLog n)"
proof -
  have "on_ok (same_queues m) (append_command c m)" for c m
    by (auto simp: append_command_def post_bind push_back_def Let_def store_response_def
        drop_promise_def same_queues_def ident_def node_simps
        split: prod.splits option.splits promise_state.splits)
  then have "on_ok (same_queues m) (fold_res append_command cs m)" for cs m
    by (rule same_queues_fold)
  then show ?thesis
    unfolding AddNewCommandsToLog_def Let_def
    by (rule post_weaken) (simp add: same_queues_def ident_def)
qed

lemma post_steady:
  assumes "post E promises_ok m" and "on_ok (same_queues n) m" and "steady I n"
  shows "post E (\<lambda>n'. steady I n' \<and> role n' = role n) m"
  using assms by (cases m) (auto simp: steady_def same_queues_senders same_queues_def senders_known_def
      ident_def)

section \<open>Handlers\<close>

lemma steady_HandleAppendEntriesRequest:
  assumes "steady I n"
  shows "post (UNIV - {PromiseSatisfied}) (\<lambda>(r, n'). steady I n' \<and> my_id n' = my_id n)
    (HandleAppendEntriesRequest req n)"
proof -
  let ?E = "UNIV - {PromiseSatisfied}"
  define n1 where "n1 = ResetElectionTimer (if GetCurrentTerm n < ae_leader_term req
      then BecomeFollower (set_current_term (ae_leader_term req) n) else n)"
  have "calm n (if GetCurrentTerm n < ae_leader_term req
      then BecomeFollower (set_current_term (ae_leader_term req) n) else n)"
    by (simp, meson calm_setters calm_trans)
  then have c1: "calm n n1" unfolding n1_def by (meson calm_setters calm_trans)
  then have n1: "steady I n1 \<and> my_id n1 = my_id n"
    using assms by (auto intro: steady_calm) (simp add: calm_def ident_def)
  define n2 where "n2 = (if GetRole n1 \<noteq> kLeader then redirect_commands (ae_leader_id req) n1
      else Inr n1)"
  have n2: "post ?E (\<lambda>n'. steady I n' \<and> my_id n' = my_id n) n2"
  proof -
    have p: "succeeds promises_ok (redirect_commands l n1)" for l
      using n1 by (intro promises_ok_redirect_commands) (simp add: steady_def)
    have "post ?E (\<lambda>n'. steady I n' \<and> my_id n' = my_id n) (redirect_commands l n1)" for l
      using n1 p[of l] same_queues_redirect[of n1 l]
      by (cases "redirect_commands l n1")
        (auto simp: steady_def same_queues_def ident_def senders_known_def)
    then show ?thesis using n1 by (simp add: n2_def)
  qed
  have log: "steady I (set_log l m)" and commit: "steady I (set_commit_index i m)" if "steady I m" for m l i
    by (rule steady_calm[OF _ that], rule calm_setters)+
  have fin: "steady I (if c then set_commit_index i (set_log l m) else set_log l m) \<and>
      my_id (if c then set_commit_index i (set_log l m) else set_log l m) = my_id m"
    if "steady I m" for m l c i
    using log[OF that] commit[OF log[OF that]] by (cases c) (simp_all add: node_simps)
  have app: "post ?E (\<lambda>_. True) (append_entries prev pos es log)" for prev pos es log
    by (induction prev pos es log rule: append_entries.induct)
       (auto simp: read_at_def push_back_def)
  show ?thesis
    unfolding HandleAppendEntriesRequest_def Let_def n1_def[symmetric] n2_def[symmetric]
    using n1 fin by (auto simp: read_at_def intro!: post_bindI[OF n2] post_bindI[OF app])
qed

lemma steady_handle_ae_req:
  assumes "steady I n"
  shows "post (UNIV - {PromiseSatisfied}) (steady I) (handle_ae_req m n)"
proof -
  have "steady I (channel_send c (my_id n) x n')" if "steady I n'" "my_id n' = my_id n" for n' c x
    using steady_calm[OF calm_channel_send that(1)] that(2) by metis
  then show ?thesis
    unfolding handle_ae_req_def
    by (cases m) (auto simp: map_at_def split: option.splits
        intro!: post_bindI[OF steady_HandleAppendEntriesRequest[OF assms]])
qed

lemma steady_handle_rv_req:
  assumes "steady I n"
  shows "post (UNIV - {PromiseSatisfied}) (steady I) (handle_rv_req m n)"
proof -
  have "post (UNIV - {PromiseSatisfied}) (\<lambda>(r, n'). calm n n') (HandleRequestVoteRequest req n)" for req
  proof (cases "HandleRequestVoteRequest req n")
    case (Inl e)
    then show ?thesis
      by (auto simp: HandleRequestVoteRequest_def GetLastLogTerm_def Let_def split: if_splits)
  next
    case (Inr x)
    then show ?thesis using calm_HandleRequestVoteRequest[of n req] by simp
  qed
  moreover have "steady I (channel_send c (my_id n') x n')" if "calm n n'" for n' c x
    using that assms by (meson calm_channel_send calm_trans steady_calm)
  ultimately show ?thesis
    unfolding handle_rv_req_def
    by (cases m) (auto simp: map_at_def split: option.splits intro!: post_bindI)
qed

lemma fine_HandleIncomingMessages:
  assumes "fine I n"
  shows "post {LengthError} (fine I) (HandleIncomingMessages n)"
proof -
  let ?E = "UNIV - {PromiseSatisfied}"
  let ?n = "n\<lparr>incoming_append_entries_requests := [], incoming_request_vote_requests := [],
     incoming_append_entries_responses := [], incoming_request_vote_responses := []\<rparr>"
  have n: "node_ok n" "steady I n" using assms by (simp_all add: fine_def)
  have start: "steady I ?n"
    using n(2) by (simp add: steady_def promises_defs senders_known_def ident_def)
  have 1: "post ?E (steady I) (fold_res handle_ae_req xs m)" if "steady I m" for xs m
    by (rule post_fold) (use that in \<open>auto intro: steady_handle_ae_req\<close>)
  have 2: "post ?E (steady I) (fold_res handle_rv_req xs m)" if "steady I m" for xs m
    by (rule post_fold) (use that in \<open>auto intro: steady_handle_rv_req\<close>)
  have "HandleAppendEntriesResponse r s m \<noteq> Inl PromiseSatisfied" for r s m
    by (auto simp: HandleAppendEntriesResponse_def Let_def split: option.splits)
  then have c3: "post ?E (calm m) (HandleAppendEntriesResponse r s m)" for r s m
    using calm_HandleAppendEntriesResponse[of m r s]
    by (cases "HandleAppendEntriesResponse r s m") auto
  have 3: "post ?E (steady I) (fold_res (\<lambda>(s, r). HandleAppendEntriesResponse r s) xs m)"
    if "steady I m" for xs m
    by (rule post_fold[where P = "steady I", OF that]) (auto intro: post_steady_calm[OF c3])
  have "SendAppendEntriesToSomeone k h m \<noteq> Inl PromiseSatisfied" for k h m
    by (auto simp: SendAppendEntriesToSomeone_def map_at_def read_next_index_def read_at_def
        bind_res_def Let_def split: option.splits sum.splits if_splits
          prod.splits dest!: read_range_fault)
  then have "fold_res (\<lambda>(k, c). SendAppendEntriesToSomeone k h) xs m \<noteq> Inl PromiseSatisfied" for h xs m
    by (induction xs arbitrary: m) (auto simp: bind_res_def split: sum.splits)
  then have "HandleRequestVoteResponse r s m \<noteq> Inl PromiseSatisfied" for r s m
    by (auto simp: HandleRequestVoteResponse_def BecomeLeader_def SendAppendEntriesToAll_def Let_def
        split: option.splits if_splits)
  then have c4: "post ?E (calm m) (HandleRequestVoteResponse r s m)" for r s m
    using calm_HandleRequestVoteResponse[of m r s]
    by (cases "HandleRequestVoteResponse r s m") auto
  have 4: "post ?E (steady I) (fold_res (\<lambda>(s, r). HandleRequestVoteResponse r s) xs m)"
    if "steady I m" for xs m
    by (rule post_fold[where P = "steady I", OF that]) (auto intro: post_steady_calm[OF c4])
  have "post ?E (steady I) (HandleIncomingMessages n)"
    unfolding HandleIncomingMessages_def Let_def
    by (rule post_bindI[OF 1[OF start]], rule post_bindI[OF 2], assumption,
        rule post_bindI[OF 3], assumption, rule 4)
  moreover have "post {LengthError, PromiseSatisfied} node_ok (HandleIncomingMessages n)"
    using n by (intro HandleIncomingMessages_ok) (auto simp: steady_def)
  ultimately show ?thesis
    by (cases "HandleIncomingMessages n") (auto simp: fine_def)
qed

section \<open>Ticks\<close>

lemma fine_queries:
  assumes "fine I n"
  shows "post {BadIndex} (\<lambda>n'. fine I n' \<and> role n' = role n) (HandleGetPersistentCommandRequests n)"
proof -
  have n: "node_ok n" "steady I n" "promises_ok n" using assms by (simp_all add: fine_def steady_def)
  have "post {BadIndex, PromiseSatisfied} node_ok (HandleGetPersistentCommandRequests n)"
    by (rule HandleGetPersistentCommandRequests_ok[OF n(1)])
  moreover have "post {BadIndex} (\<lambda>n'. steady I n' \<and> role n' = role n)
      (HandleGetPersistentCommandRequests n)"
    by (rule post_steady[OF promises_ok_HandleGetPersistentCommandRequests[OF n(3)]
          same_queues_queries n(2)])
  ultimately show ?thesis by (cases "HandleGetPersistentCommandRequests n") (auto simp: fine_def)
qed

lemma fine_commit:
  assumes "fine I n" and "role n = kLeader"
  shows "succeeds (\<lambda>n'. fine I n' \<and> role n' = kLeader) (CommitIfPossible n)"
proof -
  have n: "node_ok n" "steady I n" "promises_ok n" using assms by (simp_all add: fine_def steady_def)
  have "post {} (\<lambda>n'. steady I n' \<and> role n' = role n) (CommitIfPossible n)"
    by (rule post_steady[OF promises_ok_CommitIfPossible[OF n(1,3) assms(2)]
          same_queues_commit n(2)])
  moreover have "post {PromiseSatisfied} node_ok (CommitIfPossible n)"
    by (rule CommitIfPossible_ok[OF n(1) assms(2)])
  ultimately show ?thesis using assms(2) by (cases "CommitIfPossible n") (auto simp: fine_def)
qed

lemma fine_new_commands:
  assumes "fine I n"
  shows "post {LengthError} (fine I) (AddNewCommandsToLog n)"
proof -
  have n: "node_ok n" "steady I n" "promises_ok n" "map_ok (items_to_response n)"
    using assms by (simp_all add: fine_def steady_def node_ok_def)
  have "post {LengthError} (\<lambda>n'. steady I n' \<and> role n' = role n) (AddNewCommandsToLog n)"
    by (rule post_steady[OF promises_ok_AddNewCommandsToLog[OF n(3,4)]
          same_queues_new_commands n(2)])
  moreover have "post {LengthError} node_ok (AddNewCommandsToLog n)"
    by (rule AddNewCommandsToLog_ok[OF n(1)])
  ultimately show ?thesis by (cases "AddNewCommandsToLog n") (auto simp: fine_def)
qed

lemma fine_send_all:
  assumes "fine I n"
  shows "post {BadIndex} (fine I) (SendAppendEntriesToAll hb n)"
proof -
  have "post {BadIndex} node_ok (SendAppendEntriesToAll hb n)"
    using assms by (intro node_ok_SendAppendEntriesToAll) (simp add: fine_def)
  moreover have "on_ok (steady I) (SendAppendEntriesToAll hb n)"
    using assms by (intro post_steady_calm[OF calm_SendAppendEntriesToAll]) (simp add: fine_def)
  ultimately show ?thesis by (cases "SendAppendEntriesToAll hb n") (auto simp: fine_def)
qed

lemma fine_BecomeCandidate:
  assumes "fine I n"
  shows "succeeds (fine I) (BecomeCandidate n)"
proof -
  have "succeeds node_ok (BecomeCandidate n)"
    using assms by (intro node_ok_BecomeCandidate) (simp add: fine_def)
  moreover have "on_ok (steady I) (BecomeCandidate n)"
    using assms by (intro post_steady_calm[OF calm_BecomeCandidate]) (simp add: fine_def)
  ultimately show ?thesis by (cases "BecomeCandidate n") (auto simp: fine_def)
qed

lemma fine_TickFollower:
  assumes "fine I n"
  shows "post {LengthError} (fine I) (TickFollower n)"
  unfolding TickFollower_def
proof (rule post_bindI[OF fine_HandleIncomingMessages[OF assms]])
  fix m assume m: "fine I m"
  obtain e m' where d: "DidElectionTimeoutExpire m = (e, m')" by fastforce
  have "fine I m'"
    using m node_ok_DidExpire[of m] steady_calm[of m m'] calm_setters(7)[of m]
    by (simp add: fine_def d)
  then show "post {LengthError} (fine I)
      (let (expired, n) = DidElectionTimeoutExpire m in if expired then BecomeCandidate n else Inr n)"
    by (simp add: d post_mono[OF fine_BecomeCandidate])
qed

lemma fine_TickLeader:
  assumes "fine I n" and "role n = kLeader"
  shows "post {LengthError, BadIndex} (fine I) (TickLeader n)"
proof -
  have send: "post {LengthError, BadIndex} (fine I) (bind_res (SendAppendEntriesToAll True m)
      AddNewCommandsToLog)" if "fine I m" for m
    by (rule post_bindI[OF post_mono[OF fine_send_all[OF that]]])
       (auto intro: post_mono[OF fine_new_commands])
  have rest: "post {LengthError, BadIndex} (fine I)
      (bind_res (HandleIncomingMessages m) (\<lambda>n. if GetRole n = kLeader
        then bind_res (SendAppendEntriesToAll True n) AddNewCommandsToLog else Inr n))"
    if "fine I m" for m
    by (rule post_bindI[OF post_mono[OF fine_HandleIncomingMessages[OF that]]])
       (auto intro: send)
  show ?thesis
    unfolding TickLeader_def
    by (rule post_bindI[OF post_mono[OF fine_commit[OF assms]]]) (auto intro: rest)
qed

lemma fine_tick_once:
  assumes "fine I n"
  shows "post {LengthError, BadIndex} (fine I) (tick_once n)"
proof -
  let ?n = "n\<lparr>tick_number := tick_number n + 1\<rparr>"
  have "calm n ?n" by (simp add: calm_defs)
  moreover have "node_ok ?n" using assms by (simp add: fine_def ok_defs node_simps)
  ultimately have "fine I ?n" using assms by (auto simp: fine_def intro: steady_calm)
  then have queries: "post {LengthError, BadIndex} (\<lambda>n'. fine I n' \<and> role n' = role ?n)
      (HandleGetPersistentCommandRequests ?n)"
    by (intro post_mono[OF fine_queries]) auto
  have rest: "post {LengthError, BadIndex} (fine I)
      (case role m of kFollower \<Rightarrow> TickFollower m | kCandidate \<Rightarrow> TickCandidate m
        | kLeader \<Rightarrow> TickLeader m)" if "fine I m" for m
    using that
    by (cases "role m") (auto simp: TickCandidate_def intro: fine_TickLeader
        post_mono[OF fine_TickFollower])
  show ?thesis
    unfolding tick_once_def Let_def by (rule post_bindI[OF queries]) (rule rest, simp)
qed

lemma fine_tick_times: "fine I n \<Longrightarrow> post {LengthError, BadIndex} (fine I) (tick_times k n)"
proof (induction k arbitrary: n)
  case 0
  then show ?case by simp
next
  case (Suc k)
  then show ?case by (auto intro: post_bindI[OF fine_tick_once])
qed

lemma fine_make_Node:
  "map_ok chan \<Longrightarrow> fine (ident (make_Node i chan t)) (make_Node i chan t)"
  by (simp add: fine_def steady_def node_ok_make_Node promises_ok_make_Node senders_known_def)
     (simp add: make_Node_def Let_def map_keys_insert)

section \<open>Runs of one node\<close>

text \<open>What the threads of a process do with a node: the ticking thread, the receivers, the clients.\<close>

datatype NodeEvent =
    NTick u64
  | NMessage NodeId Message
  | NCommand Command
  | NQuery LogItemId u64

fun node_step :: "NodeEvent \<Rightarrow> Node \<Rightarrow> Node result" where
  "node_step (NTick k) n = Tick k n"
| "node_step (NMessage s m) n = Inr (AddMessage s m n)"
| "node_step (NCommand c) n = Inr (snd (AddCommand c n))"
| "node_step (NQuery i k) n = Inr (snd (GetPersistentCommands i k n))"

text \<open>The messages the program's own nodes send: well formed, from a member of the cluster.\<close>

fun legal_event :: "NodeId list \<Rightarrow> NodeEvent \<Rightarrow> bool" where
  "legal_event members (NMessage s m) \<longleftrightarrow> msg_ok m \<and> s \<in> set members"
| "legal_event members _ \<longleftrightarrow> True"

lemma fine_node_step:
  assumes "fine I n" and "legal_event (map_keys (fst (snd I))) e"
  shows "post {LengthError, BadIndex} (fine I) (node_step e n)"
proof (cases e)
  case (NTick k)
  then show ?thesis using fine_tick_times[OF assms(1)] by (simp add: Tick_def)
next
  case (NMessage s m)
  have "ident (AddMessage s m n) = ident n"
    by (simp add: ident_def AddMessage_def split: Message.splits)
  moreover have "senders_known (AddMessage s m n)"
    using assms NMessage
    by (auto simp: fine_def steady_def senders_known_def ident_def AddMessage_def
        split: Message.splits)
  ultimately show ?thesis
    using assms NMessage
    by (simp add: fine_def steady_def node_ok_AddMessage promises_ok_AddMessage)
next
  case (NCommand c)
  have "senders_known (snd (AddCommand c n)) = senders_known n"
    and "ident (snd (AddCommand c n)) = ident n"
    by (simp_all add: AddCommand_def Let_def senders_known_def ident_def)
  then show ?thesis
    using assms NCommand by (simp add: fine_def steady_def keeps promises_ok_AddCommand)
next
  case (NQuery i k)
  have "senders_known (snd (GetPersistentCommands i k n)) = senders_known n"
    and "ident (snd (GetPersistentCommands i k n)) = ident n"
    by (simp_all add: GetPersistentCommands_def Let_def senders_known_def ident_def)
  then show ?thesis
    using assms NQuery by (simp add: fine_def steady_def keeps promises_ok_GetPersistentCommands)
qed

interpretation node_machine: safe_machine node_step "fine I"
    "legal_event (map_keys (fst (snd I)))" "{LengthError, BadIndex}" for I
  by unfold_locales (rule fine_node_step)

end
