(* ===== verification/Sending.thy ===== *)
theory Sending
  imports TickSafe
begin

text \<open>
  What a node sends and how it takes in new commands, as values. \<open>send_round\<close> is the reference for
  \<open>SendAppendEntriesToAll\<close>: one request per channel in key order, cut from the log at the channel's
  \<open>next_index\<close>. \<open>posted\<close> is a node after a list of messages went through its channels.
\<close>

section \<open>Sending a list of messages\<close>

definition post_one :: "IMessageSender \<times> Message \<Rightarrow> Node \<Rightarrow> Node" where
  "post_one cm n = channel_send (fst cm) (my_id n) (snd cm) n"

definition posted :: "(IMessageSender \<times> Message) list \<Rightarrow> Node \<Rightarrow> Node" where
  "posted cms n = fold post_one cms n"

lemma posted_Nil [simp]: "posted [] n = n"
  by (simp add: posted_def)

lemma posted_Cons [simp]: "posted (cm # cms) n = posted cms (post_one cm n)"
  by (simp add: posted_def)

lemma posted_append: "posted (xs @ ys) n = posted ys (posted xs n)"
  by (simp add: posted_def)

lemma post_one_acc [simp]:
  "my_id (post_one x n) = my_id n" "channels (post_one x n) = channels n"
  "role (post_one x n) = role n" "leader_state (post_one x n) = leader_state n"
  "candidate_state (post_one x n) = candidate_state n" "node_state (post_one x n) = node_state n"
  "total_nodes (post_one x n) = total_nodes n" "election_timeout (post_one x n) = election_timeout n"
  "items_to_response (post_one x n) = items_to_response n"
  "incoming_commands (post_one x n) = incoming_commands n"
  by (simp_all add: post_one_def)

lemma posted_acc [simp]:
  "my_id (posted xs n) = my_id n" "channels (posted xs n) = channels n"
  "role (posted xs n) = role n" "leader_state (posted xs n) = leader_state n"
  "candidate_state (posted xs n) = candidate_state n" "node_state (posted xs n) = node_state n"
  "total_nodes (posted xs n) = total_nodes n" "election_timeout (posted xs n) = election_timeout n"
  "items_to_response (posted xs n) = items_to_response n"
  "incoming_commands (posted xs n) = incoming_commands n"
  by (induction xs arbitrary: n) simp_all

lemma sent_posted: "sent (posted xs n) = sent n @ map (\<lambda>(c, m). (c, my_id n, m)) xs"
  by (induction xs arbitrary: n) (simp_all add: post_one_def split_beta)

lemma posted_GetAcc [simp]:
  "GetLog (posted xs n) = GetLog n" "GetCurrentTerm (posted xs n) = GetCurrentTerm n"
  "GetCommitIndex (posted xs n) = GetCommitIndex n" "GetVotedFor (posted xs n) = GetVotedFor n"
  "GetLastLogIndex (posted xs n) = GetLastLogIndex n" "GetRole (posted xs n) = role n"
  by (simp_all add: node_simps GetLastLogIndex_def)

section \<open>A round of \<open>AppendEntries\<close>\<close>

definition append_request_for :: "Node \<Rightarrow> LogItemId \<Rightarrow> AppendEntriesRequest" where
  "append_request_for n next =
     \<lparr>ae_leader_term = GetCurrentTerm n, ae_leader_id = my_id n, prev_log_index = next - 1,
      prev_log_term = leader_term (GetLog n ! unat (next - 1)),
      entries = drop (unat next) (GetLog n), leader_commit = GetCommitIndex n\<rparr>"

definition next_for :: "Node \<Rightarrow> NodeId \<Rightarrow> LogItemId" where
  "next_for n k = (case leader_state n of None \<Rightarrow> 0
     | Some ls \<Rightarrow> (case map_find (next_index ls) k of None \<Rightarrow> 0 | Some v \<Rightarrow> v))"

definition send_round :: "Node \<Rightarrow> (NodeId, IMessageSender) std_map \<Rightarrow> (IMessageSender \<times> Message) list" where
  "send_round n chs = map (\<lambda>(k, c). (c, AEReq (append_request_for n (next_for n k)))) chs"

lemma SendAppendEntriesToSomeone_value:
  assumes ok: "node_ok n" and idx: "indices_ok n" and lead: "role n = kLeader"
    and ch: "map_find (channels n) k = Some c"
  shows "SendAppendEntriesToSomeone k True n =
    Inr (post_one (c, AEReq (append_request_for n (next_for n k))) n)"
proof -
  obtain ls where ls: "leader_state n = Some ls"
    using lead ok by (auto simp: node_ok_def role_ok_def)
  have "k \<in> set (map_keys (channels n))" using ch by (rule map_find_Some_keys)
  then obtain v where v: "map_find (next_index ls) k = Some v" "1 \<le> unat v" "unat v \<le> length (GetLog n)"
    using idx ls by (auto simp: indices_ok_def)
  have lok: "log_ok (GetLog n)" using ok by (simp add: node_ok_def)
  have range: "read_range (GetLog n) [unat v..<Suc (unat (GetLastLogIndex n))] =
      Inr (drop (unat v) (GetLog n))"
    using lok by (subst read_range_upt) (auto simp: GetLastLogIndex_nat log_ok_def)
  have "unat (v - 1) < length (GetLog n)"
    using v lok by (subst unat_minus1) (auto simp: log_ok_def unat_gt_0)
  moreover have "read_next_index k n = Inr (v, n)"
    by (simp add: read_next_index_def ls map_subscript_def v)
  ultimately show ?thesis
    using lead by (simp add: SendAppendEntriesToSomeone_def GetRole_def map_at_def ch
        ls v range read_at_def next_for_def
        append_request_for_def post_one_def Let_def del: upt_Suc)
qed

lemma request_post_one [simp]:
  "append_request_for (post_one x n) k = append_request_for n k"
  "next_for (post_one x n) k = next_for n k"
  by (simp_all add: append_request_for_def node_simps next_for_def)

lemma SendAppendEntriesToAll_value:
  assumes "node_ok n" and "indices_ok n" and "role n = kLeader"
  shows "SendAppendEntriesToAll True n = Inr (posted (send_round n (channels n)) n)"
proof -
  have "fold_res (\<lambda>(k, c). SendAppendEntriesToSomeone k True) chs m =
      Inr (posted (send_round m chs) m)"
    if "set chs \<subseteq> set (channels m)" "node_ok m" "indices_ok m" "role m = kLeader" for chs m
    using that
  proof (induction chs arbitrary: m)
    case Nil
    then show ?case by (simp add: send_round_def)
  next
    case (Cons kc chs)
    obtain k c where kc: "kc = (k, c)" by (cases kc)
    let ?m = "post_one (c, AEReq (append_request_for m (next_for m k))) m"
    have "map_find (channels m) k = Some c"
      using Cons.prems kc by (simp add: map_find_Some_iff node_ok_def channels_ok_def)
    note step = SendAppendEntriesToSomeone_value[OF Cons.prems(2-4) this]
    have "k \<in> set (map_keys (channels m))"
      using \<open>map_find (channels m) k = Some c\<close> by (rule map_find_Some_keys)
    then have "node_ok ?m \<and> indices_ok ?m"
      using SendAppendEntriesToSomeone_in_range[OF Cons.prems(2,3), of k True] step by simp
    then show ?case
      using Cons.IH[of ?m] Cons.prems kc step by (simp add: send_round_def)
  qed
  then show ?thesis using assms by (simp add: SendAppendEntriesToAll_def)
qed

section \<open>Elections\<close>

definition vote_request_for :: "Node \<Rightarrow> RequestVoteRequest" where
  "vote_request_for n = \<lparr>candidate_term = GetCurrentTerm n, candidate_id = my_id n,
     candidate_last_log_index = GetLastLogIndex n,
     candidate_last_log_term = leader_term (last (GetLog n))\<rparr>"

lemma fold_post:
  "fold (\<lambda>(k, c) n. channel_send c (my_id n) (RVReq r) n) chs n =
    posted (map (\<lambda>(k, c). (c, RVReq r)) chs) n"
  by (induction chs arbitrary: n) (auto simp: post_one_def)

definition campaigning :: "Node \<Rightarrow> Node" where
  "campaigning n = ResetElectionTimer
     (set_voted_for (Some (my_id n)) (set_current_term (GetCurrentTerm n + 1) n))"

lemma campaigning_acc [simp]:
  "GetLog (campaigning n) = GetLog n" "channels (campaigning n) = channels n"
  "my_id (campaigning n) = my_id n" "GetCurrentTerm (campaigning n) = GetCurrentTerm n + 1"
  "GetVotedFor (campaigning n) = Some (my_id n)" "GetCommitIndex (campaigning n) = GetCommitIndex n"
  "sent (campaigning n) = sent n"
  by (simp_all add: campaigning_def ResetElectionTimer_def node_simps)

lemma BecomeCandidate_value:
  assumes "log_ok (GetLog n)"
  shows "BecomeCandidate n =
    Inr ((posted (map (\<lambda>(k, c). (c, RVReq (vote_request_for (campaigning n)))) (channels n))
      (campaigning n))\<lparr>role := kCandidate, candidate_state := Some \<lparr>votes = []\<rparr>,
        leader_state := None\<rparr>)"
proof -
  have last: "GetLastLogTerm (campaigning n) = Inr (leader_term (last (GetLog n)))"
    using assms by (simp add: GetLastLogTerm_ok)
  have start: "ResetElectionTimer (set_voted_for
      (Some (my_id (set_current_term (GetCurrentTerm n + 1) n)))
      (set_current_term (GetCurrentTerm n + 1) n)) = campaigning n"
    by (simp add: campaigning_def set_current_term_def)
  show ?thesis
    unfolding BecomeCandidate_def Let_def start
    by (simp add: SendRequestVoteToAll_def last fold_post vote_request_for_def Let_def)
qed

text \<open>The node after the assignments of \<open>BecomeLeader\<close>, before it sends.\<close>

definition leading :: "Node \<Rightarrow> Node" where
  "leading n = (set_voted_for None n)
     \<lparr>candidate_state := None,
      leader_state := Some
        \<lparr>next_index = fold (\<lambda>i. map_insert i (GetLastLogIndex n + 1)) (map_keys (channels n)) [],
         match_index = fold (\<lambda>i. map_insert i 0) (map_keys (channels n)) []\<rparr>,
      role := kLeader\<rparr>"

lemma leading_acc [simp]:
  "GetLog (leading n) = GetLog n" "channels (leading n) = channels n" "my_id (leading n) = my_id n"
  "GetCurrentTerm (leading n) = GetCurrentTerm n" "GetCommitIndex (leading n) = GetCommitIndex n"
  "GetVotedFor (leading n) = None" "role (leading n) = kLeader" "candidate_state (leading n) = None"
  "sent (leading n) = sent n" "total_nodes (leading n) = total_nodes n"
  by (simp_all add: leading_def node_simps)

lemma leading_index:
  assumes "leader_state (leading n) = Some ls" and "k \<in> set (map_keys (channels n))"
  shows "map_find (next_index ls) k = Some (GetLastLogIndex n + 1)"
    and "map_find (match_index ls) k = Some 0"
  using assms smap.find_set_all[of "[]" "\<lambda>_. GetLastLogIndex n + 1" "map_keys (channels n)" k]
    smap.find_set_all[of "[]" "\<lambda>_. 0 :: u64" "map_keys (channels n)" k]
  by (auto simp: leading_def)

lemma leading_leader_state: "\<exists>ls. leader_state (leading n) = Some ls"
  by (simp add: leading_def)

text \<open>The first request a new leader sends: no entries, its last entry as the previous one.\<close>

definition heartbeat_of :: "Node \<Rightarrow> AppendEntriesRequest" where
  "heartbeat_of n = \<lparr>ae_leader_term = GetCurrentTerm n, ae_leader_id = my_id n,
     prev_log_index = GetLastLogIndex n, prev_log_term = leader_term (last (GetLog n)),
     entries = [], leader_commit = GetCommitIndex n\<rparr>"

lemma leading_in_range:
  assumes "node_ok n"
  shows "node_ok (leading n)" and "indices_ok (leading n)"
proof -
  let ?all = "\<lambda>v::u64. fold (\<lambda>i. map_insert i v) (map_keys (channels n)) []"
  have find: "map_find (?all v) k = (if k \<in> set (map_keys (channels n)) then Some v else None)"
    for v k using smap.find_set_all[of "[]" "\<lambda>_. v" "map_keys (channels n)" k] by simp
  have "map_ok (?all v)" for v
    using smap.ok_set_all[of "[]" "\<lambda>_. v"] by simp
  moreover have "set (map_keys (channels n)) \<subseteq> set (map_keys (?all v))" for v
    using find[of v] by (metis map_find_Some_keys subsetI)
  ultimately show "node_ok (leading n)"
    using assms by (simp add: leading_def ok_defs node_simps)
  have lok: "log_ok (GetLog n)" using assms by (simp add: node_ok_def)
  then have "unat (GetLastLogIndex n + 1) = length (GetLog n)"
    by (subst unat_plus_small) (auto simp: GetLastLogIndex_nat log_ok_def max_log_size_def)
  then show "indices_ok (leading n)"
    using lok leading_index by (fastforce simp: indices_ok_def log_ok_def Suc_le_eq)
qed

lemma BecomeLeader_value:
  assumes "node_ok n"
  shows "BecomeLeader n =
    Inr (posted (map (\<lambda>(k, c). (c, AEReq (heartbeat_of n))) (channels n)) (leading n))"
proof -
  have lok: "log_ok (GetLog n)" using assms by (simp add: node_ok_def)
  have last: "unat (GetLastLogIndex n) = length (GetLog n) - 1" "GetLog n \<noteq> []"
    using lok by (simp_all add: GetLastLogIndex_nat log_ok_def)
  have nl: "unat (GetLastLogIndex n + 1) = length (GetLog n)"
    using lok by (subst unat_plus_small) (auto simp: GetLastLogIndex_nat log_ok_def max_log_size_def)
  have req: "append_request_for (leading n) (GetLastLogIndex n + 1) = heartbeat_of n"
    using last nl by (simp add: append_request_for_def heartbeat_of_def last_conv_nth)
  have "(c, AEReq (append_request_for (leading n) (next_for (leading n) k))) = (c, AEReq (heartbeat_of n))"
    if "(k, c) \<in> set (channels n)" for k c
  proof -
    have "k \<in> set (map_keys (channels n))" using that by (force simp: map_keys_def)
    moreover obtain ls where "leader_state (leading n) = Some ls" using leading_leader_state by blast
    ultimately have "next_for (leading n) k = GetLastLogIndex n + 1"
      using leading_index by (simp add: next_for_def)
    then show ?thesis by (simp add: req)
  qed
  then have round: "send_round (leading n) (channels n) =
      map (\<lambda>(k, c). (c, AEReq (heartbeat_of n))) (channels n)"
    by (auto simp: send_round_def)
  have "BecomeLeader n = SendAppendEntriesToAll True (leading n)"
    by (simp add: BecomeLeader_def leading_def Let_def GetLastLogIndex_def node_simps)
  also have "\<dots> = Inr (posted (send_round (leading n) (channels n)) (leading n))"
    using SendAppendEntriesToAll_value[OF leading_in_range[OF assms]] by simp
  finally show ?thesis by (simp add: round)
qed

section \<open>New commands\<close>

lemma append_command_value:
  assumes "length (GetLog n) < max_log_size"
  shows "append_command (c, p) n =
    Inr (store_response (of_nat (length (GetLog n))) p
      (set_log (GetLog n @ [LogItem c (GetCurrentTerm n)]) n))"
  using assms
  by (simp add: append_command_def push_back_def log_size_def Let_def) (simp add: node_simps)

lemma store_response_acc [simp]:
  "GetLog (store_response i p n) = GetLog n" "GetCurrentTerm (store_response i p n) = GetCurrentTerm n"
  "GetCommitIndex (store_response i p n) = GetCommitIndex n" "role (store_response i p n) = role n"
  "items_to_response (store_response i p n) = map_insert i p (items_to_response n)"
  "incoming_commands (store_response i p n) = incoming_commands n"
  "leader_state (store_response i p n) = leader_state n"
  by (simp_all add: store_response_def drop_promise_def node_simps Let_def
      split: option.splits promise_state.splits)

lemma append_commands_value:
  assumes "length (GetLog n) + length cs \<le> max_log_size"
  shows "\<exists>n'. fold_res append_command cs n = Inr n' \<and>
    GetLog n' = GetLog n @ map (\<lambda>(c, p). LogItem c (GetCurrentTerm n)) cs \<and>
    GetCurrentTerm n' = GetCurrentTerm n \<and> GetCommitIndex n' = GetCommitIndex n \<and>
    role n' = role n \<and> leader_state n' = leader_state n \<and>
    incoming_commands n' = incoming_commands n \<and>
    (\<forall>k. map_find (items_to_response n') k =
       (if length (GetLog n) \<le> unat k \<and> unat k < length (GetLog n) + length cs
        then Some (snd (cs ! (unat k - length (GetLog n)))) else map_find (items_to_response n) k))"
  using assms
proof (induction cs arbitrary: n)
  case Nil
  then show ?case by auto
next
  case (Cons cp cs)
  obtain c p where cp: "cp = (c, p)" by (cases cp)
  let ?i = "of_nat (length (GetLog n)) :: u64"
  let ?m = "set_log (GetLog n @ [LogItem c (GetCurrentTerm n)]) n"
  have m: "GetLog ?m = GetLog n @ [LogItem c (GetCurrentTerm n)]" "GetCurrentTerm ?m = GetCurrentTerm n"
    "GetCommitIndex ?m = GetCommitIndex n" "role ?m = role n" "leader_state ?m = leader_state n"
    "incoming_commands ?m = incoming_commands n" "items_to_response ?m = items_to_response n"
    by (simp_all add: node_simps)
  have step: "append_command cp n = Inr (store_response ?i p ?m)"
    using Cons.prems by (simp add: cp append_command_value)
  have i: "k = ?i \<longleftrightarrow> unat k = length (GetLog n)" for k
    using Cons.prems by (auto simp: word_unat_eq_iff unat_log_length)
  have "length (GetLog (store_response ?i p ?m)) + length cs \<le> max_log_size"
    using Cons.prems m by simp
  from Cons.IH[OF this] obtain n' where n':
    "fold_res append_command cs (store_response ?i p ?m) = Inr n'"
    "GetLog n' = GetLog n @ LogItem c (GetCurrentTerm n) # map (\<lambda>(c, p). LogItem c (GetCurrentTerm n)) cs"
    "GetCurrentTerm n' = GetCurrentTerm n" "GetCommitIndex n' = GetCommitIndex n"
    "role n' = role n" "leader_state n' = leader_state n" "incoming_commands n' = incoming_commands n"
    "\<forall>k. map_find (items_to_response n') k =
       (if Suc (length (GetLog n)) \<le> unat k \<and> unat k < Suc (length (GetLog n)) + length cs
        then Some (snd (cs ! (unat k - Suc (length (GetLog n)))))
        else if k = ?i then Some p else map_find (items_to_response n) k)"
    by (auto simp: m)
  have "map_find (items_to_response n') k =
       (if length (GetLog n) \<le> unat k \<and> unat k < length (GetLog n) + length (cp # cs)
        then Some (snd ((cp # cs) ! (unat k - length (GetLog n)))) else map_find (items_to_response n) k)"
    for k
    using n'(8) by (cases "unat k = length (GetLog n)") (auto simp: i cp nth_Cons' Suc_le_eq)
  then show ?case using n'(1-7) step by (intro exI[of _ n']) (simp add: cp)
qed

lemma AddNewCommandsToLog_value:
  assumes "length (GetLog n) + length (incoming_commands n) \<le> max_log_size"
  shows "\<exists>n'. AddNewCommandsToLog n = Inr n' \<and>
    GetLog n' = GetLog n @ map (\<lambda>(c, p). LogItem c (GetCurrentTerm n)) (incoming_commands n) \<and>
    GetCurrentTerm n' = GetCurrentTerm n \<and> GetCommitIndex n' = GetCommitIndex n \<and>
    role n' = role n \<and> leader_state n' = leader_state n \<and> incoming_commands n' = [] \<and>
    (\<forall>k. map_find (items_to_response n') k =
       (if length (GetLog n) \<le> unat k \<and> unat k < length (GetLog n) + length (incoming_commands n)
        then Some (snd (incoming_commands n ! (unat k - length (GetLog n))))
        else map_find (items_to_response n) k))"
proof -
  let ?m = "n\<lparr>incoming_commands := []\<rparr>"
  have m: "GetLog ?m = GetLog n" "GetCurrentTerm ?m = GetCurrentTerm n"
    "GetCommitIndex ?m = GetCommitIndex n" "role ?m = role n" "leader_state ?m = leader_state n"
    "items_to_response ?m = items_to_response n" by (simp_all add: node_simps)
  have "length (GetLog ?m) + length (incoming_commands n) \<le> max_log_size" using assms m by simp
  from append_commands_value[OF this] show ?thesis
    unfolding AddNewCommandsToLog_def Let_def m by simp
qed

end
