(* ===== verification/NodeTheorems.thy ===== *)
theory NodeTheorems
  imports Sending
begin

text \<open>
  The properties of one node, over the lemmas of the theories below it: absence of faults over whole
  runs, the replies to \<open>AppendEntries\<close> and \<open>RequestVote\<close> requests on every branch, the merge loop,
  the commit step, client commands and queries.
\<close>

section \<open>Helper facts\<close>

text \<open>The first lines of the four handlers: a larger term is adopted and the node steps down.\<close>

definition adopt_term :: "Term \<Rightarrow> Node \<Rightarrow> Node" where
  "adopt_term t n = (if GetCurrentTerm n < t then BecomeFollower (set_current_term t n) else n)"

lemma adopt_term_acc:
  "GetCurrentTerm (adopt_term t n) = max (GetCurrentTerm n) t"
  "GetLog (adopt_term t n) = GetLog n" "GetCommitIndex (adopt_term t n) = GetCommitIndex n"
  "GetVotedFor (adopt_term t n) = (if GetCurrentTerm n < t then None else GetVotedFor n)"
  "role (adopt_term t n) = (if GetCurrentTerm n < t then kFollower else role n)"
  by (auto simp: adopt_term_def BecomeFollower_def ResetElectionTimer_def Let_def node_simps)

lemma calm_adopt_term: "calm n (adopt_term t n)"
  unfolding adopt_term_def by (simp, meson calm_setters calm_trans)

lemma node_ok_adopt_term: "node_ok n \<Longrightarrow> node_ok (adopt_term t n)"
  by (simp add: adopt_term_def keeps)

lemma Reset_acc:
  "GetCurrentTerm (ResetElectionTimer n) = GetCurrentTerm n"
  "GetLog (ResetElectionTimer n) = GetLog n" "GetCommitIndex (ResetElectionTimer n) = GetCommitIndex n"
  "GetVotedFor (ResetElectionTimer n) = GetVotedFor n" "role (ResetElectionTimer n) = role n"
  by (simp_all add: ResetElectionTimer_def node_simps)

lemma calm_Reset_adopt: "calm n (ResetElectionTimer (adopt_term t n))"
  by (meson calm_adopt_term calm_setters calm_trans)

text \<open>The node after the queued commands were redirected to \<open>leader\<close>.\<close>

definition redirected :: "NodeId \<Rightarrow> Node \<Rightarrow> Node" where
  "redirected leader n =
     (if role n = kLeader then n
      else n\<lparr>incoming_commands := [],
             command_results := (\<lambda>p. if p \<in> snd ` set (incoming_commands n)
               then Ready (AddCommandResult (Some leader)) else command_results n p)\<rparr>)"

lemma redirected_acc:
  "GetCurrentTerm (redirected l n) = GetCurrentTerm n" "GetLog (redirected l n) = GetLog n"
  "GetCommitIndex (redirected l n) = GetCommitIndex n" "role (redirected l n) = role n"
  by (simp_all add: redirected_def node_simps)

text \<open>The request handler up to the check of the previous entry.\<close>

definition greeted :: "AppendEntriesRequest \<Rightarrow> Node \<Rightarrow> Node" where
  "greeted req n = redirected (ae_leader_id req)
     (ResetElectionTimer (adopt_term (ae_leader_term req) n))"

lemma greeted_acc:
  "\<not> ae_leader_term req < GetCurrentTerm n \<Longrightarrow> GetCurrentTerm (greeted req n) = ae_leader_term req"
  "GetLog (greeted req n) = GetLog n" "GetCommitIndex (greeted req n) = GetCommitIndex n"
  by (auto simp: greeted_def redirected_acc Reset_acc adopt_term_acc max_def)

lemma append_request_head:
  assumes "promises_ok n" and "\<not> ae_leader_term req < GetCurrentTerm n"
  shows "HandleAppendEntriesRequest req n =
    (let m = greeted req n in
     if log_size (GetLog m) \<le> prev_log_index req then Inr (AppendEntriesUnsuccessfull m, m)
     else bind_res (read_at (GetLog m) (prev_log_index req)) (\<lambda>prev.
         if leader_term prev \<noteq> prev_log_term req then Inr (AppendEntriesUnsuccessfull m, m)
         else bind_res (append_entries (prev_log_index req) 0 (entries req) (GetLog m)) (\<lambda>log.
           let n = set_log log m;
               last_new = prev_log_index req + log_size (entries req);
               n = (if leader_commit req > GetCommitIndex n
                    then set_commit_index (min (leader_commit req) last_new) n else n)
           in Inr (AppendEntriesSuccessfull (min (log_size (GetLog n) - 1) last_new) n, n))))"
proof -
  let ?m = "ResetElectionTimer (adopt_term (ae_leader_term req) n)"
  have "promises_ok ?m" using promises_ok_calm[OF calm_Reset_adopt assms(1)] .
  then have r: "(if GetRole ?m \<noteq> kLeader then redirect_commands (ae_leader_id req) ?m else Inr ?m) =
      Inr (greeted req n)"
    by (simp add: redirect_commands_value greeted_def redirected_def GetRole_def)
  have "\<not> ae_leader_term req < GetCurrentTerm ?m"
    using assms(2) by (simp add: Reset_acc adopt_term_acc)
  then show ?thesis
    unfolding HandleAppendEntriesRequest_def adopt_term_def[symmetric] Let_def r
    by simp
qed


lemma merged_last_index:
  assumes "p < length log" and "length log \<le> max_log_size"
    and "Suc p + length es \<le> max_log_size" and "unat prev = p"
  shows "min (log_size (merge_entries p es log) - 1) (prev + log_size es) = prev + log_size es"
    and "unat (prev + log_size es) = p + length es"
proof -
  let ?l = "merge_entries p es log"
  have len: "Suc p + length es \<le> length ?l" "length ?l \<le> max_log_size"
    using merge_length[OF assms(1)] merge_length_le[of p es log] assms by auto
  have es: "unat (log_size es) = length es"
    using assms(3) by (simp add: log_size_def unat_log_length)
  have "p + length es < 2 ^ 64" using assms(3) max_log_size_word by linarith
  then show sum: "unat (prev + log_size es) = p + length es"
    using es assms(4) by (subst unat_plus_small) auto
  have l: "unat (log_size ?l) = length ?l" using len by (simp add: log_size_def unat_log_length)
  then have "log_size ?l \<noteq> 0" using len by auto
  then have "unat (log_size ?l - 1) = length ?l - 1" using l by (simp add: unat_minus1)
  then show "min (log_size ?l - 1) (prev + log_size es) = prev + log_size es"
    using sum len by (intro min_absorb2) (simp add: word_le_nat_alt)
qed

text \<open>A node of a cluster of three, fresh, for the witnesses.\<close>

definition sample_timer :: UniformTimer where
  "sample_timer = make_UniformTimer 7000 15000 (\<lambda>_. 7000) (\<lambda>i. int i)"

definition sample_channels :: "(NodeId, IMessageSender) std_map" where
  "sample_channels = [(2, OtherNodesMessageSender ''b''), (3, OtherNodesMessageSender ''c'')]"

definition sample_node :: Node where
  "sample_node = make_Node 1 sample_channels sample_timer"

lemma sample_node_ok: "node_ok sample_node" "promises_ok sample_node" "log_ok (GetLog sample_node)"
  by (simp_all add: sample_node_def sample_channels_def node_ok_make_Node promises_ok_make_Node)
     (simp add: make_Node_def Let_def node_simps log_ok_def initial_log_def max_log_size_def)

lemma sample_node_acc: "GetLog sample_node = [LogItem [] 0]" "GetCurrentTerm sample_node = 0"
  "GetCommitIndex sample_node = 0" "GetVotedFor sample_node = None" "role sample_node = kFollower"
  "my_id sample_node = 1" "leader_state sample_node = None"
  by (simp_all add: sample_node_def make_Node_def Let_def node_simps initial_log_def)

lemma promises_ok_greeted:
  assumes "promises_ok n"
  shows "promises_ok (greeted req n)"
proof -
  let ?m = "ResetElectionTimer (adopt_term (ae_leader_term req) n)"
  have m: "promises_ok ?m" using promises_ok_calm[OF calm_Reset_adopt assms] .
  show ?thesis
    using promises_ok_redirect_commands[OF m, of "ae_leader_id req"] m
    by (simp add: redirect_commands_value[OF m] greeted_def redirected_def)
qed

text \<open>What a successful reply tells about the request and the state it left.\<close>

lemma append_request_success:
  assumes "node_ok n" and "promises_ok n"
    and "HandleAppendEntriesRequest req n = Inr (resp, n')" and "success resp"
    and "p = unat (prev_log_index req)" and "p + length (entries req) < max_log_size"
  shows "GetCurrentTerm n \<le> ae_leader_term req" and "p < length (GetLog n)"
    and "leader_term (GetLog n ! p) = prev_log_term req"
    and "GetLog n' = merge_entries p (entries req) (GetLog n)"
    and "resp = \<lparr>aer_current_term = ae_leader_term req, success = True,
      matched_until = Some (prev_log_index req + log_size (entries req))\<rparr>"
    and "unat (prev_log_index req + log_size (entries req)) = p + length (entries req)"
    and "GetCurrentTerm n' = ae_leader_term req" and "promises_ok n'"
    and "GetCommitIndex n' = (if leader_commit req > GetCommitIndex n
      then min (leader_commit req) (prev_log_index req + log_size (entries req)) else GetCommitIndex n)"
proof -
  have lok: "log_ok (GetLog n)" using assms(1) by (simp add: node_ok_def)
  show fresh: "GetCurrentTerm n \<le> ae_leader_term req"
  proof (rule ccontr)
    assume "\<not> ?thesis"
    then have "ae_leader_term req < GetCurrentTerm n" "\<not> GetCurrentTerm n < ae_leader_term req" by auto
    with assms(3,4) show False
      by (auto simp: HandleAppendEntriesRequest_def Reset_acc AppendEntriesUnsuccessfull_def Let_def)
  qed
  have sz: "log_size (GetLog n) \<le> prev_log_index req \<longleftrightarrow> length (GetLog n) \<le> p"
    using log_ok_size[OF lok] assms(5) by (simp add: word_le_nat_alt)
  have head: "\<not> ae_leader_term req < GetCurrentTerm n" using fresh by simp
  note run = assms(3)[unfolded append_request_head[OF assms(2) head] Let_def]
  show p: "p < length (GetLog n)"
    using run assms(4) by (auto simp: greeted_acc sz AppendEntriesUnsuccessfull_def split: if_splits)
  show "leader_term (GetLog n ! p) = prev_log_term req"
    using run assms(4,5) p
    by (auto simp: greeted_acc sz read_at_def AppendEntriesUnsuccessfull_def split: if_splits)
  note same = this
  have app: "append_entries (prev_log_index req) 0 (entries req) (GetLog n) =
      Inr (merge_entries p (entries req) (GetLog n))"
    unfolding assms(5) using p assms(5,6) lok by (intro append_entries_merge) (auto simp: log_ok_def)
  have acc: "GetLog (set_log l m) = l" "GetCommitIndex (set_log l m) = GetCommitIndex m"
    "GetCurrentTerm (set_log l m) = GetCurrentTerm m"
    "GetLog (set_commit_index i m) = GetLog m" "GetCommitIndex (set_commit_index i m) = i"
    "GetCurrentTerm (set_commit_index i m) = GetCurrentTerm m" for l m i
    by (simp_all add: node_simps)
  have "length (GetLog n) \<le> max_log_size" "Suc p + length (entries req) \<le> max_log_size"
    "unat (prev_log_index req) = p"
    using lok assms(5,6) by (simp_all add: log_ok_def)
  note last = merged_last_index[OF p this]
  show "unat (prev_log_index req + log_size (entries req)) = p + length (entries req)"
    by (rule last)
  let ?new = "prev_log_index req + log_size (entries req)"
  define m1 where "m1 = set_log (merge_entries p (entries req) (GetLog n)) (greeted req n)"
  define m where "m = (if leader_commit req > GetCommitIndex m1
      then set_commit_index (min (leader_commit req) ?new) m1 else m1)"
  have m1: "GetLog m1 = merge_entries p (entries req) (GetLog n)" "GetCommitIndex m1 = GetCommitIndex n"
    "GetCurrentTerm m1 = ae_leader_term req"
    using head by (simp_all add: m1_def acc greeted_acc)
  have m: "GetLog m = merge_entries p (entries req) (GetLog n)" "GetCurrentTerm m = ae_leader_term req"
    "GetCommitIndex m =
      (if leader_commit req > GetCommitIndex n then min (leader_commit req) ?new else GetCommitIndex n)"
    by (simp_all add: m_def acc m1)
  have "HandleAppendEntriesRequest req n =
      Inr (AppendEntriesSuccessfull (min (log_size (GetLog m) - 1) ?new) m, m)"
    unfolding append_request_head[OF assms(2) head] Let_def
    using p same by (simp add: greeted_acc sz read_at_def app m_def m1_def assms(5)[symmetric])
  then have "resp = AppendEntriesSuccessfull ?new m" "n' = m"
    using assms(3) by (simp_all add: m(1) last(1))
  then show "GetLog n' = merge_entries p (entries req) (GetLog n)"
    and "resp = \<lparr>aer_current_term = ae_leader_term req, success = True, matched_until = Some ?new\<rparr>"
    and "GetCurrentTerm n' = ae_leader_term req"
    and "GetCommitIndex n' =
      (if leader_commit req > GetCommitIndex n then min (leader_commit req) ?new else GetCommitIndex n)"
    using m by (simp_all add: AppendEntriesSuccessfull_def)
  have "promises_ok (greeted req n)" by (rule promises_ok_greeted[OF assms(2)])
  then have "promises_ok m" unfolding m_def m1_def by (simp add: promises_defs node_simps)
  then show "promises_ok n'" using \<open>n' = m\<close> by simp
qed

lemma append_request_run:
  assumes "node_ok n" and "promises_ok n" and "GetCurrentTerm n \<le> ae_leader_term req"
    and "unat (prev_log_index req) < length (GetLog n)"
    and "leader_term (GetLog n ! unat (prev_log_index req)) = prev_log_term req"
    and "unat (prev_log_index req) + length (entries req) < max_log_size"
  shows "\<exists>resp n'. HandleAppendEntriesRequest req n = Inr (resp, n') \<and> success resp"
proof -
  have lok: "log_ok (GetLog n)" using assms(1) by (simp add: node_ok_def)
  have head: "\<not> ae_leader_term req < GetCurrentTerm n" using assms(3) by simp
  have "\<not> log_size (GetLog n) \<le> prev_log_index req"
    using assms(4) log_ok_size[OF lok] by (simp add: word_le_nat_alt)
  moreover have "append_entries (prev_log_index req) 0 (entries req) (GetLog n) =
      Inr (merge_entries (unat (prev_log_index req)) (entries req) (GetLog n))"
    using assms(4,6) lok by (intro append_entries_merge) (auto simp: log_ok_def)
  ultimately show ?thesis
    unfolding append_request_head[OF assms(2) head] Let_def
    using assms(4,5) by (simp add: greeted_acc read_at_def AppendEntriesSuccessfull_def)
qed

section \<open>Replies to \<open>AppendEntries\<close>\<close>

text \<open>C2: An \<open>AppendEntries\<close> request whose term is not stale and whose previous entry is in the log
  with the right term is accepted: the log becomes the merge of the old log with the entries of the
  request (kept when it holds them already, otherwise cut after the previous entry and extended), the
  term is the leader's, the commit index moves to the leader's but not past the last new entry, and
  the reply reports the index of the last new entry. No step of the handler faults.\<close>

theorem append_request_accepted:
  assumes "node_ok n" and "promises_ok n"
    and "GetCurrentTerm n \<le> ae_leader_term req"
    and "unat (prev_log_index req) < length (GetLog n)"
    and "leader_term (GetLog n ! unat (prev_log_index req)) = prev_log_term req"
    and "unat (prev_log_index req) + length (entries req) < max_log_size"
  shows "\<exists>n'. HandleAppendEntriesRequest req n =
      Inr (\<lparr>aer_current_term = ae_leader_term req, success = True,
            matched_until = Some (prev_log_index req + log_size (entries req))\<rparr>, n') \<and>
    GetLog n' = merge_entries (unat (prev_log_index req)) (entries req) (GetLog n) \<and>
    GetCurrentTerm n' = ae_leader_term req \<and>
    unat (GetCommitIndex n') =
      (if leader_commit req > GetCommitIndex n
       then min (unat (leader_commit req)) (unat (prev_log_index req) + length (entries req))
       else unat (GetCommitIndex n))"
proof -
  obtain resp n' where run: "HandleAppendEntriesRequest req n = Inr (resp, n')" "success resp"
    using append_request_run[OF assms] by blast
  show ?thesis
    using append_request_success[OF assms(1,2) run refl assms(6)] run(1) by (auto simp: unat_min)
qed

definition sample_request :: AppendEntriesRequest where
  "sample_request = \<lparr>ae_leader_term = 2, ae_leader_id = 3, prev_log_index = 0, prev_log_term = 0,
     entries = [LogItem ''k v'' 1], leader_commit = 5\<rparr>"

lemma append_request_accepted_witness:
  "\<exists>n'. HandleAppendEntriesRequest sample_request sample_node =
      Inr (\<lparr>aer_current_term = 2, success = True, matched_until = Some 1\<rparr>, n') \<and>
    GetLog n' = [LogItem [] 0, LogItem ''k v'' 1] \<and> GetCurrentTerm n' = 2 \<and>
    unat (GetCommitIndex n') = 1"
  using append_request_accepted[of sample_node sample_request] sample_node_ok
  by (simp add: sample_node_acc sample_request_def max_log_size_value log_size_def merge_entries_def)

text \<open>C3: An \<open>AppendEntries\<close> request with a stale term, or whose previous entry is missing or has
  another term, is rejected: the reply carries the receiver's current term, and log, commit index
  and vote are what the adoption of the term left.\<close>

theorem append_request_rejected:
  assumes "node_ok n" and "promises_ok n"
    and "ae_leader_term req < GetCurrentTerm n \<or>
      length (GetLog n) \<le> unat (prev_log_index req) \<or>
      leader_term (GetLog n ! unat (prev_log_index req)) \<noteq> prev_log_term req"
  shows "\<exists>n'. HandleAppendEntriesRequest req n =
      Inr (\<lparr>aer_current_term = max (GetCurrentTerm n) (ae_leader_term req), success = False,
            matched_until = None\<rparr>, n') \<and>
    GetLog n' = GetLog n \<and> GetCommitIndex n' = GetCommitIndex n \<and>
    GetCurrentTerm n' = max (GetCurrentTerm n) (ae_leader_term req)"
proof (cases "ae_leader_term req < GetCurrentTerm n")
  case True
  then have "\<not> GetCurrentTerm n < ae_leader_term req" by simp
  with True show ?thesis
    by (simp add: HandleAppendEntriesRequest_def Reset_acc AppendEntriesUnsuccessfull_def Let_def
        max_def)
next
  case False
  have lok: "log_ok (GetLog n)" using assms(1) by (simp add: node_ok_def)
  have sz: "log_size (GetLog n) \<le> prev_log_index req \<longleftrightarrow>
      length (GetLog n) \<le> unat (prev_log_index req)"
    using log_ok_size[OF lok] by (simp add: word_le_nat_alt)
  show ?thesis
    unfolding append_request_head[OF assms(2) False] Let_def
    using sz assms(3) False
    by (auto simp: greeted_acc read_at_def AppendEntriesUnsuccessfull_def max_def)
qed


lemma append_request_rejected_witness:
  "\<exists>n'. HandleAppendEntriesRequest (sample_request\<lparr>prev_log_index := 4\<rparr>) sample_node =
      Inr (\<lparr>aer_current_term = 2, success = False, matched_until = None\<rparr>, n') \<and>
    GetLog n' = [LogItem [] 0] \<and> GetCommitIndex n' = 0 \<and> GetCurrentTerm n' = 2"
  using append_request_rejected[of sample_node "sample_request\<lparr>prev_log_index := 4\<rparr>"] sample_node_ok
  by (simp add: sample_node_acc sample_request_def)

section \<open>Votes\<close>

text \<open>The candidate's log is at least as up to date as \<open>log\<close> (section 5.4.1 of the Raft paper).\<close>

definition up_to_date :: "Log \<Rightarrow> RequestVoteRequest \<Rightarrow> bool" where
  "up_to_date log req \<longleftrightarrow> leader_term (last log) < candidate_last_log_term req \<or>
     leader_term (last log) = candidate_last_log_term req \<and>
     length log - 1 \<le> unat (candidate_last_log_index req)"

text \<open>C4: The answer to a \<open>RequestVote\<close> request. The vote is granted exactly when the term is not
  stale, the node has not voted for another candidate in this term, and the candidate's log is at
  least as up to date; a granted vote is recorded and names the candidate's term. The log does not
  change, and the term becomes the larger of the two.\<close>

theorem vote_request_answer:
  assumes "node_ok n"
  shows "\<exists>resp n'. HandleRequestVoteRequest req n = Inr (resp, n') \<and>
    GetLog n' = GetLog n \<and> GetCurrentTerm n' = max (GetCurrentTerm n) (candidate_term req) \<and>
    (vote_granted resp \<longleftrightarrow> GetCurrentTerm n \<le> candidate_term req \<and>
       (GetCurrentTerm n < candidate_term req \<or> GetVotedFor n = None \<or>
        GetVotedFor n = Some (candidate_id req)) \<and> up_to_date (GetLog n) req) \<and>
    (vote_granted resp \<longrightarrow> GetVotedFor n' = Some (candidate_id req) \<and>
       rvr_candidate_term resp = candidate_term req) \<and>
    rvr_current_term resp =
      (if candidate_term req < GetCurrentTerm n then 0 else candidate_term req)"
proof -
  let ?m = "adopt_term (candidate_term req) n"
  have lok: "log_ok (GetLog n)" using assms by (simp add: node_ok_def)
  have last: "GetLastLogTerm ?m = Inr (leader_term (last (GetLog n)))"
    using lok by (simp add: GetLastLogTerm_ok adopt_term_acc)
  have idx: "GetLastLogIndex ?m \<le> i \<longleftrightarrow> length (GetLog n) - 1 \<le> unat i" for i
    using lok by (simp add: word_le_nat_alt GetLastLogIndex_nat adopt_term_acc)
  have voted: "GetLog (set_voted_for v m) = GetLog m" "GetCurrentTerm (set_voted_for v m) = GetCurrentTerm m"
    "GetVotedFor (set_voted_for v m) = v" for v m by (simp_all add: node_simps)
  show ?thesis
    unfolding HandleRequestVoteRequest_def adopt_term_def[symmetric] Let_def last
    by (cases "GetVotedFor n")
       (auto simp: adopt_term_acc idx voted up_to_date_def default_RequestVoteResponse_def
          RequestVoteSuccessfull_def RequestVoteUnsuccessfull_def max_def)
qed

definition sample_vote_request :: RequestVoteRequest where
  "sample_vote_request = \<lparr>candidate_term = 4, candidate_id = 2, candidate_last_log_index = 0,
     candidate_last_log_term = 0\<rparr>"

lemma vote_request_answer_witness:
  "\<exists>resp n'. HandleRequestVoteRequest sample_vote_request sample_node = Inr (resp, n') \<and>
    GetCurrentTerm n' = 4 \<and> vote_granted resp \<and> GetVotedFor n' = Some 2 \<and>
    rvr_candidate_term resp = 4 \<and> rvr_current_term resp = 4"
  using vote_request_answer[OF sample_node_ok(1), of sample_vote_request]
  by (auto simp: sample_node_acc sample_vote_request_def up_to_date_def)

section \<open>Commit\<close>

text \<open>C5: The commit step of a leader. The new commit index is the largest index of the log that a
  majority of \<open>match_index\<close> reaches, or the old one when there is none above it; the promises of
  exactly the newly committed items report success and leave \<open>items_to_response_\<close>, every other
  promise keeps its state, and the log does not change. The step does not fault.\<close>

theorem commit_step:
  assumes "node_ok n" and "promises_ok n" and "role n = kLeader"
    and "unat (GetCommitIndex n) < 2 ^ 64 - 1"
  shows "\<exists>n'. CommitIfPossible n = Inr n' \<and> GetLog n' = GetLog n \<and>
    unat (GetCommitIndex n') = Max (insert (unat (GetCommitIndex n))
      {i. unat (GetCommitIndex n) < i \<and> i < length (GetLog n) \<and> reached n i}) \<and>
    items_to_response n' = filter (\<lambda>(k, p). \<not> (GetCommitIndex n < k \<and> k \<le> GetCommitIndex n'))
      (items_to_response n) \<and>
    command_results n' = (\<lambda>p. if \<exists>k. (k, p) \<in> set (items_to_response n) \<and>
        GetCommitIndex n < k \<and> k \<le> GetCommitIndex n'
      then Ready (AddCommandResult None) else command_results n p)"
proof -
  let ?c = "unat (GetCommitIndex n)"
  let ?R = "{i. ?c < i \<and> i < length (GetLog n) \<and> reached n i}"
  have mem: "i \<in> set (newly_reached n) \<longleftrightarrow> i \<in> ?R" for i
    using newly_reached_bounds[OF assms(1) _ assms(4)] newly_reached_complete[OF assms(1)] by blast
  have fin: "finite (insert ?c ?R)" by simp
  note val = CommitIfPossible_value[OF assms(1,3,2,4)]
  show ?thesis
  proof (cases "newly_reached n = []")
    case True
    then have none: "?R = {}" using mem by auto
    have "Max (insert ?c ?R) = ?c" unfolding none by simp
    moreover have gap: "(c < k \<and> k \<le> c) = False" for c k :: u64 by auto
    moreover have "filter (\<lambda>(k, p). \<not> (c < k \<and> k \<le> c)) m = m"
      for c :: u64 and m :: "(u64 \<times> promise) list" unfolding gap by simp
    ultimately show ?thesis by (simp add: val True gap del: not_less not_le de_Morgan_conj)
  next
    case False
    define i where "i = last (newly_reached n)"
    have i: "i \<in> ?R" using False mem[of i] by (simp add: i_def)
    then have "i < 2 ^ 64" using assms(1) by (simp add: node_ok_def log_ok_def max_log_size_def)
    then have word: "unat (of_nat i :: u64) = i" by (rule unat_of_nat_small)
    have le: "j \<le> i" if "j \<in> set (newly_reached n)" for j
      unfolding i_def
    proof (rule sorted_le_last[OF _ that])
      show "sorted (newly_reached n)"
        unfolding newly_reached_def by (intro sorted_wrt_filter) (rule sorted_upt)
    qed
    have max: "Max (insert ?c ?R) = i"
    proof (rule Max_eqI[OF fin])
      show "i \<in> insert ?c ?R" using i by blast
      show "j \<le> i" if "j \<in> insert ?c ?R" for j
        using that le[of j] mem[of j] i by auto
    qed
    have acc: "GetCommitIndex (set_commit_index j m) = j"
      "GetLog (set_commit_index j (m\<lparr>items_to_response := is, command_results := rs\<rparr>)) = GetLog m"
      "items_to_response (set_commit_index j m) = items_to_response m"
      "command_results (set_commit_index j m) = command_results m" for j m "is" rs
      by (simp_all add: node_simps)
    have range: "GetCommitIndex n < k \<longleftrightarrow> ?c < unat k" "k \<le> of_nat i \<longleftrightarrow> unat k \<le> i" for k
      using word by (simp_all add: word_less_nat_alt word_le_nat_alt)
    show ?thesis
      using False
      by (simp add: val Let_def i_def[symmetric] max word range answered_def acc)
  qed
qed

text \<open>A leader of the sample cluster with one command that two of the three nodes hold.\<close>

definition sample_leader :: Node where
  "sample_leader = sample_node
     \<lparr>role := kLeader,
      node_state := \<lparr>persistent_state = \<lparr>current_term = 2, voted_for = None,
          plog = [LogItem [] 0, LogItem ''k v'' 2]\<rparr>, volatile_state = \<lparr>commit_index = 0\<rparr>\<rparr>,
      leader_state := Some \<lparr>next_index = [(1, 2), (2, 2), (3, 1)],
          match_index = [(1, 1), (2, 1), (3, 0)]\<rparr>,
      items_to_response := [(1, 0)], next_promise := 1\<rparr>"

lemma sample_leader_acc: "GetLog sample_leader = [LogItem [] 0, LogItem ''k v'' 2]"
  "GetCurrentTerm sample_leader = 2" "GetCommitIndex sample_leader = 0"
  "role sample_leader = kLeader" "items_to_response sample_leader = [(1, 0)]"
  "command_results sample_leader = (\<lambda>_. Pending)" "my_id sample_leader = 1"
  "incoming_commands sample_leader = []" "total_nodes sample_leader = 3"
  "leader_state sample_leader = Some \<lparr>next_index = [(1, 2), (2, 2), (3, 1)],
      match_index = [(1, 1), (2, 1), (3, 0)]\<rparr>"
  "channels sample_leader = (1, TrivialMessageSender 1) # sample_channels" "sent sample_leader = []"
  by (simp_all add: sample_leader_def node_simps sample_node_def make_Node_def sample_channels_def Let_def)

lemma sample_leader_ok: "node_ok sample_leader" "promises_ok sample_leader" "indices_ok sample_leader"
proof -
  have keys: "map_keys (channels sample_leader) = [1, 2, 3]"
    by (simp add: sample_leader_acc sample_channels_def)
  have queues: "incoming_append_entries_requests sample_leader = []"
    "incoming_append_entries_responses sample_leader = []" "candidate_state sample_leader = None"
    "get_persistent_commands_reqs sample_leader = []" "next_promise sample_leader = 1"
    "query_results sample_leader = (\<lambda>_. Pending)"
    by (simp_all add: sample_leader_def sample_node_def make_Node_def Let_def)
  show "node_ok sample_leader"
    unfolding node_ok_def role_ok_def channels_ok_def leader_ok_def candidate_ok_def queues_ok_def keys
    by (simp add: sample_leader_acc queues log_ok_def max_log_size_value sample_channels_def map_find_Cons)
  show "promises_ok sample_leader"
    by (simp add: promises_defs sample_leader_acc queues)
  show "indices_ok sample_leader"
    unfolding indices_ok_def keys by (simp add: sample_leader_acc map_find_Cons)
qed

lemma commit_step_witness:
  "\<exists>n'. CommitIfPossible sample_leader = Inr n' \<and> GetCommitIndex n' = 1 \<and>
    items_to_response n' = [] \<and> command_results n' 0 = Ready (AddCommandResult None)"
proof -
  have "{i. unat (GetCommitIndex sample_leader) < i \<and> i < length (GetLog sample_leader) \<and>
      reached sample_leader i} = {1}"
    by (auto simp: sample_leader_acc reached_def count_matched_def less_Suc_eq)
  then obtain n' where n': "CommitIfPossible sample_leader = Inr n'" "unat (GetCommitIndex n') = 1"
    "items_to_response n' = filter (\<lambda>(k, p). \<not> (0 < k \<and> k \<le> GetCommitIndex n')) [(1, 0)]"
    "command_results n' = (\<lambda>p. if \<exists>k. (k, p) \<in> set [(1, 0 :: promise)] \<and> 0 < k \<and> k \<le> GetCommitIndex n'
      then Ready (AddCommandResult None) else Pending)"
    using commit_step[of sample_leader] sample_leader_ok by (auto simp: sample_leader_acc cong: if_cong)
  moreover have "GetCommitIndex n' = 1" using n'(2) by (metis unat_1 word_unat_eq_iff)
  ultimately show ?thesis by auto
qed

section \<open>Clients\<close>

text \<open>New commands at the leader. Each queued command is appended to the log in order with the
  current term, its promise is stored under the index of its entry, the queue is empty, and the
  promises of the older entries stay where they are.\<close>

lemma new_commands_appended:
  assumes "length (GetLog n) + length (incoming_commands n) \<le> max_log_size"
  shows "\<exists>n'. AddNewCommandsToLog n = Inr n' \<and>
    GetLog n' = GetLog n @ map (\<lambda>(c, p). LogItem c (GetCurrentTerm n)) (incoming_commands n) \<and>
    incoming_commands n' = [] \<and>
    (\<forall>k. map_find (items_to_response n') k =
       (if length (GetLog n) \<le> unat k \<and> unat k < length (GetLog n) + length (incoming_commands n)
        then Some (snd (incoming_commands n ! (unat k - length (GetLog n))))
        else map_find (items_to_response n) k))"
  using AddNewCommandsToLog_value[OF assms] by blast

lemma new_commands_appended_witness:
  "\<exists>n'. AddNewCommandsToLog (sample_leader\<lparr>incoming_commands := [(''a'', 5)]\<rparr>) = Inr n' \<and>
    GetLog n' = [LogItem [] 0, LogItem ''k v'' 2, LogItem ''a'' 2] \<and>
    map_find (items_to_response n') 2 = Some 5"
proof -
  let ?n = "sample_leader\<lparr>incoming_commands := [(''a'', 5)]\<rparr>"
  have "GetLog ?n = GetLog sample_leader" "GetCurrentTerm ?n = GetCurrentTerm sample_leader"
    by (simp_all add: node_simps)
  then show ?thesis
    using new_commands_appended[of ?n] by (auto simp: sample_leader_acc max_log_size_value)
qed

text \<open>Commands queued at a node that is not leader are answered when a current \<open>AppendEntries\<close>
  request arrives: every promise gets the id of that leader, none is kept, and no other promise
  changes.\<close>

lemma commands_redirected:
  assumes "node_ok n" and "promises_ok n" and "GetCurrentTerm n \<le> ae_leader_term req"
    and "GetCurrentTerm n < ae_leader_term req \<or> role n \<noteq> kLeader"
    and "HandleAppendEntriesRequest req n = Inr (resp, n')"
  shows "incoming_commands n' = [] \<and> command_results n' =
    (\<lambda>p. if p \<in> snd ` set (incoming_commands n) then Ready (AddCommandResult (Some (ae_leader_id req)))
      else command_results n p)"
proof -
  let ?m = "ResetElectionTimer (adopt_term (ae_leader_term req) n)"
  have calm: "incoming_commands ?m = incoming_commands n" "command_results ?m = command_results n"
    using calm_Reset_adopt[of n "ae_leader_term req"] by (simp_all add: calm_def client_view_def)
  have "role ?m \<noteq> kLeader" using assms(4) by (auto simp: Reset_acc adopt_term_acc)
  then have greet: "incoming_commands (greeted req n) = []" "command_results (greeted req n) =
      (\<lambda>p. if p \<in> snd ` set (incoming_commands n)
        then Ready (AddCommandResult (Some (ae_leader_id req))) else command_results n p)"
    by (simp_all add: greeted_def redirected_def calm cong: if_cong)
  have fin: "incoming_commands (set_log l m) = incoming_commands m"
    "command_results (set_log l m) = command_results m"
    "incoming_commands (set_commit_index i m) = incoming_commands m"
    "command_results (set_commit_index i m) = command_results m" for l m i
    by (simp_all add: node_simps)
  have "\<not> ae_leader_term req < GetCurrentTerm n" using assms(3) by simp
  from assms(5)[unfolded append_request_head[OF assms(2) this]] show ?thesis
    by (auto simp: Let_def bind_res_eq_Inr greet fin split: if_splits)
qed

lemma commands_redirected_witness:
  "\<exists>resp n'. HandleAppendEntriesRequest sample_request (snd (AddCommand ''x'' sample_node)) =
      Inr (resp, n') \<and> command_results n' 0 = Ready (AddCommandResult (Some 3))"
proof -
  let ?n = "snd (AddCommand ''x'' sample_node)"
  have acc: "GetLog ?n = GetLog sample_node" "GetCurrentTerm ?n = 0" "role ?n = kFollower"
    "incoming_commands ?n = [(''x'', 0)]"
    by (simp_all add: AddCommand_def Let_def node_simps sample_node_def make_Node_def)
  have ok: "node_ok ?n" "promises_ok ?n"
    using sample_node_ok by (simp_all add: node_ok_AddCommand promises_ok_AddCommand)
  have "post {LengthError, PromiseSatisfied} (\<lambda>(resp, n'). node_ok n' \<and> msg_ok (AEResp resp) \<and>
      channels n' = channels ?n) (HandleAppendEntriesRequest sample_request ?n)"
    using ok by (intro HandleAppendEntriesRequest_ok) (simp_all add: sample_request_def max_log_size_value)
  have "append_entries 0 0 [LogItem ''k v'' 1] (GetLog sample_node) =
      Inr [LogItem [] 0, LogItem ''k v'' 1]"
    by (simp add: sample_node_acc log_size_def push_back_def max_log_size_value)
  then obtain resp n' where "HandleAppendEntriesRequest sample_request ?n = Inr (resp, n')"
    using append_request_head[OF ok(2), of sample_request]
    by (simp add: acc sample_request_def greeted_acc sample_node_acc log_size_def read_at_def Let_def)
  with commands_redirected[OF ok, of sample_request] show ?thesis
    by (auto simp: acc sample_request_def)
qed

text \<open>C9: Queries of committed commands. A tick answers every queued query with the committed commands
  of the asked range (up to the commit index, so never an uncommitted one), empties the queue, and
  touches no other promise.\<close>

theorem queries_answered:
  assumes "promises_ok n" and "unat (GetCommitIndex n) < length (GetLog n)"
  shows "\<exists>rs. HandleGetPersistentCommandRequests n =
      Inr (n\<lparr>get_persistent_commands_reqs := [], query_results := rs\<rparr>) \<and>
    (\<forall>((f, c), p)\<in>set (get_persistent_commands_reqs n). rs p = Ready
      (map command (drop (unat f)
        (take (min (unat (f + c)) (Suc (unat (GetCommitIndex n)))) (GetLog n))))) \<and>
    (\<forall>p. p \<notin> snd ` set (get_persistent_commands_reqs n) \<longrightarrow> rs p = query_results n p)"
  using HandleGetPersistentCommandRequests_value[OF assms] unfolding committed_slice_def .

lemma queries_answered_witness:
  "\<exists>rs. HandleGetPersistentCommandRequests
        (sample_leader\<lparr>get_persistent_commands_reqs := [((0, 100), 0)]\<rparr>) =
      Inr (sample_leader\<lparr>get_persistent_commands_reqs := [], query_results := rs\<rparr>) \<and>
    rs 0 = Ready [[]]"
proof -
  let ?n = "sample_leader\<lparr>get_persistent_commands_reqs := [((0, 100), 0)]\<rparr>"
  have acc: "GetLog ?n = GetLog sample_leader" "GetCommitIndex ?n = GetCommitIndex sample_leader"
    by (simp_all add: node_simps)
  have "promises_ok ?n"
    by (simp add: promises_defs sample_leader_def sample_node_def make_Node_def Let_def)
  then show ?thesis
    using queries_answered[of ?n] unfolding acc by (auto simp: sample_leader_acc)
qed

section \<open>Elections and leadership\<close>

text \<open>C10: A candidacy. The term grows by one (on 64 bits), the node votes for itself, and every
  channel gets one vote request with the new term and the position of the last log entry.\<close>

theorem candidacy:
  assumes "node_ok n"
  shows "\<exists>n'. BecomeCandidate n = Inr n' \<and> role n' = kCandidate \<and>
    GetCurrentTerm n' = GetCurrentTerm n + 1 \<and> GetVotedFor n' = Some (my_id n) \<and>
    candidate_state n' = Some \<lparr>votes = []\<rparr> \<and> leader_state n' = None \<and> GetLog n' = GetLog n \<and>
    sent n' = sent n @ map (\<lambda>(k, c). (c, my_id n, RVReq
      \<lparr>candidate_term = GetCurrentTerm n + 1, candidate_id = my_id n,
       candidate_last_log_index = GetLastLogIndex n,
       candidate_last_log_term = leader_term (last (GetLog n))\<rparr>)) (channels n)"
proof -
  have last: "GetLastLogIndex (campaigning n) = GetLastLogIndex n" by (simp add: GetLastLogIndex_def)
  have acc: "GetCurrentTerm (m\<lparr>role := r, candidate_state := c, leader_state := l\<rparr>) = GetCurrentTerm m"
    "GetVotedFor (m\<lparr>role := r, candidate_state := c, leader_state := l\<rparr>) = GetVotedFor m"
    "GetLog (m\<lparr>role := r, candidate_state := c, leader_state := l\<rparr>) = GetLog m" for m r c l
    by (simp_all add: node_simps)
  have "log_ok (GetLog n)" using assms by (simp add: node_ok_def)
  from BecomeCandidate_value[OF this] show ?thesis
    by (simp add: acc sent_posted split_beta vote_request_for_def last)
qed

lemma candidacy_witness:
  "\<exists>n'. BecomeCandidate sample_node = Inr n' \<and> GetCurrentTerm n' = 1 \<and> length (sent n') = 3"
  using candidacy[OF sample_node_ok(1)]
  by (auto simp: sample_node_acc) (simp add: sample_node_def make_Node_def sample_channels_def Let_def)

text \<open>A new leader. Its vote is reset, every channel starts with \<open>next_index\<close> behind the last
  entry and \<open>match_index\<close> 0, and every channel gets one heartbeat that carries the last entry's index
  and term, no entries, and the commit index. The method does not fault.\<close>

lemma leadership:
  assumes "node_ok n"
  shows "\<exists>n' ls. BecomeLeader n = Inr n' \<and> role n' = kLeader \<and> leader_state n' = Some ls \<and>
    GetCurrentTerm n' = GetCurrentTerm n \<and> GetVotedFor n' = None \<and> GetLog n' = GetLog n \<and>
    (\<forall>k\<in>set (map_keys (channels n)). map_find (next_index ls) k = Some (GetLastLogIndex n + 1) \<and>
       map_find (match_index ls) k = Some 0) \<and>
    sent n' = sent n @ map (\<lambda>(k, c). (c, my_id n, AEReq
      \<lparr>ae_leader_term = GetCurrentTerm n, ae_leader_id = my_id n,
       prev_log_index = GetLastLogIndex n, prev_log_term = leader_term (last (GetLog n)),
       entries = [], leader_commit = GetCommitIndex n\<rparr>)) (channels n)"
proof -
  obtain ls where ls: "leader_state (leading n) = Some ls" using leading_leader_state by blast
  show ?thesis
    unfolding BecomeLeader_value[OF assms]
    using leading_index[OF ls] ls by (simp add: sent_posted split_beta heartbeat_of_def)
qed

lemma leadership_witness:
  "\<exists>n'. BecomeLeader sample_node = Inr n' \<and> role n' = kLeader \<and> length (sent n') = 3"
  using leadership[OF sample_node_ok(1)]
  by (auto simp: sample_node_acc) (simp add: sample_node_def make_Node_def sample_channels_def Let_def)

text \<open>A round of \<open>AppendEntries\<close> by a leader whose \<open>next_index\<close> values lie in the log: every
  channel gets exactly the entries from its \<open>next_index\<close> on, with the entry before them as the
  previous entry, and the round does not fault.\<close>

lemma append_round:
  assumes "node_ok n" and "indices_ok n" and "role n = kLeader"
  shows "\<exists>n'. SendAppendEntriesToAll True n = Inr n' \<and> node_state n' = node_state n \<and>
    leader_state n' = leader_state n \<and>
    sent n' = sent n @ map (\<lambda>(k, c). (c, my_id n, AEReq
      \<lparr>ae_leader_term = GetCurrentTerm n, ae_leader_id = my_id n,
       prev_log_index = next_for n k - 1,
       prev_log_term = leader_term (GetLog n ! (unat (next_for n k) - 1)),
       entries = drop (unat (next_for n k)) (GetLog n), leader_commit = GetCommitIndex n\<rparr>)) (channels n)"
proof -
  have "unat (next_for n k - 1) = unat (next_for n k) - 1" if "(k, c) \<in> set (channels n)" for k c
  proof -
    obtain ls where ls: "leader_state n = Some ls"
      using assms by (auto simp: node_ok_def role_ok_def)
    have "k \<in> set (map_keys (channels n))" using that by (force simp: map_keys_def)
    then have "next_for n k \<noteq> 0"
      using assms(2) ls by (force simp: indices_ok_def next_for_def unat_gt_0)
    then show ?thesis by (rule unat_minus1)
  qed
  then show ?thesis
    unfolding SendAppendEntriesToAll_value[OF assms]
    by (auto simp: sent_posted send_round_def append_request_for_def)
qed

lemma append_round_witness:
  "\<exists>n'. SendAppendEntriesToAll True sample_leader = Inr n' \<and> sent n' =
    [(TrivialMessageSender 1, 1, AEReq \<lparr>ae_leader_term = 2, ae_leader_id = 1, prev_log_index = 1,
        prev_log_term = 2, entries = [], leader_commit = 0\<rparr>),
     (OtherNodesMessageSender ''b'', 1, AEReq \<lparr>ae_leader_term = 2, ae_leader_id = 1,
        prev_log_index = 1, prev_log_term = 2, entries = [], leader_commit = 0\<rparr>),
     (OtherNodesMessageSender ''c'', 1, AEReq \<lparr>ae_leader_term = 2, ae_leader_id = 1,
        prev_log_index = 0, prev_log_term = 0, entries = [LogItem ''k v'' 2], leader_commit = 0\<rparr>)]"
  using append_round[OF sample_leader_ok(1,3)]
  by (auto simp: sample_leader_acc sample_channels_def next_for_def map_find_Cons)

text \<open>C8: Counting votes. A candidate becomes leader at a vote response of its own term exactly when
  the response grants the vote for its current term and more than half of the nodes are then among its
  voters; the voters are a set, so a repeated vote counts once. The term and the log stay.\<close>

theorem vote_tally:
  assumes "node_ok n" and "role n = kCandidate" and "candidate_state n = Some cs"
    and "rvr_current_term resp \<le> GetCurrentTerm n"
    and "card (set (votes cs)) < 2 ^ 62 - 1" and "unat (total_nodes n) < 2 ^ 62"
  shows "\<exists>n'. HandleRequestVoteResponse resp s n = Inr n' \<and>
    (role n' = kLeader \<longleftrightarrow> vote_granted resp \<and> rvr_candidate_term resp = GetCurrentTerm n \<and>
       unat (total_nodes n) < 2 * card (insert s (set (votes cs)))) \<and>
    (role n' \<noteq> kLeader \<longrightarrow> (\<exists>vs. candidate_state n' = Some \<lparr>votes = vs\<rparr> \<and> set vs =
       (if vote_granted resp \<and> rvr_candidate_term resp = GetCurrentTerm n
        then insert s (set (votes cs)) else set (votes cs)))) \<and>
    GetCurrentTerm n' = GetCurrentTerm n \<and> GetLog n' = GetLog n"
proof -
  let ?vs = "set_insert s (votes cs)"
  let ?m = "n\<lparr>candidate_state := Some (cs\<lparr>votes := ?vs\<rparr>)\<rparr>"
  have "set_ok (votes cs)" using assms(1,3) by (simp add: node_ok_def candidate_ok_def)
  then have len: "length ?vs = card (insert s (set (votes cs)))"
    by (simp add: set_ok_length)
  have small: "length ?vs < 2 ^ 62"
    using assms(5) card_insert_le_m1[of "card (set (votes cs)) + 1" "set (votes cs)" s]
    unfolding len by simp
  have double: "unat (of_nat (length ?vs) * 2 :: u64) = length ?vs * 2"
    using small by (simp add: unat_word_ariths unat_of_nat_small)
  have total: "unat (total_nodes n + 1) = unat (total_nodes n) + 1"
    using assms(6) by (subst unat_plus_small) auto
  have maj: "of_nat (length ?vs) * 2 \<ge> total_nodes n + 1 \<longleftrightarrow>
      unat (total_nodes n) < 2 * card (insert s (set (votes cs)))"
    using double total unfolding word_le_nat_alt len[symmetric] by auto
  have ok: "node_ok ?m"
    using assms(1,3) by (auto simp: ok_defs node_simps)
  have acc: "GetCurrentTerm ?m = GetCurrentTerm n" "GetLog ?m = GetLog n"
    by (simp_all add: node_simps)
  have fresh: "\<not> GetCurrentTerm n < rvr_current_term resp" using assms(4) by simp
  have cs: "\<exists>vs. cs = \<lparr>votes = vs\<rparr> \<and> set vs = set (votes cs)"
    by (cases cs) simp
  show ?thesis
    using fresh assms(2,3) cs
    by (auto simp: HandleRequestVoteResponse_def GetRole_def Let_def maj BecomeLeader_value[OF ok] acc)
qed

definition sample_candidate :: Node where
  "sample_candidate = sample_node\<lparr>role := kCandidate, candidate_state := Some \<lparr>votes = [1]\<rparr>\<rparr>"

lemma vote_tally_witness:
  "\<exists>n'. HandleRequestVoteResponse \<lparr>rvr_current_term = 0, vote_granted = True, rvr_candidate_term = 0\<rparr>
      3 sample_candidate = Inr n' \<and> role n' = kLeader"
proof -
  have "node_ok sample_candidate"
    using sample_node_ok(1) by (simp add: sample_candidate_def sample_node_acc ok_defs node_simps set_ok_def)
  moreover have "GetCurrentTerm sample_candidate = 0" "total_nodes sample_candidate = 3"
    by (simp_all add: sample_candidate_def node_simps sample_node_def make_Node_def
        sample_channels_def Let_def)
  moreover have "candidate_state sample_candidate = Some \<lparr>votes = [1]\<rparr>"
    "role sample_candidate = kCandidate"
    by (simp_all add: sample_candidate_def)
  ultimately show ?thesis
    using vote_tally[of sample_candidate "\<lparr>votes = [1]\<rparr>"
      "\<lparr>rvr_current_term = 0, vote_granted = True, rvr_candidate_term = 0\<rparr>" 3] by auto
qed

section \<open>Replication\<close>

text \<open>C7: The loop of the \<open>AppendEntries\<close> handler (index arithmetic on 64 bits, element by element,
  with \<open>resize\<close> and \<open>push_back\<close>) computes the merge: the log itself when it holds the entries already,
  otherwise its first \<open>prev + 1\<close> entries followed by the entries of the request.\<close>

theorem append_loop_is_merge:
  assumes "unat prev < length log" and "length log \<le> max_log_size"
    and "unat prev + length es < max_log_size"
  shows "append_entries prev 0 es log =
    Inr (if take (length es) (drop (Suc (unat prev)) log) = es then log
         else take (Suc (unat prev)) log @ es)"
  using append_entries_merge[OF assms] by (simp only: merge_entries_def)

lemma append_loop_is_merge_witness:
  "append_entries 0 0 [LogItem ''b'' 2] [LogItem [] 0, LogItem ''a'' 1, LogItem ''c'' 1] =
    Inr [LogItem [] 0, LogItem ''b'' 2]"
  using append_loop_is_merge[of 0 "[LogItem [] 0, LogItem ''a'' 1, LogItem ''c'' 1]" "[LogItem ''b'' 2]"]
  by (simp add: max_log_size_value)

text \<open>C6: Replication of a log. When a follower accepts a request whose entries are a piece of the
  leader's log \<open>l\<close>, and it agrees with \<open>l\<close> up to the previous entry, then afterwards it agrees with
  \<open>l\<close> up to the last new entry, which is the index its reply reports.\<close>

theorem accepted_entries_agree:
  assumes "node_ok n" and "promises_ok n"
    and "HandleAppendEntriesRequest req n = Inr (resp, n')" and "success resp"
    and "take (Suc p) (GetLog n) = take (Suc p) l" and "p < length l"
    and "p = unat (prev_log_index req)" and "entries req = take k (drop (Suc p) l)"
    and "p + length (entries req) < max_log_size"
  shows "\<exists>until. matched_until resp = Some until \<and>
    unat until = p + length (entries req) \<and>
    take (Suc (unat until)) (GetLog n') = take (Suc (unat until)) l"
proof -
  note facts = append_request_success[OF assms(1-4,7,9)]
  have "take (Suc p + length (entries req)) (merge_entries p (entries req) (GetLog n)) =
      take (Suc p + length (entries req)) l"
    by (rule merge_agrees[OF facts(2) assms(5,6,8)])
  then show ?thesis using facts by simp
qed

lemma accepted_entries_agree_witness:
  "\<exists>resp n'. HandleAppendEntriesRequest sample_request sample_node = Inr (resp, n') \<and>
    take 2 (GetLog n') = [LogItem [] 0, LogItem ''k v'' 1]"
proof -
  let ?l = "[LogItem [] 0, LogItem ''k v'' 1, LogItem ''x'' 2]"
  obtain resp n' where "HandleAppendEntriesRequest sample_request sample_node = Inr (resp, n')"
    "success resp"
    using append_request_run[of sample_node sample_request] sample_node_ok
    by (auto simp: sample_request_def sample_node_acc max_log_size_value)
  with accepted_entries_agree[OF sample_node_ok(1,2) this, of 0 ?l 1] show ?thesis
    by (auto simp: sample_request_def sample_node_acc max_log_size_value numeral_2_eq_2)
qed

text \<open>Retransmission is harmless. Handling the same accepted request a second time succeeds with
  the same reply and leaves the log, the term and the commit index as they are.\<close>

lemma append_request_idempotent:
  assumes "node_ok n" and "promises_ok n"
    and "HandleAppendEntriesRequest req n = Inr (resp, n')" and "success resp"
    and "unat (prev_log_index req) + length (entries req) < max_log_size"
  shows "\<exists>n''. HandleAppendEntriesRequest req n' = Inr (resp, n'') \<and> GetLog n'' = GetLog n' \<and>
    GetCurrentTerm n'' = GetCurrentTerm n' \<and> GetCommitIndex n'' = GetCommitIndex n'"
proof -
  let ?p = "unat (prev_log_index req)"
  note a = append_request_success[OF assms(1-4) refl assms(5)]
  have ok: "node_ok n'"
    using HandleAppendEntriesRequest_ok[OF assms(1), of req] assms(3,5) by simp
  have prev: "?p < length (GetLog n')" using merge_length[OF a(2), of "entries req"] a(4) by simp
  have "take (Suc ?p) (GetLog n') = take (Suc ?p) (GetLog n)"
    using merge_keeps_prefix[OF a(2)] a(4) by simp
  then have "GetLog n' ! ?p = GetLog n ! ?p" by (metis lessI nth_take)
  then have "leader_term (GetLog n' ! ?p) = prev_log_term req" using a(3) by simp
  then obtain resp' n'' where run: "HandleAppendEntriesRequest req n' = Inr (resp', n'')" "success resp'"
    using append_request_run[OF ok a(8) _ prev _ assms(5)] a(7) by auto
  note b = append_request_success[OF ok a(8) run refl assms(5)]
  have "GetLog n'' = GetLog n'"
    using merge_idem[OF a(2), of "entries req"] a(4) b(4) by simp
  moreover have "GetCommitIndex n'' = GetCommitIndex n'"
    using a(9) b(9) by (auto simp: min_def)
  ultimately show ?thesis using a b run(1) by simp
qed

lemma append_request_idempotent_witness:
  "\<exists>resp n' n''. HandleAppendEntriesRequest sample_request sample_node = Inr (resp, n') \<and>
    HandleAppendEntriesRequest sample_request n' = Inr (resp, n'') \<and> GetLog n'' = GetLog n'"
proof -
  obtain resp n' where run: "HandleAppendEntriesRequest sample_request sample_node = Inr (resp, n')"
    "success resp"
    using append_request_run[of sample_node sample_request] sample_node_ok
    by (auto simp: sample_request_def sample_node_acc max_log_size_value)
  with append_request_idempotent[OF sample_node_ok(1,2) run] show ?thesis
    by (auto simp: sample_request_def max_log_size_value)
qed

text \<open>What a leader learns from a reply. A success raises the follower's \<open>match_index\<close> to the
  reported index, never lowering it, and keeps \<open>next_index\<close> above it; a failure moves \<open>next_index\<close>
  back by one (on 64 bits) and leaves \<open>match_index\<close> alone. No other follower's entry changes.\<close>

lemma append_response_progress:
  assumes "node_ok n" and "leader_state n = Some ls" and "msg_ok (AEResp resp)"
    and "aer_current_term resp \<le> GetCurrentTerm n"
    and "k \<in> set (map_keys (channels n))"
  shows "\<exists>n' ls' m x. HandleAppendEntriesResponse resp k n = Inr n' \<and> leader_state n' = Some ls' \<and>
    map_find (match_index ls) k = Some m \<and> map_find (next_index ls) k = Some x \<and>
    map_find (match_index ls') k =
      Some (if success resp then max m (the (matched_until resp)) else m) \<and>
    map_find (next_index ls') k =
      Some (if success resp then max x (max m (the (matched_until resp)) + 1) else x - 1) \<and>
    (\<forall>j. j \<noteq> k \<longrightarrow> map_find (match_index ls') j = map_find (match_index ls) j \<and>
       map_find (next_index ls') j = map_find (next_index ls) j)"
proof -
  have role: "role n = kLeader" using assms(1,2) by (auto simp: node_ok_def role_ok_def)
  have fresh: "\<not> GetCurrentTerm n < aer_current_term resp" using assms(4) by simp
  have "k \<in> set (map_keys (match_index ls))" "k \<in> set (map_keys (next_index ls))"
    using assms(1,2,5) by (auto simp: node_ok_def leader_ok_def)
  then obtain m x where mx: "map_find (match_index ls) k = Some m" "map_find (next_index ls) k = Some x"
    using map_find_None_iff by (metis not_Some_eq)
  show ?thesis
  proof (cases "success resp")
    case True
    then obtain u where "matched_until resp = Some u" using assms(3) by (auto simp: msg_ok_def)
    then show ?thesis using True fresh role assms(2) mx
      by (simp add: HandleAppendEntriesResponse_def GetRole_def map_subscript_def Let_def)
  next
    case False
    then show ?thesis using fresh role assms(2) mx
      by (simp add: HandleAppendEntriesResponse_def GetRole_def map_subscript_def Let_def)
  qed
qed

lemma append_response_progress_witness:
  "\<exists>n' ls'. HandleAppendEntriesResponse
      \<lparr>aer_current_term = 2, success = True, matched_until = Some 1\<rparr> 3 sample_leader = Inr n' \<and>
    leader_state n' = Some ls' \<and> map_find (match_index ls') 3 = Some 1 \<and>
    map_find (next_index ls') 3 = Some 2"
proof -
  have "3 \<in> set (map_keys (channels sample_leader))"
    by (simp add: sample_leader_acc sample_channels_def)
  then show ?thesis
    using append_response_progress[OF sample_leader_ok(1) sample_leader_acc(10),
        of "\<lparr>aer_current_term = 2, success = True, matched_until = Some 1\<rparr>" 3]
    by (auto simp: sample_leader_acc msg_ok_def map_find_Cons)
qed

section \<open>Runs\<close>

text \<open>C1: Runs of a node. From the constructor, through any sequence of ticks, client commands,
  queries, and well-formed messages from members of the cluster, the type invariant of the class holds
  in every state, every pending promise is held in exactly one place, and the only faults possible are
  a vector beyond \<open>max_size()\<close> and an index outside the log: no exception from \<open>set_value\<close> on a
  satisfied promise, no \<open>out_of_range\<close>, no access to an empty optional.\<close>

theorem node_runs_safe:
  assumes "map_ok chan"
    and "\<forall>e\<in>set es. legal_event (map_keys (map_insert i (TrivialMessageSender i) chan)) e"
  shows "post {LengthError, BadIndex} (\<lambda>n. node_ok n \<and> promises_ok n \<and> senders_known n)
    (fold_res node_step es (make_Node i chan timer))"
proof -
  let ?n = "make_Node i chan timer"
  have "fst (snd (ident ?n)) = map_insert i (TrivialMessageSender i) chan"
    by (simp add: ident_def make_Node_def Let_def)
  then have "\<forall>e\<in>set es. legal_event (map_keys (fst (snd (ident ?n)))) e" using assms(2) by simp
  from node_machine.run_good[OF fine_make_Node[OF assms(1)] this] show ?thesis
    by (rule post_weaken) (simp add: fine_def steady_def)
qed

lemma node_runs_safe_witness:
  "post {LengthError, BadIndex} (\<lambda>n. node_ok n \<and> promises_ok n \<and> senders_known n)
    (fold_res node_step [NCommand ''x'', NMessage 2 (AEReq sample_request), NTick 9, NQuery 0 5, NTick 1]
      sample_node)"
  unfolding sample_node_def
  by (rule node_runs_safe)
     (simp_all add: sample_channels_def msg_ok_def sample_request_def max_log_size_value)

section \<open>The election timer\<close>

lemma polled_timer:
  "expires_at (((\<lambda>t. snd (IsExpired t)) ^^ k) t) = expires_at t \<and>
   clock (((\<lambda>t. snd (IsExpired t)) ^^ k) t) = clock t \<and>
   clock_reads (((\<lambda>t. snd (IsExpired t)) ^^ k) t) = clock_reads t + 2 * k"
  by (induction k) (simp_all add: IsExpired_simps)

text \<open>C11: The election timeout. \<open>Reset\<close> sets the deadline between \<open>min_ms\<close> and \<open>max_ms\<close> after the
  clock reading; afterwards each poll reports expiry exactly when its clock reading is past that
  deadline, whatever was polled before, and once a poll reports expiry every later one does.\<close>

theorem election_timeout_window:
  assumes "timer_ok t"
  shows "min_ms t \<le> expires_at (Reset t) - clock t (clock_reads t) \<and>
    expires_at (Reset t) - clock t (clock_reads t) \<le> max_ms t \<and>
    (\<forall>k. fst (IsExpired (((\<lambda>t. snd (IsExpired t)) ^^ k) (Reset t))) \<longleftrightarrow>
       expires_at (Reset t) < clock t (clock_reads t + 2 + 2 * k)) \<and>
    (\<forall>j k. j \<le> k \<longrightarrow> fst (IsExpired (((\<lambda>t. snd (IsExpired t)) ^^ j) (Reset t))) \<longrightarrow>
       fst (IsExpired (((\<lambda>t. snd (IsExpired t)) ^^ k) (Reset t))))"
proof -
  let ?poll = "\<lambda>t. snd (IsExpired t)"
  have "clock_reads t + 2 + 2 * k = Suc (Suc (clock_reads t) + 2 * k)" for k by simp
  then have at: "fst (IsExpired ((?poll ^^ k) (Reset t))) \<longleftrightarrow>
      expires_at (Reset t) < clock t (clock_reads t + 2 + 2 * k)" for k
    using polled_timer[of k "Reset t"] by (simp add: IsExpired_simps Reset_simps)
  have "fst (IsExpired ((?poll ^^ k) (Reset t)))"
    if "j \<le> k" "fst (IsExpired ((?poll ^^ j) (Reset t)))" for j k
  proof -
    have ok: "timer_ok ((?poll ^^ i) (Reset t))" for i
      by (induction i) (simp_all add: assms uniform_timer.ok_reset uniform_timer.ok_poll)
    have "(?poll ^^ k) (Reset t) = (?poll ^^ (k - j)) ((?poll ^^ j) (Reset t))"
      using that(1) by (simp add: funpow_add[symmetric, unfolded comp_def fun_eq_iff])
    then show ?thesis using uniform_timer.expiry_stable_polls[OF ok that(2)] by simp
  qed
  then show ?thesis
    using assms unfolding at by (auto simp: timer_ok_def Reset_simps)
qed

lemma election_timeout_window_witness:
  "fst (IsExpired (((\<lambda>t. snd (IsExpired t)) ^^ 3500) (Reset sample_timer)))"
proof -
  have "timer_ok sample_timer"
    by (simp add: timer_ok_def sample_timer_def make_UniformTimer_def mono_def)
  from election_timeout_window[OF this] show ?thesis
    by (simp add: sample_timer_def make_UniformTimer_def Reset_simps)
qed

end
