(* ===== verification/Streams.thy ===== *)
theory Streams
  imports Prelude
begin

text \<open>
  Text in and out of the program: white space, decimal numbers, and the extraction of words and numbers
  from a string stream. \<open>extracted\<close> is the outcome of one \<open>>>\<close>: \<open>Extracted v rest\<close> is a success;
  \<open>BadInput v\<close> a failure that stored \<open>v\<close>; \<open>NoInput\<close> a stream that was at its end (or had failed
  before), which leaves the variable as it was.
\<close>

section \<open>White space\<close>

text \<open>\<open>isspace\<close> of the classic locale.\<close>

definition is_space :: "char \<Rightarrow> bool" where
  "is_space c \<longleftrightarrow> c \<in> {CHR 0x20, CHR 0x09, CHR 0x0A, CHR 0x0B, CHR 0x0C, CHR 0x0D}"

lemma is_space_blank [simp]: "is_space CHR '' ''"
  by (simp add: is_space_def)

section \<open>Decimal numbers\<close>

text \<open>\<open>std::to_string\<close> and \<open><<\<close> of a non-negative number.\<close>

fun decimal_digits :: "nat \<Rightarrow> string" where
  "decimal_digits n =
     (if n < 10 then [char_of (48 + n)] else decimal_digits (n div 10) @ [char_of (48 + n mod 10)])"

declare decimal_digits.simps [simp del]

lemma decimal_digits_length: "n < 10 ^ Suc k \<Longrightarrow> length (decimal_digits n) \<le> Suc k"
proof (induction k arbitrary: n)
  case 0
  then show ?case by (subst decimal_digits.simps) simp
next
  case (Suc k)
  have "length (decimal_digits (n div 10)) \<le> Suc k" using Suc by simp
  then show ?case by (subst decimal_digits.simps) simp
qed

definition is_digit :: "char \<Rightarrow> bool" where
  "is_digit c \<longleftrightarrow> 48 \<le> (of_char c :: nat) \<and> (of_char c :: nat) \<le> 57"

definition digits_value :: "string \<Rightarrow> nat" where
  "digits_value s = foldl (\<lambda>a c. 10 * a + (of_char c - 48)) 0 s"

lemma digits_value_decimal [simp]: "digits_value (decimal_digits n) = n"
proof (induction n rule: decimal_digits.induct)
  case (1 n)
  have digit: "of_char (char_of (48 + k :: nat)) - 48 = k" if "k < 10" for k :: nat
    using that by simp
  show ?case
  proof (cases "n < 10")
    case True
    then show ?thesis by (subst decimal_digits.simps) (simp add: digits_value_def digit)
  next
    case False
    have "foldl (\<lambda>a c. 10 * a + (of_char c - 48)) 0 (decimal_digits (n div 10)) = n div 10"
      using 1[OF False] by (simp add: digits_value_def)
    then show ?thesis
      using False by (subst decimal_digits.simps) (simp add: digits_value_def digit)
  qed
qed

lemma decimal_digits_shape: "decimal_digits n \<noteq> [] \<and> (\<forall>c\<in>set (decimal_digits n). is_digit c)"
proof (induction n rule: decimal_digits.induct)
  case (1 n)
  have "is_digit (char_of (48 + k))" if "k < 10" for k :: nat
    using that by (simp add: is_digit_def)
  then show ?case
    using 1 by (subst (1 2) decimal_digits.simps) (auto simp: decimal_digits.simps[of n])
qed

lemma digit_no_space: "is_digit c \<Longrightarrow> \<not> is_space c"
  by (auto simp: is_digit_def is_space_def)

lemma digit_no_sign: "is_digit c \<Longrightarrow> c \<noteq> CHR ''-'' \<and> c \<noteq> CHR ''+''"
  by (auto simp: is_digit_def)

section \<open>Extraction\<close>

datatype 'a extracted =
    Extracted 'a string
  | BadInput 'a
  | NoInput

text \<open>An optional sign, then the longest run of digits: \<open>(negative, digits, rest)\<close>.\<close>

definition split_number :: "string \<Rightarrow> bool \<times> string \<times> string" where
  "split_number s =
     (let neg = (take 1 s = ''-'');
          s = (if take 1 s \<in> {''-'', ''+''} then drop 1 s else s)
      in (neg, takeWhile is_digit s, dropWhile is_digit s))"

text \<open>
  \<open>>>\<close> into an unsigned integer: a number above the maximum stores the maximum and fails; a negative
  one is taken modulo the range; no digits at all store 0 and fail.
\<close>

definition scan_unsigned :: "string \<Rightarrow> ('w::len) word extracted" where
  "scan_unsigned s =
     (let s = dropWhile is_space s in
      if s = [] then NoInput
      else
        let (neg, ds, rest) = split_number s in
        if ds = [] then BadInput 0
        else if digits_value ds \<ge> 2 ^ LENGTH('w) then BadInput (- 1)
        else Extracted (if neg then - of_nat (digits_value ds) else of_nat (digits_value ds)) rest)"

lemma split_number_digits:
  assumes "ds \<noteq> []" and "\<forall>c\<in>set ds. is_digit c" and "rest = [] \<or> \<not> is_digit (hd rest)"
  shows "split_number (ds @ rest) = (False, ds, rest)"
proof -
  obtain d ds' where d: "ds = d # ds'" "is_digit d" using assms(1,2) by (cases ds) auto
  have "takeWhile is_digit (ds @ rest) = ds" "dropWhile is_digit (ds @ rest) = rest"
    using assms(2,3) by (cases rest; simp)+
  then show ?thesis using digit_no_sign[OF d(2)] by (simp add: split_number_def d(1))
qed

lemma scan_unsigned_decimal:
  assumes "n < 2 ^ LENGTH('w::len)" and "rest = [] \<or> \<not> is_digit (hd rest)" and "is_space c"
  shows "(scan_unsigned (decimal_digits n @ rest) :: 'w word extracted) = Extracted (of_nat n) rest"
    and "(scan_unsigned (c # decimal_digits n @ rest) :: 'w word extracted) = Extracted (of_nat n) rest"
proof -
  obtain d ds where d: "decimal_digits n = d # ds" "is_digit d"
    using decimal_digits_shape[of n] by (cases "decimal_digits n") auto
  have "dropWhile is_space (decimal_digits n @ rest) = decimal_digits n @ rest"
    using d digit_no_space by simp
  moreover have "split_number (decimal_digits n @ rest) = (False, decimal_digits n, rest)"
    using decimal_digits_shape[of n] assms(2) by (intro split_number_digits) auto
  ultimately show *: "(scan_unsigned (decimal_digits n @ rest) :: 'w word extracted) =
      Extracted (of_nat n) rest"
    using assms(1) decimal_digits_shape[of n] by (simp add: scan_unsigned_def)
  then show "(scan_unsigned (c # decimal_digits n @ rest) :: 'w word extracted) =
      Extracted (of_nat n) rest"
    using assms(3) by (simp add: scan_unsigned_def)
qed

text \<open>
  A sequence of \<open>>>\<close>: the stream is \<open>Some\<close> of the rest, or \<open>None\<close> once an extraction has failed; \<open>old\<close> is
  the value of the variable before.
\<close>

definition stream_get :: "(string \<Rightarrow> 'a extracted) \<Rightarrow> 'a \<Rightarrow> string option \<Rightarrow> 'a \<times> string option" where
  "stream_get scan old stream =
     (case stream of
        None \<Rightarrow> (old, None)
      | Some s \<Rightarrow>
          (case scan s of
             Extracted v rest \<Rightarrow> (v, Some rest)
           | BadInput v \<Rightarrow> (v, None)
           | NoInput \<Rightarrow> (old, None)))"

text \<open>\<open><<\<close> of an unsigned number.\<close>

definition print_unsigned :: "('w::len) word \<Rightarrow> string" where
  "print_unsigned w = decimal_digits (unat w)"

lemma get_unsigned:
  fixes w :: "'w::len word"
  assumes "rest = [] \<or> is_space (hd rest)"
  shows "stream_get scan_unsigned old (Some (print_unsigned w @ rest)) = (w, Some rest)"
    and "stream_get scan_unsigned old (Some ('' '' @ print_unsigned w @ rest)) = (w, Some rest)"
proof -
  have "rest = [] \<or> \<not> is_digit (hd rest)" using assms digit_no_space by blast
  moreover have "unat w < 2 ^ LENGTH('w)" by (rule unsigned_less)
  ultimately show "stream_get scan_unsigned old (Some (print_unsigned w @ rest)) = (w, Some rest)"
    "stream_get scan_unsigned old (Some ('' '' @ print_unsigned w @ rest)) = (w, Some rest)"
    using scan_unsigned_decimal[of "unat w" rest "CHR '' ''", where 'w = 'w]
    by (simp_all add: stream_get_def print_unsigned_def)
qed

text \<open>\<open>std::stoi\<close>: what follows the number is ignored.\<close>

datatype stoi_fault = InvalidArgument | StoiOutOfRange

definition stoi :: "string \<Rightarrow> stoi_fault + int" where
  "stoi s =
     (let (neg, ds, rest) = split_number (dropWhile is_space s);
          v = (if neg then - int (digits_value ds) else int (digits_value ds))
      in if ds = [] then Inl InvalidArgument
         else if v < - (2 ^ 31) \<or> 2 ^ 31 \<le> v then Inl StoiOutOfRange
         else Inr v)"

lemma stoi_decimal:
  assumes "n < 2 ^ 31"
  shows "stoi (decimal_digits n) = Inr (int n)"
proof -
  obtain d ds where d: "decimal_digits n = d # ds" "is_digit d"
    using decimal_digits_shape[of n] by (cases "decimal_digits n") auto
  have "dropWhile is_space (decimal_digits n) = decimal_digits n"
    using d digit_no_space by simp
  moreover have "split_number (decimal_digits n) = (False, decimal_digits n, [])"
    using decimal_digits_shape[of n] split_number_digits[of "decimal_digits n" "[]"] by simp
  ultimately show ?thesis using assms decimal_digits_shape[of n] by (simp add: stoi_def)
qed

end
