(* ===== verification/Storage.thy ===== *)
theory Storage
  imports StdMap "HOL-Library.List_Lexorder" "HOL-Library.Char_ord" Streams
begin

text \<open>
  \<open>hw2/src/common/storage.h\<close> and \<open>query.h\<close>: the class template \<open>Storage\<close>, an ordered map with \<open>Get\<close>,
  \<open>Set\<close> and \<open>ToString\<close>, the latter at the instance \<open>Storage<Key, Value>\<close> with both types
  \<open>std::string\<close>. Then the extraction operator \<open>>>\<close> of a \<open>std::stringstream\<close> into a \<open>std::string\<close>,
  which the key-value store uses to take a command apart.
\<close>

type_synonym Key = string
type_synonym Value = string

section \<open>The class\<close>

record ('k, 'v) Storage =
  storage_values :: "('k, 'v) std_map"

definition Get :: "'k \<Rightarrow> ('k, 'v) Storage \<Rightarrow> 'v option" where
  "Get k s = map_find (storage_values s) k"

definition Set :: "'k::linorder \<Rightarrow> 'v \<Rightarrow> ('k, 'v) Storage \<Rightarrow> ('k, 'v) Storage" where
  "Set k v s = s\<lparr>storage_values := map_insert k v (storage_values s)\<rparr>"

definition empty_storage :: "('k, 'v) Storage" where
  "empty_storage = \<lparr>storage_values = []\<rparr>"

definition ToString :: "(Key, Value) Storage \<Rightarrow> string" where
  "ToString s = ''{'' @
     concat (map (\<lambda>(key, v). [CHR 0x0A] @ ''  '' @ key @ '': '' @ v) (storage_values s)) @
     [CHR 0x0A] @ ''}''"

definition storage_ok :: "('k::linorder, 'v) Storage \<Rightarrow> bool" where
  "storage_ok s = map_ok (storage_values s)"

section \<open>The interface\<close>

text \<open>What the key-value service relies on.\<close>

locale key_value_store =
  fixes empty :: "'s"
    and get :: "'k \<Rightarrow> 's \<Rightarrow> 'v option"
    and put :: "'k \<Rightarrow> 'v \<Rightarrow> 's \<Rightarrow> 's"
    and ok :: "'s \<Rightarrow> bool"
  assumes ok_empty: "ok empty"
    and ok_put: "ok s \<Longrightarrow> ok (put k v s)"
    and get_empty: "get k empty = None"
    and get_put: "ok s \<Longrightarrow> get k' (put k v s) = (if k' = k then Some v else get k' s)"
begin

definition replay :: "('k \<times> 'v) list \<Rightarrow> 's \<Rightarrow> 's" where
  "replay kvs s = fold (\<lambda>(k, v). put k v) kvs s"

lemma replay_append: "replay (xs @ ys) s = replay ys (replay xs s)"
  by (simp add: replay_def)

lemma ok_replay: "ok s \<Longrightarrow> ok (replay kvs s)"
  unfolding replay_def by (rule fold_invariant_on) (auto intro: ok_put)

text \<open>After a list of writes a key has the value of its last write.\<close>

lemma get_replay: "ok s \<Longrightarrow>
  get k (replay kvs s) = (case map_of (rev kvs) k of Some v \<Rightarrow> Some v | None \<Rightarrow> get k s)"
proof (induction kvs arbitrary: s)
  case Nil
  then show ?case by (simp add: replay_def)
next
  case (Cons kv kvs)
  obtain a b where kv: "kv = (a, b)" by (cases kv)
  have "get k (replay (kv # kvs) s) = get k (replay kvs (put a b s))"
    by (simp add: replay_def kv)
  then show ?case
    using Cons.IH[OF ok_put[OF Cons.prems, of a b]] get_put[OF Cons.prems, of k a b]
    by (auto simp: kv map_of_append_case split: option.splits)
qed

text \<open>Two lists of writes whose last writes agree are indistinguishable to readers.\<close>

lemma get_replay_cong:
  "ok s \<Longrightarrow> map_of (rev xs) = map_of (rev ys) \<Longrightarrow> get k (replay xs s) = get k (replay ys s)"
  by (simp add: get_replay)

end

lemma storage_ok_empty: "storage_ok empty_storage"
  by (simp add: storage_ok_def empty_storage_def)

interpretation storage: key_value_store empty_storage Get Set storage_ok
  by unfold_locales
    (auto simp: storage_ok_def empty_storage_def Get_def Set_def)

section \<open>Reading a token from a \<open>std::stringstream\<close>\<close>

text \<open>
  \<open>extract_token\<close> is \<open>>>\<close> into an empty string: white space is
  skipped, then characters up to the next white space or the end are stored; when nothing is left
  the stream fails and the string stays empty.
\<close>

definition extract_token :: "string \<Rightarrow> string \<times> string" where
  "extract_token s =
     (let s = dropWhile is_space s
      in (takeWhile (\<lambda>c. \<not> is_space c) s, dropWhile (\<lambda>c. \<not> is_space c) s))"

text \<open>\<open>std::stringstream c(command); c >> key >> value;\<close>\<close>

definition parse_command :: "string \<Rightarrow> Key \<times> Value" where
  "parse_command c =
     (let (key, rest) = extract_token c;
          (v, rest) = extract_token rest
      in (key, v))"

text \<open>\<open>request->key() + " " + request->value()\<close>\<close>

definition make_command :: "Key \<Rightarrow> Value \<Rightarrow> string" where
  "make_command k v = k @ '' '' @ v"

text \<open>A word: what \<open>>>\<close> reads back as it is.\<close>

definition is_word :: "string \<Rightarrow> bool" where
  "is_word s \<longleftrightarrow> (\<forall>c\<in>set s. \<not> is_space c)"

lemma extract_word:
  assumes "is_word k" and "k \<noteq> []" and "is_space c"
  shows "extract_token (k @ c # v) = (k, c # v)"
proof -
  have nosp: "\<forall>c\<in>set k. \<not> is_space c" using assms(1) by (simp add: is_word_def)
  then have "dropWhile is_space (k @ c # v) = k @ c # v"
    using assms(2) by (cases k) auto
  then show ?thesis
    using nosp assms(3) by (simp add: extract_token_def takeWhile_append dropWhile_append)
qed

lemma extract_skips: "is_space c \<Longrightarrow> extract_token (c # v) = extract_token v"
  by (simp add: extract_token_def)

lemma extract_last:
  assumes "is_word v"
  shows "fst (extract_token v) = v"
proof -
  have nosp: "\<forall>c\<in>set v. \<not> is_space c" using assms by (simp add: is_word_def)
  then have "dropWhile is_space v = v" by (cases v) auto
  then show ?thesis using nosp by (simp add: extract_token_def takeWhile_eq_all_conv)
qed

lemma parse_two_words:
  assumes "is_word k" and "k \<noteq> []" and "is_space c"
  shows "parse_command (k @ c # v) = (k, fst (extract_token v))"
  by (simp add: parse_command_def extract_word[OF assms] extract_skips[OF assms(3)] split_beta)

lemma parse_make_command:
  assumes "is_word k" and "k \<noteq> []" and "is_word v"
  shows "parse_command (make_command k v) = (k, v)"
  using parse_two_words[OF assms(1,2) is_space_blank, of v] extract_last[OF assms(3)]
  by (simp add: make_command_def)

text \<open>Every part that is read back is a word.\<close>

lemma parse_command_words: "is_word (fst (parse_command c)) \<and> is_word (snd (parse_command c))"
  by (auto simp: parse_command_def extract_token_def is_word_def Let_def dest: set_takeWhileD)

end
