(* ===== verification/Evolve.thy ===== *)
theory Evolve
  imports TickSafe
begin

text \<open>
  Two relations between a node before and after a step that every handler satisfies, once the queries
  of the tick are answered: \<open>evolves\<close> (the configuration, the queries and the count of promises stay,
  the history of sent messages only grows) and \<open>term_up\<close> (the term never falls; the increment of
  \<open>BecomeCandidate\<close>, which can wrap around, is not covered). Both are proved with the rules of
  \<open>run_relation\<close>.
\<close>

definition evolves :: "Node \<Rightarrow> Node \<Rightarrow> bool" where
  "evolves n n' \<longleftrightarrow> ident n' = ident n \<and> query_results n' = query_results n \<and>
     get_persistent_commands_reqs n' = get_persistent_commands_reqs n \<and>
     next_promise n' = next_promise n \<and> (\<exists>xs. sent n' = sent n @ xs)"

definition term_up :: "Node \<Rightarrow> Node \<Rightarrow> bool" where
  "term_up n n' \<longleftrightarrow> GetCurrentTerm n \<le> GetCurrentTerm n'"

interpretation evolves_run: run_relation evolves
  by unfold_locales (auto simp: evolves_def)

interpretation term_run: run_relation term_up
  by unfold_locales (auto simp: term_up_def)

text \<open>A step that satisfies both.\<close>

definition advances :: "Node \<Rightarrow> Node \<Rightarrow> bool" where
  "advances n n' \<longleftrightarrow> evolves n n' \<and> term_up n n'"

interpretation advances_run: run_relation advances
  by unfold_locales
    (auto simp: advances_def intro: evolves_run.run_refl term_run.run_refl
      evolves_run.run_trans term_run.run_trans)

lemmas advances_defs = advances_def evolves_def term_up_def ident_def

named_theorems moves \<open>every handler advances the node\<close>

section \<open>Small steps\<close>

lemma advances_same_state:
  "ident n' = ident n \<Longrightarrow> query_results n' = query_results n \<Longrightarrow>
   get_persistent_commands_reqs n' = get_persistent_commands_reqs n \<Longrightarrow>
   next_promise n' = next_promise n \<Longrightarrow> sent n' = sent n \<Longrightarrow>
   GetCurrentTerm n' = GetCurrentTerm n \<Longrightarrow> advances n n'"
  by (simp add: advances_def evolves_def term_up_def)

lemma advances_setters [moves]:
  "advances n (set_log l n)" "advances n (set_voted_for v n)" "advances n (set_commit_index i n)"
  "advances n (ResetElectionTimer n)" "advances n (BecomeFollower n)"
  "advances n (snd (DidElectionTimeoutExpire n))"
  "advances n (n\<lparr>role := r\<rparr>)" "advances n (n\<lparr>candidate_state := cs\<rparr>)"
  "advances n (n\<lparr>leader_state := ls\<rparr>)" "advances n (n\<lparr>command_results := rs\<rparr>)"
  "advances n (n\<lparr>items_to_response := rs'\<rparr>)" "advances n (n\<lparr>incoming_commands := cmds\<rparr>)"
  by (simp_all add: advances_defs node_simps ResetElectionTimer_def BecomeFollower_def
      DidElectionTimeoutExpire_def split: prod.splits)

lemma advances_adopt [moves]:
  "advances n (if GetCurrentTerm n < t then BecomeFollower (set_current_term t n) else n)"
  by (auto simp: advances_defs node_simps ResetElectionTimer_def BecomeFollower_def)

lemma advances_channel_send [moves]: "advances n (channel_send c s m n)"
  by (simp add: advances_defs)

lemma advances_set_command_value [moves]: "on_ok (advances n) (set_command_value p v n)"
  by (auto simp: set_command_value_def post_bind intro!: on_okI advances_setters)

lemma advances_redirect [moves]: "on_ok (advances n) (redirect_commands l n)"
  unfolding redirect_commands_def Let_def
  by (rule advances_run.run_after[OF advances_setters(12)])
    (rule advances_run.run_fold, auto intro: moves)

section \<open>Handlers\<close>

lemma advances_HandleAppendEntriesRequest [moves]:
  "on_ok (\<lambda>(r, n'). advances n n') (HandleAppendEntriesRequest req n)"
proof -
  define n1 where "n1 = ResetElectionTimer (if GetCurrentTerm n < ae_leader_term req
      then BecomeFollower (set_current_term (ae_leader_term req) n) else n)"
  have n1: "advances n n1"
    unfolding n1_def by (rule advances_run.run_trans[OF advances_adopt]) (rule moves)
  define n2 where "n2 = (if GetRole n1 \<noteq> kLeader then redirect_commands (ae_leader_id req) n1
      else Inr n1)"
  have n2: "on_ok (advances n) n2"
    using advances_run.run_after[OF n1 advances_redirect] n1 by (simp add: n2_def)
  have app: "on_ok (\<lambda>_. True) (append_entries prev pos es log)" for prev pos es log
    by (rule on_okI) (rule TrueI)
  have fin: "advances n (if c then set_commit_index i (set_log l m) else set_log l m)"
    if "advances n m" for m l c i
    using that by (auto intro: moves advances_run.run_trans[OF advances_run.run_trans[OF that]]
        advances_run.run_trans)
  show ?thesis
    unfolding HandleAppendEntriesRequest_def Let_def n1_def[symmetric] n2_def[symmetric]
    using n1 fin by (auto simp: read_at_def intro!: post_bindI[OF n2] post_bindI[OF app])
qed

lemma advances_handle_ae_req [moves]: "on_ok (advances n) (handle_ae_req m n)"
  unfolding handle_ae_req_def
  by (cases m) (auto simp: map_at_def split: option.splits
      intro!: advances_run.run_bind_value advances_HandleAppendEntriesRequest moves)

lemma advances_HandleRequestVoteRequest [moves]:
  "on_ok (\<lambda>(r, n'). advances n n') (HandleRequestVoteRequest req n)"
proof -
  define n1 where "n1 = (if GetCurrentTerm n < candidate_term req
      then BecomeFollower (set_current_term (candidate_term req) n) else n)"
  have n1: "advances n n1" unfolding n1_def by (rule moves)
  have "advances n (set_voted_for v n1)" for v
    by (rule advances_run.run_trans[OF n1]) (rule moves)
  then show ?thesis
    unfolding HandleRequestVoteRequest_def Let_def n1_def[symmetric]
    using n1 by (auto simp: post_bind intro!: on_okI)
qed

lemma advances_handle_rv_req [moves]: "on_ok (advances n) (handle_rv_req m n)"
  unfolding handle_rv_req_def
  by (cases m) (auto simp: map_at_def split: option.splits
      intro!: advances_run.run_bind_value advances_HandleRequestVoteRequest moves)

lemma advances_HandleAppendEntriesResponse [moves]:
  "on_ok (advances n) (HandleAppendEntriesResponse r k n)"
proof -
  define n1 where "n1 = (if GetCurrentTerm n < aer_current_term r
      then BecomeFollower (set_current_term (aer_current_term r) n) else n)"
  have n1: "advances n n1" unfolding n1_def by (rule moves)
  then show ?thesis
    unfolding HandleAppendEntriesResponse_def n1_def[symmetric]
    by (auto simp: Let_def split: option.splits intro: advances_run.run_trans moves)
qed

lemma advances_SendAppendEntriesToSomeone [moves]:
  "on_ok (advances n) (SendAppendEntriesToSomeone k hb n)"
proof -
  have "advances n b" if "read_next_index k n = Inr (v, b)" for v b
    using that by (auto simp: read_next_index_def Let_def split: option.splits prod.splits
        intro: moves)
  then show ?thesis
    by (intro on_okI)
       (auto simp: SendAppendEntriesToSomeone_def bind_res_eq_Inr Let_def split: if_splits
         intro: advances_run.run_trans moves advances_run.run_refl)
qed

lemma advances_SendAppendEntriesToAll [moves]: "on_ok (advances n) (SendAppendEntriesToAll hb n)"
  unfolding SendAppendEntriesToAll_def
  by (rule advances_run.run_fold) (auto intro: moves)

lemma advances_BecomeLeader [moves]: "on_ok (advances n) (BecomeLeader n)"
  unfolding BecomeLeader_def Let_def
  by (rule advances_run.run_after[OF _ advances_SendAppendEntriesToAll])
    (simp add: advances_defs node_simps)

lemma advances_HandleRequestVoteResponse [moves]:
  "on_ok (advances n) (HandleRequestVoteResponse r k n)"
proof -
  define n1 where "n1 = (if GetCurrentTerm n < rvr_current_term r
      then BecomeFollower (set_current_term (rvr_current_term r) n) else n)"
  have n1: "advances n n1" unfolding n1_def by (rule moves)
  have "on_ok (advances n) (BecomeLeader (n1\<lparr>candidate_state := cs\<rparr>))" for cs
    by (rule advances_run.run_after[OF advances_run.run_trans[OF n1 advances_setters(8)]])
      (rule moves)
  moreover have "advances n (n1\<lparr>candidate_state := cs\<rparr>)" for cs
    by (rule advances_run.run_trans[OF n1 advances_setters(8)])
  ultimately show ?thesis
    unfolding HandleRequestVoteResponse_def n1_def[symmetric]
    using n1 by (auto simp: Let_def split: option.splits)
qed

lemma advances_HandleIncomingMessages [moves]: "on_ok (advances n) (HandleIncomingMessages n)"
  unfolding HandleIncomingMessages_def Let_def
  by (rule advances_run.run_after[rotated], intro advances_run.run_bind)
    (auto intro!: advances_run.run_fold moves simp: advances_defs node_simps)

section \<open>Ticks\<close>

lemma advances_CommitIfPossible [moves]: "on_ok (advances n) (CommitIfPossible n)"
proof -
  have set: "on_ok (advances m) (bind_res (set_command_value p v m) (\<lambda>n.
      Inr (n\<lparr>items_to_response := f n\<rparr>)))" for p v f m
    by (rule advances_run.run_bind[OF advances_set_command_value]) (simp add: advances_setters)
  have "on_ok (advances m) (respond_item i m)" for i m
    using set[where m = m] by (simp add: respond_item_def advances_run.run_refl split: option.splits)
  then have loop: "on_ok (advances m) (fold_res respond_item is m)" for "is" m
    by (rule advances_run.run_fold)
  have commit: "on_ok (advances n) (bind_res (fold_res respond_item is n) (\<lambda>n. Inr (set_commit_index i n)))"
    for i "is" by (rule advances_run.run_bind[OF loop]) (simp add: advances_setters)
  show ?thesis
    unfolding CommitIfPossible_def Let_def
    by (rule post_bindI[where P = "\<lambda>_. True"], rule on_okI, rule TrueI)
       (simp add: advances_run.run_refl commit split: option.split del: upt_Suc)
qed

lemma advances_AddNewCommandsToLog [moves]: "on_ok (advances n) (AddNewCommandsToLog n)"
proof -
  have "on_ok (advances m) (append_command c m)" for c m
    by (auto simp: append_command_def push_back_def Let_def store_response_def
        drop_promise_def advances_defs node_simps
        split: prod.splits option.splits promise_state.splits)
  then show ?thesis
    unfolding AddNewCommandsToLog_def Let_def
    by (intro advances_run.run_after[OF advances_setters(12) advances_run.run_fold])
qed

lemma evolves_BecomeCandidate: "on_ok (evolves n) (BecomeCandidate n)"
proof -
  have send: "evolves n (fold (\<lambda>(k, ch) n. channel_send ch (my_id n) (RVReq r) n) chs n)" for r chs n
    by (rule fold_invariant_on[where P = "evolves n"])
      (auto intro: evolves_run.run_refl simp: evolves_def ident_def)
  have vote: "on_ok (evolves n) (SendRequestVoteToAll n)" for n
    by (auto simp: SendRequestVoteToAll_def Let_def post_bind intro!: on_okI send)
  show ?thesis
    unfolding BecomeCandidate_def Let_def
  proof (rule evolves_run.run_bind[OF evolves_run.run_after[OF _ vote]])
    show "evolves n (ResetElectionTimer (set_voted_for
        (Some (my_id (set_current_term (GetCurrentTerm n + 1) n)))
        (set_current_term (GetCurrentTerm n + 1) n)))"
      by (simp add: evolves_def ident_def node_simps ResetElectionTimer_def)
  qed (simp add: evolves_def ident_def)
qed

text \<open>The part of a tick after the queries.\<close>

lemma evolves_tick_role:
  "on_ok (evolves n) (case role n of kFollower \<Rightarrow> TickFollower n | kCandidate \<Rightarrow> TickCandidate n
     | kLeader \<Rightarrow> TickLeader n)"
proof -
  have weak: "post E (evolves m) r" if "post E (advances m) r" for E m r
    using that by (rule post_weaken) (simp add: advances_def)
  have follower: "on_ok (evolves n) (TickFollower n)"
    unfolding TickFollower_def
  proof (rule evolves_run.run_bind[OF weak[OF advances_HandleIncomingMessages]])
    fix m
    obtain e m' where d: "DidElectionTimeoutExpire m = (e, m')" by fastforce
    have "evolves m m'" using advances_setters(6)[of m] d by (simp add: advances_def)
    then show "on_ok (evolves m) (let (expired, n) = DidElectionTimeoutExpire m
        in if expired then BecomeCandidate n else Inr n)"
      by (simp add: d evolves_run.run_after[OF _ evolves_BecomeCandidate])
  qed
  moreover have "on_ok (evolves n) (TickLeader n)"
    unfolding TickLeader_def
    by (rule weak, intro advances_run.run_bind) (auto intro: moves advances_run.run_bind
        simp: advances_run.run_refl)
  ultimately show ?thesis
    by (cases "role n") (simp_all add: TickCandidate_def)
qed

end
