(* ===== verification/KvStore.thy ===== *)
theory KvStore
  imports Storage Evolve
begin

text \<open>
  \<open>class KeyValueStoreImpl\<close> of \<open>hw2/src/worker/worker.cpp\<close>: the gRPC service that replays the committed
  commands of the consensus node into a \<open>Storage\<close>.

  A call waits on a future while the consensus thread, the receivers and other clients go on using the
  node. That activity is an argument of the call: the list of node events that happen from its start
  on. \<open>await\<close> consumes events until the future is ready; \<open>None\<close> is a call that is still waiting when
  the list ends. \<open>ActualizeState\<close> holds \<open>lock_\<close> from its start to its end, so its calls never overlap and
  the fields of the service change only at its steps. \<open>Read\<close> and \<open>DumpState\<close> take \<open>lock_\<close> again after
  \<open>ActualizeState\<close> has released it, and \<open>Write\<close> does not hold it while it waits: what other threads do at
  these points, calls of \<open>ActualizeState\<close> among it, is a list of service events. The log lines are not
  modelled.
\<close>

section \<open>The state and the protocol messages\<close>

record KeyValueStoreImpl =
  last_persisted_id :: LogItemId
  kv_storage :: "(Key, Value) Storage"

definition make_KeyValueStoreImpl :: KeyValueStoreImpl where
  "make_KeyValueStoreImpl = \<lparr>last_persisted_id = 0, kv_storage = empty_storage\<rparr>"

text \<open>\<open>oneof response\<close> of \<open>WriteResponse\<close>: \<open>master_id\<close> is an \<open>int32\<close>.\<close>

datatype WriteResponse =
    ValuePersisted bool
  | MasterId "32 word"

section \<open>Futures\<close>

fun await :: "(Node \<Rightarrow> 'a promise_state) \<Rightarrow> NodeEvent list \<Rightarrow> Node
    \<Rightarrow> ('a \<times> NodeEvent list \<times> Node) option result" where
  "await state es n =
     (case state n of
        Ready v \<Rightarrow> Inr (Some (v, es, n))
      | Broken \<Rightarrow> Inl BrokenPromise
      | Pending \<Rightarrow>
          (case es of [] \<Rightarrow> Inr None | e # es' \<Rightarrow> bind_res (node_step e n) (await state es')))"

declare await.simps [simp del]

text \<open>Sequencing of calls that may be left waiting.\<close>

definition bind_wait :: "'a option result \<Rightarrow> ('a \<Rightarrow> 'b option result) \<Rightarrow> 'b option result" where
  "bind_wait m f = bind_res m (\<lambda>r. case r of None \<Rightarrow> Inr None | Some x \<Rightarrow> f x)"

lemma bind_wait_simps [simp]:
  "bind_wait (Inl e) f = Inl e" "bind_wait (Inr None) f = Inr None"
  "bind_wait (Inr (Some x)) f = f x"
  by (simp_all add: bind_wait_def)

section \<open>The methods\<close>

text \<open>One round of the loop over the new commands.\<close>

definition apply_command :: "Command \<Rightarrow> KeyValueStoreImpl \<Rightarrow> KeyValueStoreImpl" where
  "apply_command c kv =
     (let (key, v) = parse_command c
      in kv\<lparr>last_persisted_id := last_persisted_id kv + 1,
            kv_storage := Set key v (kv_storage kv)\<rparr>)"

definition ActualizeState :: "NodeEvent list \<Rightarrow> Node \<Rightarrow> KeyValueStoreImpl
    \<Rightarrow> (KeyValueStoreImpl \<times> NodeEvent list \<times> Node) option result" where
  "ActualizeState es n kv =
     (let (p, n) = GetPersistentCommands (last_persisted_id kv + 1) 100000000 n
      in bind_wait (await (\<lambda>n. query_results n p) es n) (\<lambda>(commands, es, n).
           Inr (Some (fold apply_command commands kv, es, n))))"

text \<open>
  What other threads do: an event of the node, or a whole call of \<open>ActualizeState\<close>, on behalf of a \<open>Read\<close>, a
  \<open>Write\<close> or a dump, with what happens at the node from its start on.
\<close>

datatype service_event =
    NodeDoes NodeEvent
  | Actualizes "NodeEvent list"

fun service_step :: "service_event \<Rightarrow> KeyValueStoreImpl \<times> Node \<Rightarrow> (KeyValueStoreImpl \<times> Node) option result" where
  "service_step (NodeDoes e) (kv, n) = bind_res (node_step e n) (\<lambda>n. Inr (Some (kv, n)))"
| "service_step (Actualizes es) (kv, n) =
     bind_wait (ActualizeState es n kv) (\<lambda>(kv, es, n).
       bind_res (fold_res node_step es n) (\<lambda>n. Inr (Some (kv, n))))"

fun service_steps :: "service_event list \<Rightarrow> KeyValueStoreImpl \<times> Node
    \<Rightarrow> (KeyValueStoreImpl \<times> Node) option result" where
  "service_steps [] s = Inr (Some s)"
| "service_steps (e # es) s = bind_wait (service_step e s) (service_steps es)"

text \<open>
  \<open>gap\<close> is what happens between the release of \<open>lock_\<close> by \<open>ActualizeState\<close> and the next step of the method,
  after the rest of \<open>es\<close>.
\<close>

definition Read :: "Key \<Rightarrow> NodeEvent list \<Rightarrow> service_event list \<Rightarrow> Node \<Rightarrow> KeyValueStoreImpl
    \<Rightarrow> (Value \<times> KeyValueStoreImpl \<times> Node) option result" where
  "Read key es gap n kv =
     bind_wait (ActualizeState es n kv) (\<lambda>(kv, es, n).
     bind_wait (service_steps (map NodeDoes es @ gap) (kv, n)) (\<lambda>(kv, n).
       let maybe_result = Get key (kv_storage kv)
       in Inr (Some (case maybe_result of None \<Rightarrow> [] | Some v \<Rightarrow> v, kv, n))))"

definition write_response :: "AddCommandResult \<Rightarrow> WriteResponse result" where
  "write_response r =
     (if CommandPersisted r then Inr (ValuePersisted True)
      else bind_res (PotentialLeader r) (\<lambda>i. Inr (MasterId (ucast i))))"

text \<open>\<open>during\<close> happens after the command was added, up to the last call of another thread that ends before
  the future is ready, \<open>rest\<close> behind it.\<close>

definition Write :: "Key \<Rightarrow> Value \<Rightarrow> NodeEvent list \<Rightarrow> service_event list \<Rightarrow> service_event list
    \<Rightarrow> NodeEvent list \<Rightarrow> Node \<Rightarrow> KeyValueStoreImpl
    \<Rightarrow> (WriteResponse \<times> KeyValueStoreImpl \<times> NodeEvent list \<times> Node) option result" where
  "Write key v es gap during rest n kv =
     bind_wait (ActualizeState es n kv) (\<lambda>(kv, es, n).
     bind_wait (service_steps (map NodeDoes es @ gap) (kv, n)) (\<lambda>(kv, n).
       let (p, n) = AddCommand (make_command key v) n
       in bind_wait (service_steps during (kv, n)) (\<lambda>(kv, n).
          bind_wait (await (\<lambda>n. command_results n p) rest n) (\<lambda>(r, es, n).
            bind_res (write_response r) (\<lambda>resp. Inr (Some (resp, kv, es, n)))))))"

text \<open>The text that is printed to the standard error.\<close>

definition DumpState :: "NodeEvent list \<Rightarrow> service_event list \<Rightarrow> Node \<Rightarrow> KeyValueStoreImpl
    \<Rightarrow> (string \<times> KeyValueStoreImpl \<times> Node) option result" where
  "DumpState es gap n kv =
     bind_wait (ActualizeState es n kv) (\<lambda>(kv, es, n).
     bind_wait (service_steps (map NodeDoes es @ gap) (kv, n)) (\<lambda>(kv, n).
       Inr (Some (ToString (kv_storage kv) @ [CHR 0x0A], kv, n))))"

section \<open>The replicated state machine\<close>

text \<open>
  The abstract service: a list of commands, and the map that replaying them gives. \<open>serves kv cs\<close>: the
  service has applied exactly the commands \<open>cs\<close>.
\<close>

definition replayed :: "Command list \<Rightarrow> (Key, Value) Storage" where
  "replayed cs = fold (\<lambda>c s. (case parse_command c of (k, v) \<Rightarrow> Set k v s)) cs empty_storage"

definition serves :: "KeyValueStoreImpl \<Rightarrow> Command list \<Rightarrow> bool" where
  "serves kv cs \<longleftrightarrow> last_persisted_id kv = of_nat (length cs) \<and> kv_storage kv = replayed cs"

lemma serves_initial: "serves make_KeyValueStoreImpl []"
  by (simp add: serves_def make_KeyValueStoreImpl_def replayed_def)

lemma serves_apply: "serves kv cs \<Longrightarrow> serves (apply_command c kv) (cs @ [c])"
  by (simp add: serves_def apply_command_def replayed_def split: prod.splits)

lemma serves_fold: "serves kv cs \<Longrightarrow> serves (fold apply_command new kv) (cs @ new)"
proof (induction new arbitrary: kv cs)
  case Nil
  then show ?case by simp
next
  case (Cons c new)
  from Cons.IH[OF serves_apply[OF Cons.prems, of c]] show ?case by simp
qed

text \<open>A lookup returns the last value written to the key.\<close>

lemma Get_replayed: "Get k (replayed cs) = map_of (rev (map parse_command cs)) k"
proof -
  have "replayed cs = storage.replay (map parse_command cs) empty_storage"
    by (simp add: replayed_def storage.replay_def fold_map comp_def case_prod_unfold)
  then show ?thesis
    using storage.get_replay[OF storage.ok_empty, of k "map parse_command cs"]
      storage.get_empty[of k]
    by (simp split: option.splits)
qed

section \<open>Waiting\<close>

text \<open>A call that returns saw its promise satisfied in a state that the events led to.\<close>

lemma await_value:
  "await state es n = Inr (Some (v, es', n')) \<Longrightarrow>
    state n' = Ready v \<and> (\<exists>us. es = us @ es' \<and> fold_res node_step us n = Inr n')"
proof (induction es arbitrary: n)
  case Nil
  then show ?case by (subst (asm) await.simps) (auto split: promise_state.splits)
next
  case (Cons e es)
  show ?case
  proof (cases "state n")
    case Pending
    then obtain m where m: "node_step e n = Inr m" "await state es m = Inr (Some (v, es', n'))"
      using Cons.prems by (subst (asm) await.simps) (auto simp: bind_res_eq_Inr)
    from Cons.IH[OF m(2)] obtain us where
      "state n' = Ready v" "es = us @ es'" "fold_res node_step us m = Inr n'" by blast
    then show ?thesis using m(1) by (intro conjI exI[of _ "e # us"]) simp_all
  next
    case (Ready w)
    then show ?thesis
      using Cons.prems by (subst (asm) await.simps) (auto intro: exI[of _ "[]"])
  next
    case Broken
    then show ?thesis using Cons.prems by (subst (asm) await.simps) auto
  qed
qed

section \<open>The answer to a query\<close>

lemma read_range_success:
  "read_range xs is = Inr ys \<Longrightarrow> ys = map (nth xs) is \<and> (\<forall>i\<in>set is. i < length xs)"
proof -
  have "fold_res (\<lambda>i out. if i < length xs then Inr (out @ [xs ! i]) else Inl BadIndex) is acc
      = Inr ys \<Longrightarrow> ys = acc @ map (nth xs) is \<and> (\<forall>i\<in>set is. i < length xs)" for acc
    by (induction "is" arbitrary: acc) (fastforce split: if_splits)+
  then show "read_range xs is = Inr ys \<Longrightarrow> ys = map (nth xs) is \<and> (\<forall>i\<in>set is. i < length xs)"
    by (fastforce simp: read_range_def)
qed

lemma read_range_slice: "read_range xs [a..<b] = Inr ys \<Longrightarrow> ys = drop a (take b xs)"
proof -
  assume ys: "read_range xs [a..<b] = Inr ys"
  note ok = read_range_success[OF ys]
  show ?thesis
  proof (cases "a < b")
    case True
    then have "b - 1 \<in> set [a..<b]" by auto
    then have "b \<le> length xs" using ok by (cases b) fastforce+
    then show ?thesis using ys by (simp add: read_range_upt)
  qed (use ok in simp)
qed

lemma answer_query_success:
  assumes "answer_query ((f, c), p) n = Inr m"
  shows "m = n\<lparr>query_results := (query_results n)(p := Ready
    (committed_slice (GetLog n) (unat (GetCommitIndex n)) (unat f) (unat (f + c))))\<rparr>"
  using assms
  by (cases "query_results n p") (auto simp: answer_query_def bind_res_eq_Inr set_query_value_def set_value_def
      committed_slice_def simp del: upt_Suc dest!: read_range_slice split: promise_state.splits)

lemma answer_queries_success:
  "fold_res answer_query qs n = Inr m \<Longrightarrow> distinct (map snd qs) \<Longrightarrow>
    get_persistent_commands_reqs m = get_persistent_commands_reqs n \<and>
    (\<forall>((f, c), p)\<in>set qs. query_results m p = Ready
      (committed_slice (GetLog n) (unat (GetCommitIndex n)) (unat f) (unat (f + c)))) \<and>
    (\<forall>p. p \<notin> snd ` set qs \<longrightarrow> query_results m p = query_results n p)"
proof (induction qs arbitrary: n)
  case Nil
  then show ?case by simp
next
  case (Cons q qs)
  obtain f c p where q: "q = ((f, c), p)" by (metis surj_pair)
  obtain n1 where n1: "answer_query q n = Inr n1" "fold_res answer_query qs n1 = Inr m"
    using Cons.prems(1) by (auto simp: bind_res_eq_Inr)
  have step: "n1 = n\<lparr>query_results := (query_results n)(p := Ready
    (committed_slice (GetLog n) (unat (GetCommitIndex n)) (unat f) (unat (f + c))))\<rparr>"
    using n1(1) unfolding q by (rule answer_query_success)
  have acc: "GetLog n1 = GetLog n" "GetCommitIndex n1 = GetCommitIndex n"
    "get_persistent_commands_reqs n1 = get_persistent_commands_reqs n"
    by (simp_all add: step node_simps)
  have "p \<notin> snd ` set qs" using Cons.prems(2) by (simp add: q)
  then show ?case
    using Cons.IH[OF n1(2)] Cons.prems(2) unfolding acc by (auto simp: q step)
qed

text \<open>One tick answers every queued query from the log it starts with; later ticks leave it alone.\<close>

lemma tick_answers:
  assumes "tick_once n = Inr n'" and "distinct (map snd (get_persistent_commands_reqs n))"
  shows "get_persistent_commands_reqs n' = [] \<and>
    (\<forall>((f, c), p)\<in>set (get_persistent_commands_reqs n). query_results n' p = Ready
      (committed_slice (GetLog n) (unat (GetCommitIndex n)) (unat f) (unat (f + c)))) \<and>
    (\<forall>p. p \<notin> snd ` set (get_persistent_commands_reqs n) \<longrightarrow> query_results n' p = query_results n p)"
proof -
  let ?n = "n\<lparr>tick_number := tick_number n + 1, get_persistent_commands_reqs := []\<rparr>"
  obtain m where m: "fold_res answer_query (get_persistent_commands_reqs n) ?n = Inr m"
    and rest: "(case role m of kFollower \<Rightarrow> TickFollower m | kCandidate \<Rightarrow> TickCandidate m
     | kLeader \<Rightarrow> TickLeader m) = Inr n'"
    using assms(1) by (auto simp: tick_once_def HandleGetPersistentCommandRequests_def
        bind_res_eq_Inr Let_def)
  have "evolves m n'" using evolves_tick_role[of m] rest by simp
  then have same: "query_results n' = query_results m"
    "get_persistent_commands_reqs n' = get_persistent_commands_reqs m"
    by (simp_all add: evolves_def)
  have "GetLog ?n = GetLog n" "GetCommitIndex ?n = GetCommitIndex n" by (simp_all add: node_simps)
  then show ?thesis
    using answer_queries_success[OF m assms(2)] same by simp
qed

lemma tick_times_keeps_answers:
  "tick_times k n = Inr n' \<Longrightarrow> get_persistent_commands_reqs n = [] \<Longrightarrow>
    query_results n' = query_results n"
proof (induction k arbitrary: n)
  case 0
  then show ?case by simp
next
  case (Suc k)
  then obtain m where m: "tick_once n = Inr m" "tick_times k m = Inr n'"
    by (auto simp: bind_res_eq_Inr)
  have "get_persistent_commands_reqs m = []" "query_results m = query_results n"
    using tick_answers[OF m(1)] Suc.prems(2) by auto
  then show ?case using Suc.IH[OF m(2)] by simp
qed

lemma Tick_answers:
  assumes "Tick k n = Inr n'" and "0 < k" and "distinct (map snd (get_persistent_commands_reqs n))"
    and "((f, c), p) \<in> set (get_persistent_commands_reqs n)"
  shows "query_results n' p = Ready
    (committed_slice (GetLog n) (unat (GetCommitIndex n)) (unat f) (unat (f + c)))"
proof -
  obtain j where "unat k = Suc j" using assms(2) by (metis gr0_implies_Suc unat_gt_0 word_neq_0_conv)
  then obtain m where m: "tick_once n = Inr m" "tick_times j m = Inr n'"
    using assms(1) by (auto simp: Tick_def bind_res_eq_Inr)
  from tick_answers[OF m(1) assms(3)] have "get_persistent_commands_reqs m = []"
    "query_results m p = Ready
      (committed_slice (GetLog n) (unat (GetCommitIndex n)) (unat f) (unat (f + c)))"
    using assms(4) by auto
  then show ?thesis using tick_times_keeps_answers[OF m(2)] by simp
qed

text \<open>
  A query that is waited for is answered by the first tick among the events, from the log the node
  has at that moment.
\<close>

lemma query_traced:
  assumes "await (\<lambda>n. query_results n p) es n = Inr (Some (v, es', n'))"
    and "promises_ok n" and "((f, c), p) \<in> set (get_persistent_commands_reqs n)"
  shows "\<exists>us k m. es = us @ NTick k # es' \<and> fold_res node_step us n = Inr m \<and> 0 < k \<and>
    v = committed_slice (GetLog m) (unat (GetCommitIndex m)) (unat f) (unat (f + c))"
  using assms
proof (induction es arbitrary: n)
  case Nil
  then show ?case
    by (subst (asm) await.simps) (auto simp: promises_defs split: promise_state.splits)
next
  case (Cons e es)
  have pend: "query_results n p = Pending" using Cons.prems(2,3) by (force simp: promises_defs)
  then obtain m where m: "node_step e n = Inr m"
    "await (\<lambda>n. query_results n p) es m = Inr (Some (v, es', n'))"
    using Cons.prems(1) by (subst (asm) await.simps) (auto simp: bind_res_eq_Inr)
  have later: ?case if "promises_ok m" "((f, c), p) \<in> set (get_persistent_commands_reqs m)"
  proof -
    from Cons.IH[OF m(2) that] obtain us k m1 where
      "es = us @ NTick k # es'" "fold_res node_step us m = Inr m1" "0 < k"
      "v = committed_slice (GetLog m1) (unat (GetCommitIndex m1)) (unat f) (unat (f + c))" by blast
    then show ?thesis using m(1) by (intro exI[of _ "e # us"] exI[of _ k] exI[of _ m1]) simp
  qed
  show ?case
  proof (cases e)
    case (NTick k)
    show ?thesis
    proof (cases "k = 0")
      case True
      then have "m = n" using m(1) NTick by (simp add: Tick_def)
      then show ?thesis using later Cons.prems by simp
    next
      case False
      then have k: "0 < k" by (simp add: word_neq_0_conv)
      have "Tick k n = Inr m" using m(1) NTick by simp
      then have "query_results m p = Ready
          (committed_slice (GetLog n) (unat (GetCommitIndex n)) (unat f) (unat (f + c)))"
        using Cons.prems(2,3) k by (intro Tick_answers) (auto simp: promises_defs)
      then have "await (\<lambda>n. query_results n p) es m = Inr (Some
          (committed_slice (GetLog n) (unat (GetCommitIndex n)) (unat f) (unat (f + c)), es, m))"
        by (subst await.simps) simp
      then have "es = es'"
        "v = committed_slice (GetLog n) (unat (GetCommitIndex n)) (unat f) (unat (f + c))"
        using m(2) by simp_all
      then show ?thesis using NTick k by (intro exI[of _ "[]"]) auto
    qed
  next
    case (NMessage s msg)
    have "get_persistent_commands_reqs (AddMessage s msg n) = get_persistent_commands_reqs n"
      by (simp add: AddMessage_def split: Message.splits)
    then show ?thesis
      using later m(1) NMessage Cons.prems(2,3) promises_ok_AddMessage[of n s msg] by simp
  next
    case (NCommand c')
    have "get_persistent_commands_reqs (snd (AddCommand c' n)) = get_persistent_commands_reqs n"
      by (simp add: AddCommand_def Let_def)
    then show ?thesis
      using later m(1) NCommand Cons.prems(2,3) promises_ok_AddCommand[of n c'] by auto
  next
    case (NQuery i j)
    have "set (get_persistent_commands_reqs n) \<subseteq>
        set (get_persistent_commands_reqs (snd (GetPersistentCommands i j n)))"
      by (auto simp: GetPersistentCommands_def Let_def)
    then show ?thesis
      using later m(1) NQuery Cons.prems(2,3) promises_ok_GetPersistentCommands[of n i j] by auto
  qed
qed

section \<open>Reads\<close>

text \<open>The committed commands of a node: the log from 1 up to the commit index.\<close>

definition committed :: "Node \<Rightarrow> Command list" where
  "committed n = map command (take (unat (GetCommitIndex n)) (tl (GetLog n)))"

text \<open>
  What \<open>ActualizeState\<close> does when it returns: the new commands come from the node as it was at the
  tick that answered the query, and the service has applied them in order.
\<close>

lemma ActualizeState_traced:
  assumes "ActualizeState es n kv = Inr (Some (kv', es', n'))" and "promises_ok n"
  shows "\<exists>us k m. es = us @ NTick k # es' \<and>
    fold_res node_step us (snd (GetPersistentCommands (last_persisted_id kv + 1) 100000000 n)) = Inr m \<and>
    node_step (NTick k) m = Inr n' \<and>
    kv' = fold apply_command (committed_slice (GetLog m) (unat (GetCommitIndex m))
      (unat (if last_persisted_id kv + 1 = 0 then 1 else last_persisted_id kv + 1))
      (unat ((if last_persisted_id kv + 1 = 0 then 1 else last_persisted_id kv + 1) + 100000000))) kv"
proof -
  let ?f = "if last_persisted_id kv + 1 = 0 then 1 else last_persisted_id kv + 1"
  let ?n = "snd (GetPersistentCommands (last_persisted_id kv + 1) 100000000 n)"
  have query: "GetPersistentCommands (last_persisted_id kv + 1) 100000000 n = (next_promise n, ?n)"
    and mem: "((?f, 100000000), next_promise n) \<in> set (get_persistent_commands_reqs ?n)"
    by (simp_all add: GetPersistentCommands_def Let_def)
  obtain v where aw: "await (\<lambda>m. query_results m (next_promise n)) es ?n = Inr (Some (v, es', n'))"
    and kv': "kv' = fold apply_command v kv"
  proof -
    show thesis
      using assms(1) that query
      by (auto simp: ActualizeState_def bind_wait_def bind_res_eq_Inr split: option.splits prod.splits)
  qed
  from query_traced[OF aw promises_ok_GetPersistentCommands[OF assms(2)] mem] obtain us k m where
    m: "es = us @ NTick k # es'" "fold_res node_step us ?n = Inr m"
      "v = committed_slice (GetLog m) (unat (GetCommitIndex m)) (unat ?f) (unat (?f + 100000000))"
    by blast
  moreover from await_value[OF aw] m(1) have "fold_res node_step (us @ [NTick k]) ?n = Inr n'" by auto
  then have "node_step (NTick k) m = Inr n'"
    unfolding fold_res_append m(2) by (cases "node_step (NTick k) m") simp_all
  ultimately show ?thesis unfolding kv' by blast
qed

end
