(* ===== verification/NodeEval.thy ===== *)
theory NodeEval
  imports KvStore
begin

text \<open>
  Evaluation of concrete runs in the kernel. \<open>eval_defs\<close> holds the definitions of the model;
  with the congruences \<open>eval_cong\<close> the simplifier evaluates a run in program order.
\<close>

lemma tick_times_numeral:
  "tick_times (numeral k) n = bind_res (tick_once n) (tick_times (pred_numeral k))"
  by (simp add: numeral_eq_Suc)

lemma tick_times_one: "tick_times 1 n = tick_once n"
  by (cases "tick_once n") simp_all

lemma unat_max_u64: "unat (- 1 :: u64) = 18446744073709551615"
  by (simp add: unsigned_minus_1_eq_mask mask_eq_exp_minus_1)

lemmas std_eval = word_numeral_one unat_max_u64 map_find_def map_at_def map_subscript_def map_keys_def set_insert_def
  insort_insert_key_def read_range_def read_at_def push_back_def vector_resize_def
  max_log_size_value min_def max_def upt_conv_Cons upt_conv_Nil

lemmas timer_eval = IsExpired_def Now_def Reset_def make_UniformTimer_def

lemmas node_eval = node_simps log_size_def GetLastLogTerm_def GetLastLogIndex_def
  AppendEntriesUnsuccessfull_def AppendEntriesSuccessfull_def RequestVoteUnsuccessfull_def
  RequestVoteSuccessfull_def default_RequestVoteResponse_def set_value_def set_command_value_def
  set_query_value_def drop_promise_def AddMessage_def channel_send_def initial_log_def make_Node_def
  DidElectionTimeoutExpire_def ResetElectionTimer_def BecomeFollower_def SendRequestVoteToAll_def
  BecomeCandidate_def read_next_index_def SendAppendEntriesToSomeone_def SendAppendEntriesToAll_def
  BecomeLeader_def redirect_commands_def HandleAppendEntriesRequest_def
  HandleAppendEntriesResponse_def HandleRequestVoteRequest_def HandleRequestVoteResponse_def
  GetPersistentCommands_def AddCommand_def answer_query_def HandleGetPersistentCommandRequests_def
  handle_ae_req_def handle_rv_req_def HandleIncomingMessages_def count_matched_def
  commit_candidate_def respond_item_def CommitIfPossible_def store_response_def append_command_def
  AddNewCommandsToLog_def TickLeader_def TickFollower_def TickCandidate_def tick_once_def Tick_def
  tick_times_numeral

lemmas eval_defs = std_eval timer_eval node_eval

lemmas kv_eval = Read_def Write_def ActualizeState_def await.simps bind_wait_def service_steps.simps
  service_step.simps apply_command_def
  write_response_def CommandPersisted_def PotentialLeader_def make_KeyValueStoreImpl_def
  Get_def Set_def empty_storage_def

end
