(* ===== verification/NodeTests.thy ===== *)
theory NodeTests
  imports NodeEval
begin

text \<open>
  Unit tests of the consensus library, \<open>hw2/src/consensus/ut/node_test.cpp\<close>, run on the model: \<open>Leader\<close>
  and \<open>Trivial\<close> (which begins like \<open>Leader\<close>), and \<open>ThrowOutUncommited\<close> with three nodes. The nodes of
  a test live in one process and are connected by \<open>TrivialMessageSender\<close>: a message is in the queue of
  its receiver as soon as it is sent. Time passes only when a test sleeps.
\<close>

section \<open>Nodes in one process\<close>

type_synonym Group = "(NodeId, Node) std_map"

definition at_node :: "NodeId \<Rightarrow> (Node \<Rightarrow> Node) \<Rightarrow> Group \<Rightarrow> Group" where
  "at_node i f = map (\<lambda>(j, n). (j, if j = i then f n else n))"

text \<open>\<open>TrivialMessageSender::Send\<close> to another node; the messages to the node itself are already in its queue.\<close>

definition trivial_send :: "NodeId \<Rightarrow> IMessageSender \<times> NodeId \<times> Message \<Rightarrow> Group \<Rightarrow> Group" where
  "trivial_send i = (\<lambda>(ch, s, m) g. case ch of
     TrivialMessageSender j \<Rightarrow> if j = i then g else at_node j (AddMessage s m) g
   | OtherNodesMessageSender a \<Rightarrow> g)"

text \<open>The field \<open>sent\<close> is history; here it is emptied before every tick.\<close>

definition group_tick :: "NodeId \<Rightarrow> u64 \<Rightarrow> Group \<Rightarrow> Group result" where
  "group_tick i k g =
     bind_res (map_at g i) (\<lambda>n.
     bind_res (Tick k (n\<lparr>sent := []\<rparr>)) (\<lambda>n.
       Inr (fold (trivial_send i) (sent n) (at_node i (\<lambda>_. n) g))))"

definition sleep_node :: "int \<Rightarrow> Node \<Rightarrow> Node" where
  "sleep_node ms n = n\<lparr>election_timeout := (election_timeout n)
     \<lparr>clock := (\<lambda>_. clock (election_timeout n) 0 + ms)\<rparr>\<rparr>"

section \<open>Tests\<close>

text \<open>
  The statements of a test: calls, a sleep, and the checks. Promises are numbered per node in the order
  of its calls, commands and queries together.
\<close>

datatype test_line =
    TickNode NodeId u64
  | Command NodeId Command
  | Query NodeId LogItemId u64
  | Sleep int
  | HasRole NodeId NodeState
  | Waits NodeId promise
  | Persisted NodeId promise bool
  | Commands NodeId promise "Command list"

definition passes :: "test_line \<Rightarrow> Group \<Rightarrow> bool" where
  "passes l g = (case l of
     HasRole i r \<Rightarrow> map_option role (map_find g i) = Some r
   | Waits i p \<Rightarrow> map_option (\<lambda>n. command_results n p) (map_find g i) = Some Pending
   | Persisted i p b \<Rightarrow>
       (case map_option (\<lambda>n. command_results n p) (map_find g i) of
          Some (Ready v) \<Rightarrow> CommandPersisted v = b
        | _ \<Rightarrow> False)
   | Commands i p cs \<Rightarrow> map_option (\<lambda>n. query_results n p) (map_find g i) = Some (Ready cs)
   | _ \<Rightarrow> True)"

fun run_line :: "test_line \<Rightarrow> Group \<Rightarrow> Group result" where
  "run_line (TickNode i k) g = group_tick i k g"
| "run_line (Command i c) g = Inr (at_node i (\<lambda>n. snd (AddCommand c n)) g)"
| "run_line (Query i f k) g = Inr (at_node i (\<lambda>n. snd (GetPersistentCommands f k n)) g)"
| "run_line (Sleep ms) g = Inr (map (\<lambda>(j, n). (j, sleep_node ms n)) g)"
| "run_line l g = Inr g"

text \<open>A test succeeds when no call faults and every check passes where it stands.\<close>

fun test_succeeds :: "test_line list \<Rightarrow> Group \<Rightarrow> bool" where
  "test_succeeds [] g = True"
| "test_succeeds (l # ls) g = (case run_line l g of
     Inl e \<Rightarrow> False
   | Inr g \<Rightarrow> passes l g \<and> test_succeeds ls g)"

definition test_timer :: "int \<Rightarrow> int \<Rightarrow> UniformTimer" where
  "test_timer mn mx = make_UniformTimer mn mx (\<lambda>_. mn) (\<lambda>_. 1000000)"

definition one_node :: Group where
  "one_node = [(123, make_Node 123 [] (test_timer 9 10))]"

definition three_nodes :: Group where
  "three_nodes =
     [(1, make_Node 1 [(2, TrivialMessageSender 2), (3, TrivialMessageSender 3)] (test_timer 5 6)),
      (2, make_Node 2 [(1, TrivialMessageSender 1), (3, TrivialMessageSender 3)] (test_timer 5 6)),
      (3, make_Node 3 [(1, TrivialMessageSender 1), (2, TrivialMessageSender 2)] (test_timer 5 6))]"

definition Trivial_test :: "test_line list" where
  "Trivial_test = [Sleep 15, TickNode 123 5, HasRole 123 kLeader, Command 123 ''I AM COMMAND'', TickNode 123 5,
     Persisted 123 0 True, TickNode 123 5, Query 123 0 10, TickNode 123 5, Commands 123 1 [''I AM COMMAND'']]"

definition ThrowOutUncommited_test :: "test_line list" where
  "ThrowOutUncommited_test = [TickNode 1 5, Sleep 10, TickNode 1 5, TickNode 2 5, TickNode 1 5, TickNode 2 5,
     TickNode 1 5, Command 1 ''1s1'', Waits 1 0, TickNode 2 5, TickNode 1 5, TickNode 2 5, TickNode 1 5,
     Persisted 1 0 True]"

section \<open>The tests succeed\<close>

lemmas test_eval = eval_defs tick_times_one trivial_send_def group_tick_def at_node_def sleep_node_def passes_def
  CommandPersisted_def test_timer_def one_node_def three_nodes_def

lemmas test_cong = eval_cong sum.case_cong_weak

lemma Trivial: "test_succeeds Trivial_test one_node"
  by (simp add: Trivial_test_def test_eval cong: test_cong)

lemma ThrowOutUncommited: "test_succeeds ThrowOutUncommited_test three_nodes"
  by (simp add: ThrowOutUncommited_test_def test_eval cong: test_cong)

end
