(* ===== verification/Logging.thy ===== *)
theory Logging
  imports Node Streams
begin

text \<open>
  The text of a log line: \<open>hw2/src/common/log.h\<close>, with \<open>RoleAsString\<close> and the macro \<open>PRETTY_LOG\<close> of
  \<open>node.cpp\<close>. The places that log have no other effect than the line and are not part of the model.
\<close>

definition LOG :: "string \<Rightarrow> nat \<Rightarrow> string \<Rightarrow> string" where
  "LOG file line msg = file @ '':'' @ decimal_digits line @ '': '' @ msg @ [CHR 0x0A]"

fun RoleAsString :: "NodeState \<Rightarrow> string" where
  "RoleAsString kCandidate = ''Candidate''"
| "RoleAsString kFollower = ''Follower''"
| "RoleAsString kLeader = ''Leader''"

definition node_header :: "Node \<Rightarrow> string" where
  "node_header n =
     ''(Node id = '' @ decimal_digits (unat (my_id n)) @ '', term = '' @ decimal_digits (unat (GetCurrentTerm n)) @
     '', tick = '' @ decimal_digits (unat (tick_number n)) @ '', role = '' @ RoleAsString (role n) @ ''), ''"

definition PRETTY_LOG :: "string \<Rightarrow> nat \<Rightarrow> string \<Rightarrow> Node \<Rightarrow> string \<Rightarrow> string" where
  "PRETTY_LOG file line function_name n msg = LOG file line (node_header n @ function_name @ '': '' @ msg)"

text \<open>A number is read back up to a comma.\<close>

lemma decimal_digits_comma:
  "decimal_digits a @ CHR '','' # r = decimal_digits b @ CHR '','' # s \<longleftrightarrow> a = b \<and> r = s"
proof -
  have split: "takeWhile is_digit (decimal_digits m @ CHR '','' # t) = decimal_digits m" for m t
    using decimal_digits_shape[of m] by (subst takeWhile_append2) (auto simp: is_digit_def)
  have "a = b" if "decimal_digits a @ CHR '','' # r = decimal_digits b @ CHR '','' # s"
    using that split by (metis digits_value_decimal)
  then show ?thesis by auto
qed

text \<open>A log line identifies the state it was written in: id, term, tick and role.\<close>

lemma node_header_reads:
  assumes "node_header n @ r = node_header m @ s"
  shows "my_id n = my_id m \<and> GetCurrentTerm n = GetCurrentTerm m \<and> tick_number n = tick_number m \<and>
    role n = role m \<and> r = s"
  using assms by (cases "role n"; cases "role m") (simp_all add: node_header_def decimal_digits_comma word_unat_eq_iff)

end
