(* ===== verification/KvTheorems.thy ===== *)
theory KvTheorems
  imports NodeEval "HOL-Library.Sublist"
begin

text \<open>
  The properties of the key-value service: which commands a call applies, what a read returns, how a
  write is encoded, and complete runs of a process that is its own cluster.
\<close>

lemma committed_slice_tail:
  "committed_slice log c (Suc a) (Suc a + b) = take b (drop a (map command (take c (tl log))))"
proof (cases log)
  case (Cons x xs)
  have "drop a (take (min (a + b) c) xs) = take b (drop a (take c xs))"
    by (metis take_take drop_take add_diff_cancel_left')
  then show ?thesis using Cons by (simp add: committed_slice_def drop_map take_map)
qed (simp add: committed_slice_def)

lemma next_query_index:
  assumes "last_persisted_id kv = of_nat L" and "L + 100000001 < 2 ^ 64"
  shows "unat (last_persisted_id kv + 1) = Suc L" and "last_persisted_id kv + 1 \<noteq> 0"
    and "unat (last_persisted_id kv + 1 + 100000000) = Suc L + 100000000"
proof -
  have L: "unat (of_nat L :: u64) = L" using assms(2) by (intro unat_of_nat_small) simp
  then show one: "unat (last_persisted_id kv + 1) = Suc L"
    using assms by (subst unat_plus_small) auto
  then show "last_persisted_id kv + 1 \<noteq> 0" by (metis nat.distinct(1) unat_0)
  show "unat (last_persisted_id kv + 1 + 100000000) = Suc L + 100000000"
    using one assms(2) by (subst unat_plus_small) auto
qed

lemma ActualizeState_serves:
  assumes "ActualizeState es n kv = Inr (Some (kv', es', n'))" and "promises_ok n"
    and "serves kv cs" and "length cs + 100000001 < 2 ^ 64"
  shows "\<exists>us k m. es = us @ NTick k # es' \<and>
    fold_res node_step us (snd (GetPersistentCommands (last_persisted_id kv + 1) 100000000 n)) = Inr m \<and>
    node_step (NTick k) m = Inr n' \<and> serves kv' (cs @ take 100000000 (drop (length cs) (committed m)))"
proof -
  note idx = next_query_index[of kv "length cs"]
  have last: "last_persisted_id kv = of_nat (length cs)" using assms(3) by (simp add: serves_def)
  obtain us k m where run: "es = us @ NTick k # es'"
    "fold_res node_step us (snd (GetPersistentCommands (last_persisted_id kv + 1) 100000000 n)) = Inr m"
    "node_step (NTick k) m = Inr n'" "kv' = fold apply_command (committed_slice (GetLog m) (unat (GetCommitIndex m))
      (Suc (length cs)) (Suc (length cs) + 100000000)) kv"
    using ActualizeState_traced[OF assms(1,2)] idx[OF last assms(4)] by (auto simp del: plus_nat.simps)
  have "serves kv' (cs @ committed_slice (GetLog m) (unat (GetCommitIndex m))
      (Suc (length cs)) (Suc (length cs) + 100000000))"
    unfolding run(4) by (rule serves_fold[OF assms(3)])
  then show ?thesis
    using run(1-3) unfolding committed_slice_tail committed_def by blast
qed

text \<open>C23: \<open>ActualizeState\<close> keeps the service a replica of the log. If the service has applied the
  commands \<open>cs\<close>, then a call that returns has applied, after \<open>cs\<close> and in log order, the committed
  commands that follow them in the log of the node at the tick that answered (at most 100000000).\<close>

theorem actualize_applies_committed:
  assumes "serves kv cs" and "length cs + 100000001 < 2 ^ 64" and "promises_ok n"
    and "ActualizeState es n kv = Inr (Some (kv', es', n'))"
  shows "\<exists>us k m. es = us @ NTick k # es' \<and>
    fold_res node_step us (snd (GetPersistentCommands (last_persisted_id kv + 1) 100000000 n)) = Inr m \<and>
    serves kv' (cs @ take 100000000 (drop (length cs) (committed m)))"
  using ActualizeState_serves[OF assms(4,3,1,2)] by blast

section \<open>Calls of several threads\<close>

text \<open>
  \<open>catch_up m cs\<close>: the commands applied after a call whose query was answered by the node \<open>m\<close>.
  \<open>passes n ms\<close>: starting from \<open>n\<close>, the node goes through the states \<open>ms\<close>.
\<close>

definition catch_up :: "Node \<Rightarrow> Command list \<Rightarrow> Command list" where
  "catch_up m cs = cs @ take 100000000 (drop (length cs) (committed m))"

fun passes :: "Node \<Rightarrow> Node list \<Rightarrow> bool" where
  "passes n [] = True"
| "passes n (m # ms) = ((\<exists>us. fold_res node_step us n = Inr m) \<and> passes m ms)"

lemma passes_after: "fold_res node_step us n = Inr m \<Longrightarrow> passes m ms \<Longrightarrow> passes n ms"
proof (cases ms)
  case (Cons x xs)
  assume "fold_res node_step us n = Inr m" "passes m ms"
  then obtain vs where "fold_res node_step (us @ vs) n = Inr x" "passes x xs"
    by (auto simp: Cons fold_res_append)
  then show ?thesis unfolding Cons passes.simps by blast
qed simp

fun node_events :: "service_event \<Rightarrow> NodeEvent list" where
  "node_events (NodeDoes e) = [e]"
| "node_events (Actualizes es) = es"

fun is_call :: "service_event \<Rightarrow> bool" where
  "is_call (NodeDoes e) = False"
| "is_call (Actualizes es) = True"

definition calls :: "service_event list \<Rightarrow> nat" where
  "calls gap = length (filter is_call gap)"

abbreviation legal_for :: "NodeId \<times> (NodeId, IMessageSender) std_map \<times> u64 \<Rightarrow> NodeEvent list \<Rightarrow> bool" where
  "legal_for I es \<equiv> (\<forall>e\<in>set es. legal_event (map_keys (fst (snd I))) e)"

abbreviation legal_service :: "NodeId \<times> (NodeId, IMessageSender) std_map \<times> u64 \<Rightarrow> service_event list \<Rightarrow> bool" where
  "legal_service I gap \<equiv> (\<forall>e\<in>set gap. legal_for I (node_events e))"

lemma fine_steps: "fine I n \<Longrightarrow> legal_for I es \<Longrightarrow> fold_res node_step es n = Inr m \<Longrightarrow> fine I m"
  using node_machine.run_good[of I n es] by auto

lemma ActualizeState_catches_up:
  assumes "ActualizeState es n kv = Inr (Some (kv', es', n'))" and "fine I n" and "legal_for I es"
    and "serves kv cs" and "length cs + 100000001 < 2 ^ 64"
  shows "\<exists>m us. (\<exists>vs. fold_res node_step vs n = Inr m) \<and> fold_res node_step us m = Inr n' \<and>
    fine I n' \<and> legal_for I es' \<and> serves kv' (catch_up m cs)"
proof -
  have "promises_ok n" using assms(2) by (simp add: fine_def steady_def)
  from ActualizeState_serves[OF assms(1) this assms(4,5)] obtain us k m where
    run: "es = us @ NTick k # es'"
      "fold_res node_step us (snd (GetPersistentCommands (last_persisted_id kv + 1) 100000000 n)) = Inr m"
      "node_step (NTick k) m = Inr n'" "serves kv' (catch_up m cs)"
    unfolding catch_up_def by blast
  let ?vs = "NQuery (last_persisted_id kv + 1) 100000000 # us"
  have vs: "fold_res node_step ?vs n = Inr m" using run(2) by simp
  have "fold_res node_step (?vs @ [NTick k]) n = Inr n'" unfolding fold_res_append vs using run(3) by simp
  moreover have "legal_for I (?vs @ [NTick k])" using assms(3) run(1) by auto
  ultimately have "fine I n'" using fine_steps[OF assms(2)] by blast
  moreover have "fold_res node_step [NTick k] m = Inr n'" using run(3) by simp
  moreover have "legal_for I es'" using assms(3) run(1) by simp
  ultimately show ?thesis using vs run(4) by blast
qed

lemma service_steps_catch_up:
  assumes "service_steps gap (kv, n) = Inr (Some (kv', n'))" and "fine I n" and "legal_service I gap"
    and "serves kv cs" and "length cs + 100000001 * calls gap < 2 ^ 64"
  shows "\<exists>ms. length ms = calls gap \<and> passes n ms \<and> serves kv' (fold catch_up ms cs)"
  using assms
proof (induction gap arbitrary: kv n cs)
  case Nil
  then show ?case by (simp add: calls_def)
next
  case (Cons e gap)
  show ?case
  proof (cases e)
    case (NodeDoes ev)
    then obtain m where m: "node_step ev n = Inr m" "service_steps gap (kv, m) = Inr (Some (kv', n'))"
      using Cons.prems(1) by (auto simp: bind_wait_def bind_res_eq_Inr)
    have run: "fold_res node_step [ev] n = Inr m" using m(1) by simp
    have "fine I m" using fine_steps[OF Cons.prems(2) _ run] Cons.prems(3) NodeDoes by simp
    from Cons.IH[OF m(2) this _ Cons.prems(4)] Cons.prems(3,5) NodeDoes obtain ms where
      "length ms = calls gap" "passes m ms" "serves kv' (fold catch_up ms cs)" by (auto simp: calls_def)
    then show ?thesis using NodeDoes passes_after[OF run] by (intro exI[of _ ms]) (simp add: calls_def)
  next
    case (Actualizes es)
    then obtain kv1 es1 n1 m1 where act: "ActualizeState es n kv = Inr (Some (kv1, es1, n1))"
      and rest: "fold_res node_step es1 n1 = Inr m1" "service_steps gap (kv1, m1) = Inr (Some (kv', n'))"
      using Cons.prems(1) by (auto simp: bind_wait_def bind_res_eq_Inr split: option.splits)
    have len: "length cs + 100000001 < 2 ^ 64" and legal: "legal_for I es"
      using Cons.prems(3,5) Actualizes by (auto simp: calls_def)
    from ActualizeState_catches_up[OF act Cons.prems(2) legal Cons.prems(4) len] obtain m us vs where
      m: "fold_res node_step vs n = Inr m" "fold_res node_step us m = Inr n1" "fine I n1" "legal_for I es1"
        "serves kv1 (catch_up m cs)" by blast
    have fine: "fine I m1" by (rule fine_steps[OF m(3,4) rest(1)])
    have "length (catch_up m cs) + 100000001 * calls gap < 2 ^ 64"
      using Cons.prems(5) Actualizes by (simp add: calls_def catch_up_def)
    then obtain ms where ms: "length ms = calls gap" "passes m1 ms" "serves kv' (fold catch_up ms (catch_up m cs))"
      using Cons.IH[OF rest(2) fine _ m(5)] Cons.prems(3) by auto
    have "fold_res node_step (us @ es1) m = Inr m1" by (simp add: fold_res_append m(2) rest(1))
    then have "passes n (m # ms)" using m(1) passes_after ms(2) by fastforce
    then show ?thesis using ms(1,3) Actualizes by (intro exI[of _ "m # ms"]) (simp add: calls_def)
  qed
qed

text \<open>While no committed command is replaced, catching up leads to the committed commands.\<close>

lemma catch_up_committed:
  assumes "sorted_wrt prefix (cs # map committed ms)" and "ms \<noteq> []"
    and "length (committed (last ms)) \<le> length cs + 100000000"
  shows "fold catch_up ms cs = committed (last ms)"
  using assms
proof (induction ms arbitrary: cs)
  case Nil
  then show ?case by simp
next
  case (Cons m ms)
  have pre: "prefix cs (committed m)" "prefix (committed m) (committed (last (m # ms)))"
    using Cons.prems(1) last_in_set[of ms] by auto
  then have "length cs \<le> length (committed m)" "length (committed m) \<le> length cs + 100000000"
    using Cons.prems(3) prefix_length_le by (blast, fastforce dest: prefix_length_le)
  then have step: "catch_up m cs = committed m"
    using pre(1) by (auto simp: catch_up_def prefix_def)
  show ?case
  proof (cases "ms = []")
    case False
    have "length (committed (last ms)) \<le> length (committed m) + 100000000"
      using Cons.prems(3) False \<open>length cs \<le> length (committed m)\<close> by simp
    then show ?thesis using Cons.IH[of "committed m"] Cons.prems(1) False step by simp
  qed (simp add: step)
qed

text \<open>The value that the last of the commands writes to the key, or the empty string.\<close>

definition written :: "Key \<Rightarrow> Command list \<Rightarrow> Value" where
  "written key cs = (case map_of (rev (map parse_command cs)) key of None \<Rightarrow> [] | Some v \<Rightarrow> v)"


text \<open>C25: Encoding of writes. The command of a write with a non-empty key, key and value without white
  space, is taken apart into that key and value again.\<close>

theorem write_roundtrip:
  assumes "is_word k" and "k \<noteq> []" and "is_word v"
  shows "parse_command (make_command k v) = (k, v)"
  by (rule parse_make_command[OF assms])

lemma write_roundtrip_witness: "parse_command (make_command ''key'' ''value'') = (''key'', ''value'')"
  by (rule write_roundtrip) (simp_all add: is_word_def is_space_def)

text \<open>C26: White space is lost. Of a value with several words only the first is stored; a key with white
  space is split, its first word becoming the key and its second one the value, whatever the value of
  the request.\<close>

theorem write_loses_spaces:
  assumes "is_word k" and "k \<noteq> []" and "is_word w" and "w \<noteq> []" and "is_space c"
  shows "parse_command (make_command k (w @ c # rest)) = (k, w) \<and>
    parse_command (make_command (k @ c # w) v) = (k, w)"
  using parse_two_words[OF assms(1,2) is_space_blank, of "w @ c # rest"]
    parse_two_words[OF assms(1,2,5), of "w @ CHR '' '' # v"]
    extract_word[OF assms(3,4,5)] extract_word[OF assms(3,4) is_space_blank]
  by (simp_all add: make_command_def)

lemma write_loses_spaces_witness:
  "parse_command (make_command ''k'' ''two words'') = (''k'', ''two'') \<and>
   parse_command (make_command ''a b'' ''v'') = (''a'', ''b'')"
  using write_loses_spaces[of "''k''" "''two''" "CHR '' ''" "''words''" "[]"]
    write_loses_spaces[of "''a''" "''b''" "CHR '' ''" "[]" "''v''"]
  by (simp add: is_word_def is_space_def)

section \<open>A process that is its own cluster\<close>

definition lone_node :: "NodeId \<Rightarrow> (nat \<Rightarrow> int) \<Rightarrow> (nat \<Rightarrow> int) \<Rightarrow> Node" where
  "lone_node i rnd clk = make_Node i [] (make_UniformTimer 7000 15000 rnd clk)"

text \<open>The example of the witnesses: the clock moves one second per reading, the timer draws 7 seconds.\<close>

definition solo_node :: Node where
  "solo_node = lone_node 1 (\<lambda>_. 7000) (\<lambda>i. 1000 * int i)"



text \<open>The node after one committed command, for the witnesses.\<close>

lemma solo_committed_run:
  "\<exists>n. fold_res node_step [NTick 5, NCommand ''k v'', NTick 5] solo_node = Inr n \<and> promises_ok n \<and>
    (\<exists>kv n'. ActualizeState [NTick 1] n make_KeyValueStoreImpl = Inr (Some (kv, [], n'))) \<and>
    committed (snd (GetPersistentCommands 1 100000000 n)) = [''k v''] \<and>
    (\<forall>m. Tick 1 (snd (GetPersistentCommands 1 100000000 n)) = Inr m \<longrightarrow> committed m = [''k v''])"
proof -
  let ?es = "[NTick 5, NCommand ''k v'', NTick 5]"
  have run: "\<exists>n. fold_res node_step ?es solo_node = Inr n \<and>
    (\<exists>kv n'. ActualizeState [NTick 1] n make_KeyValueStoreImpl = Inr (Some (kv, [], n'))) \<and>
    committed (snd (GetPersistentCommands 1 100000000 n)) = [''k v''] \<and>
    (\<forall>m. Tick 1 (snd (GetPersistentCommands 1 100000000 n)) = Inr m \<longrightarrow> committed m = [''k v''])"
    by (simp add: solo_node_def lone_node_def eval_defs tick_times_one kv_eval committed_def cong: eval_cong)
  moreover have "on_ok (fine (ident solo_node)) (fold_res node_step ?es solo_node)"
    unfolding solo_node_def lone_node_def
    by (rule post_mono[OF node_machine.run_good[OF fine_make_Node]]) auto
  ultimately show ?thesis by (auto simp: fine_def steady_def)
qed

lemma actualize_applies_committed_witness:
  "\<exists>n kv n'. fold_res node_step [NTick 5, NCommand ''k v'', NTick 5] solo_node = Inr n \<and>
    ActualizeState [NTick 1] n make_KeyValueStoreImpl = Inr (Some (kv, [], n')) \<and> serves kv [''k v'']"
proof -
  obtain n kv n' where n: "fold_res node_step [NTick 5, NCommand ''k v'', NTick 5] solo_node = Inr n"
    "promises_ok n" "ActualizeState [NTick 1] n make_KeyValueStoreImpl = Inr (Some (kv, [], n'))"
    "committed (snd (GetPersistentCommands 1 100000000 n)) = [''k v'']"
    using solo_committed_run by blast
  have "last_persisted_id make_KeyValueStoreImpl = 0" by (simp add: make_KeyValueStoreImpl_def)
  with actualize_applies_committed[OF serves_initial _ n(2,3)] n(1,3,4) show ?thesis
    by (auto simp: Cons_eq_append_conv)
qed


end
