(* ===== verification/Election.thy ===== *)
theory Election
  imports Sending Evolve
begin

text \<open>
  Voting and elections, seen from one node. The history of a node is its field \<open>sent\<close>: \<open>granted\<close>
  are the votes it gave, \<open>led\<close> the terms in which it acted as leader. The invariant \<open>vote_inv\<close> is
  the voting discipline, \<open>tally_inv\<close> the bookkeeping of the votes received; \<open>G\<close> holds the votes the
  other nodes gave to this one. Every method keeps them as long as the 64-bit term does not wrap
  around, which would show as a vote request for term 0 (\<open>no_wrap\<close>).
\<close>

section \<open>Histories\<close>

definition granted :: "Node \<Rightarrow> (Term \<times> IMessageSender) set" where
  "granted n = {(t, ch). \<exists>s r. (ch, s, RVResp r) \<in> set (sent n) \<and> vote_granted r \<and>
     rvr_candidate_term r = t}"

definition led :: "Node \<Rightarrow> Term set" where
  "led n = {t. \<exists>ch s r. (ch, s, AEReq r) \<in> set (sent n) \<and> ae_leader_term r = t}"

definition voted_by :: "(NodeId \<times> Term) set \<Rightarrow> Node \<Rightarrow> NodeId \<Rightarrow> Term \<Rightarrow> bool" where
  "voted_by G n v t \<longleftrightarrow> (v, t) \<in> G \<or>
     v = my_id n \<and> (t, TrivialMessageSender (my_id n)) \<in> granted n"

definition elected :: "(NodeId \<times> Term) set \<Rightarrow> Node \<Rightarrow> Term \<Rightarrow> bool" where
  "elected G n t \<longleftrightarrow> (\<exists>Q. Q \<subseteq> set (map_keys (channels n)) \<and>
     of_nat (card Q) * 2 \<ge> total_nodes n + 1 \<and> (\<forall>v\<in>Q. voted_by G n v t))"

definition no_wrap :: "Node \<Rightarrow> bool" where
  "no_wrap n \<longleftrightarrow> (\<forall>ch s r. (ch, s, RVReq r) \<in> set (sent n) \<longrightarrow> candidate_term r \<noteq> 0)"

section \<open>The invariants\<close>

definition signed :: "NodeId \<Rightarrow> IMessageSender \<times> NodeId \<times> Message \<Rightarrow> bool" where
  "signed i x \<longleftrightarrow> (case x of (ch, s, m) \<Rightarrow> s = i \<and>
     (case m of RVReq r \<Rightarrow> candidate_id r = i | _ \<Rightarrow> True))"

definition vote_inv :: "Node \<Rightarrow> bool" where
  "vote_inv n \<longleftrightarrow>
     (\<forall>(t, ch)\<in>granted n. t \<le> GetCurrentTerm n) \<and>
     (role n \<noteq> kLeader \<longrightarrow> (\<forall>ch. (GetCurrentTerm n, ch) \<in> granted n \<longrightarrow>
        (\<exists>c. GetVotedFor n = Some c \<and> map_find (channels n) c = Some ch))) \<and>
     (\<forall>t ch ch'. (t, ch) \<in> granted n \<longrightarrow> (t, ch') \<in> granted n \<longrightarrow> ch \<noteq> ch' \<longrightarrow> t \<in> led n) \<and>
     (\<forall>t\<in>led n. t \<le> GetCurrentTerm n) \<and>
     (role n = kLeader \<longrightarrow> GetCurrentTerm n \<in> led n) \<and>
     (\<forall>(s, r)\<in>set (incoming_request_vote_requests n). s = candidate_id r) \<and>
     (\<forall>x\<in>set (sent n). signed (my_id n) x)"

definition tally_ok :: "(NodeId \<times> Term) set \<Rightarrow> Node \<Rightarrow> NodeId \<times> RequestVoteResponse \<Rightarrow> bool" where
  "tally_ok G n x \<longleftrightarrow> (case x of (s, r) \<Rightarrow> s \<in> set (map_keys (channels n)) \<and>
     (vote_granted r \<longrightarrow> voted_by G n s (rvr_candidate_term r)))"

definition tally_inv :: "(NodeId \<times> Term) set \<Rightarrow> Node \<Rightarrow> bool" where
  "tally_inv G n \<longleftrightarrow>
     (\<forall>x\<in>set (incoming_request_vote_responses n). tally_ok G n x) \<and>
     (\<forall>cs. candidate_state n = Some cs \<longrightarrow> set (votes cs) \<subseteq> set (map_keys (channels n)) \<and>
        (\<forall>v\<in>set (votes cs). voted_by G n v (GetCurrentTerm n))) \<and>
     (\<forall>t\<in>led n. elected G n t)"

definition elect :: "(NodeId \<times> Term) set \<Rightarrow> Node \<Rightarrow> bool" where
  "elect G n \<longleftrightarrow> node_ok n \<and> (no_wrap n \<longrightarrow> vote_inv n \<and> tally_inv G n)"

section \<open>Dependencies\<close>

text \<open>What the election invariants read.\<close>

definition same_view :: "Node \<Rightarrow> Node \<Rightarrow> bool" where
  "same_view n n' \<longleftrightarrow> GetCurrentTerm n' = GetCurrentTerm n \<and> role n' = role n \<and>
     GetVotedFor n' = GetVotedFor n \<and> channels n' = channels n \<and> my_id n' = my_id n \<and>
     total_nodes n' = total_nodes n \<and> sent n' = sent n \<and>
     incoming_request_vote_requests n' = incoming_request_vote_requests n \<and>
     incoming_request_vote_responses n' = incoming_request_vote_responses n \<and>
     candidate_state n' = candidate_state n"

interpretation view_run: run_relation same_view
  by unfold_locales (simp_all add: same_view_def)

lemma same_view_sent: "same_view n n' \<Longrightarrow> sent n' = sent n"
  by (simp add: same_view_def)

lemma same_view_inv:
  assumes "same_view n n'"
  shows "vote_inv n' = vote_inv n" "tally_inv G n' = tally_inv G n" "no_wrap n' = no_wrap n"
proof -
  note v = assms[unfolded same_view_def]
  have g: "granted n' = granted n" "led n' = led n" "no_wrap n' = no_wrap n"
    using v by (simp_all add: granted_def led_def no_wrap_def)
  have vb: "voted_by G n' = voted_by G n"
    using v g by (intro ext) (simp only: voted_by_def)
  then have e: "elected G n' = elected G n" "tally_ok G n' = tally_ok G n"
    using v by (auto simp: elected_def tally_ok_def fun_eq_iff)
  show "vote_inv n' = vote_inv n" "tally_inv G n' = tally_inv G n"
    using v g vb e by (simp_all only: vote_inv_def tally_inv_def)
  show "no_wrap n' = no_wrap n" by (rule g)
qed

lemma elect_same_view: "same_view n n' \<Longrightarrow> node_ok n' \<Longrightarrow> elect G n \<Longrightarrow> elect G n'"
  by (simp add: elect_def same_view_inv)

text \<open>Votes received are never lost.\<close>

definition history_grows :: "Node \<Rightarrow> Node \<Rightarrow> bool" where
  "history_grows n n' \<longleftrightarrow> set (sent n) \<subseteq> set (sent n') \<and> ident n' = ident n"

lemma history_mono:
  assumes "history_grows n n'"
  shows "granted n \<subseteq> granted n'" "led n \<subseteq> led n'" "no_wrap n' \<Longrightarrow> no_wrap n"
    "voted_by G n v t \<Longrightarrow> voted_by G n' v t" "elected G n t \<Longrightarrow> elected G n' t"
    "tally_ok G n x \<Longrightarrow> tally_ok G n' x"
proof -
  note h = assms[unfolded history_grows_def ident_def]
  show gr: "granted n \<subseteq> granted n'" "led n \<subseteq> led n'" "no_wrap n' \<Longrightarrow> no_wrap n"
    using h by (auto simp: granted_def led_def no_wrap_def)
  show vb: "voted_by G n v t \<Longrightarrow> voted_by G n' v t" for v t
    using h gr(1) by (auto simp: voted_by_def)
  show "elected G n t \<Longrightarrow> elected G n' t"
    using h vb by (auto simp: elected_def)
  show "tally_ok G n x \<Longrightarrow> tally_ok G n' x"
    using h vb by (auto simp: tally_ok_def)
qed

lemma evolves_history: "evolves n n' \<Longrightarrow> history_grows n n'"
  by (auto simp: evolves_def history_grows_def)

section \<open>Sending\<close>

lemma granted_channel_send:
  "granted (channel_send ch s m n) = granted n \<union>
     (case m of RVResp r \<Rightarrow> if vote_granted r then {(rvr_candidate_term r, ch)} else {} | _ \<Rightarrow> {})"
  by (auto simp: granted_def split: Message.splits)

lemma led_channel_send:
  "led (channel_send ch s m n) = led n \<union>
     (case m of AEReq r \<Rightarrow> {ae_leader_term r} | _ \<Rightarrow> {})"
  by (auto simp: led_def split: Message.splits)

lemma history_channel_send: "history_grows n (channel_send ch s m n)"
  by (auto simp: history_grows_def ident_def)

text \<open>Messages whose sending does not touch the invariants.\<close>

definition harmless :: "Node \<Rightarrow> Message \<Rightarrow> bool" where
  "harmless n m = (case m of
     AEReq r \<Rightarrow> role n = kLeader \<and> ae_leader_term r = GetCurrentTerm n
   | AEResp r \<Rightarrow> True
   | RVReq r \<Rightarrow> candidate_id r = my_id n
   | RVResp r \<Rightarrow> \<not> vote_granted r)"

lemma vote_inv_send:
  assumes "vote_inv n" and "harmless n m"
  shows "vote_inv (channel_send ch (my_id n) m n)"
proof -
  let ?n = "channel_send ch (my_id n) m n"
  have g: "granted ?n = granted n"
    using assms(2) by (auto simp: granted_channel_send harmless_def split: Message.splits)
  have l: "led ?n = led n"
    using assms by (auto simp: led_channel_send harmless_def vote_inv_def split: Message.splits)
  have "signed (my_id n) (ch, my_id n, m)"
    using assms(2) by (simp add: signed_def harmless_def split: Message.splits)
  moreover have "s = candidate_id r" if "(s, r) \<in> set (incoming_request_vote_requests ?n)" for s r
    using that assms
    by (auto simp: channel_send_queues vote_inv_def harmless_def split: Message.splits if_splits)
  ultimately show ?thesis
    using assms(1) unfolding vote_inv_def g l by auto
qed

lemma tally_inv_send:
  assumes "tally_inv G n" and "vote_inv n" and "harmless n m"
    and "my_id n \<in> set (map_keys (channels n))"
  shows "tally_inv G (channel_send ch (my_id n) m n)"
proof -
  let ?n = "channel_send ch (my_id n) m n"
  note mono = history_mono[OF history_channel_send[of n ch "my_id n" m]]
  have l: "led ?n = led n"
    using assms by (auto simp: led_channel_send harmless_def vote_inv_def split: Message.splits)
  have "tally_ok G ?n x" if "x \<in> set (incoming_request_vote_responses ?n)" for x
  proof (cases "x \<in> set (incoming_request_vote_responses n)")
    case True
    then show ?thesis using assms(1) mono(6) by (auto simp: tally_inv_def)
  next
    case False
    then show ?thesis
      using that assms(3,4)
      by (auto simp: channel_send_queues harmless_def tally_ok_def split: Message.splits if_splits)
  qed
  then show ?thesis
    using assms(1) mono(4,5) unfolding tally_inv_def l by auto
qed

lemma elect_send:
  assumes "elect G n" and "harmless n m" and "msg_ok m"
  shows "elect G (channel_send ch (my_id n) m n)"
proof -
  have "my_id n \<in> set (map_keys (channels n))"
    using assms(1) by (intro channels_self) (simp add: elect_def node_ok_def)
  then show ?thesis
    using assms history_mono(3)[OF history_channel_send] vote_inv_send tally_inv_send
    by (auto simp: elect_def node_ok_channel_send)
qed

lemma elect_posted:
  assumes "elect G n" and "\<forall>(c, m)\<in>set cms. harmless n m \<and> msg_ok m"
  shows "elect G (posted cms n)"
  using assms
proof (induction cms arbitrary: n)
  case Nil
  then show ?case by simp
next
  case (Cons cm cms)
  obtain c m where cm: "cm = (c, m)" by (cases cm)
  have "harmless (post_one cm n) m' = harmless n m'" for m'
    by (simp add: harmless_def post_one_def split: Message.splits)
  moreover have "elect G (post_one cm n)"
    using Cons.prems by (simp add: post_one_def cm elect_send)
  ultimately show ?case using Cons by simp
qed

section \<open>Terms and roles\<close>

text \<open>The state after adopting a larger term: the votes of the old terms no longer bind.\<close>

lemma elect_adopt:
  assumes "elect G n"
  shows "elect G (if GetCurrentTerm n < t then BecomeFollower (set_current_term t n) else n)"
proof (cases "GetCurrentTerm n < t")
  case True
  let ?n = "BecomeFollower (set_current_term t n)"
  have acc: "GetCurrentTerm ?n = t" "role ?n = kFollower" "GetVotedFor ?n = None"
    "channels ?n = channels n" "my_id ?n = my_id n" "total_nodes ?n = total_nodes n"
    "sent ?n = sent n" "candidate_state ?n = None"
    "incoming_request_vote_requests ?n = incoming_request_vote_requests n"
    "incoming_request_vote_responses ?n = incoming_request_vote_responses n"
    by (simp_all add: BecomeFollower_def ResetElectionTimer_def Let_def node_simps)
  have h: "granted ?n = granted n" "led ?n = led n" "no_wrap ?n = no_wrap n"
    using acc(7) by (simp_all add: granted_def led_def no_wrap_def)
  have e: "tally_ok G ?n = tally_ok G n" "elected G ?n = elected G n"
    by (auto simp: tally_ok_def elected_def voted_by_def acc h fun_eq_iff)
  have "vote_inv ?n" if "vote_inv n"
    using that True unfolding vote_inv_def acc h by (auto simp: order.strict_implies_order)
  moreover have "tally_inv G ?n" if "tally_inv G n"
    using that unfolding tally_inv_def acc h e by auto
  ultimately show ?thesis
    using assms True h(3) by (auto simp: elect_def intro!: keeps)
qed (use assms in simp)

lemma elect_BecomeLeader:
  assumes "elect G n" and "\<not> no_wrap n \<or> elected G n (GetCurrentTerm n)"
  shows "on_ok (elect G) (BecomeLeader n)"
proof -
  have ok: "node_ok n" using assms(1) by (simp add: elect_def)
  let ?hb = "AEReq (heartbeat_of n)"
  let ?cms = "map (\<lambda>(k, c). (c, ?hb)) (channels n)"
  let ?n = "leading n" and ?p = "posted ?cms (leading n)"
  have queues: "incoming_request_vote_requests (leading n) = incoming_request_vote_requests n"
    "incoming_request_vote_responses (leading n) = incoming_request_vote_responses n"
    by (simp_all add: leading_def set_voted_for_def)
  obtain k c rest where first: "channels n = (k, c) # rest"
    using channels_self[of n] ok by (cases "channels n") (auto simp: node_ok_def)
  let ?m = "post_one (c, ?hb) ?n"
  have sent: "sent ?m = sent n @ [(c, my_id n, ?hb)]" by (simp add: post_one_def)
  have grow: "history_grows n ?m"
    by (auto simp: history_grows_def ident_def sent)
  note mono = history_mono[OF grow]
  have hb: "ae_leader_term (heartbeat_of n) = GetCurrentTerm n" "entries (heartbeat_of n) = []"
    by (simp_all add: heartbeat_of_def)
  have "granted ?n = granted n" "led ?n = led n" by (simp_all add: granted_def led_def)
  then have g: "granted ?m = granted n" and l: "led ?m = insert (GetCurrentTerm n) (led n)"
    by (simp_all add: post_one_def granted_channel_send led_channel_send hb)
  have q: "incoming_request_vote_requests ?m = incoming_request_vote_requests n"
    "incoming_request_vote_responses ?m = incoming_request_vote_responses n"
    by (simp_all add: post_one_def channel_send_queues queues)
  have acc: "GetCurrentTerm ?m = GetCurrentTerm n" "role ?m = kLeader" "my_id ?m = my_id n"
    "channels ?m = channels n" "candidate_state ?m = None"
    by (simp_all add: post_one_def)
  have "vote_inv ?m" if "vote_inv n"
    using that unfolding vote_inv_def acc g l q sent by (auto simp: signed_def)
  moreover have "tally_inv G ?m" if "tally_inv G n" "elected G n (GetCurrentTerm n)"
    using that mono unfolding tally_inv_def acc l q by auto
  moreover have "node_ok ?m"
    using leading_in_range(1)[OF ok] by (simp add: post_one_def node_ok_channel_send msg_ok_def hb)
  ultimately have m: "elect G ?m" using assms mono(3) by (auto simp: elect_def)
  have "elect G (posted (map (\<lambda>(k, c). (c, ?hb)) rest) ?m)"
    by (rule elect_posted[OF m]) (auto simp: harmless_def acc hb msg_ok_def)
  then show ?thesis by (simp add: BecomeLeader_value[OF ok] first)
qed

lemma elect_BecomeCandidate:
  assumes "elect G n"
  shows "on_ok (elect G) (BecomeCandidate n)"
proof -
  have ok: "node_ok n" and lok: "log_ok (GetLog n)" using assms by (simp_all add: elect_def node_ok_def)
  let ?r = "vote_request_for (campaigning n)"
  let ?cms = "map (\<lambda>(k, c). (c, RVReq ?r)) (channels n)"
  let ?c = "(campaigning n)\<lparr>role := kCandidate, candidate_state := Some \<lparr>votes = []\<rparr>, leader_state := None\<rparr>"
  let ?q = "(posted ?cms (campaigning n))
    \<lparr>role := kCandidate, candidate_state := Some \<lparr>votes = []\<rparr>, leader_state := None\<rparr>"
  have comm: "channel_send ch s m (x\<lparr>role := kCandidate, candidate_state := Some \<lparr>votes = []\<rparr>,
      leader_state := None\<rparr>) = (channel_send ch s m x)\<lparr>role := kCandidate,
      candidate_state := Some \<lparr>votes = []\<rparr>, leader_state := None\<rparr>" for ch s m x
    by (simp add: channel_send_def AddMessage_def Let_def split: IMessageSender.splits Message.splits)
  have post: "posted cms (x\<lparr>role := kCandidate, candidate_state := Some \<lparr>votes = []\<rparr>,
      leader_state := None\<rparr>) = (posted cms x)\<lparr>role := kCandidate,
      candidate_state := Some \<lparr>votes = []\<rparr>, leader_state := None\<rparr>" for cms x
    by (induction cms arbitrary: x) (simp_all add: post_one_def comm)
  have acc: "GetCurrentTerm ?c = GetCurrentTerm n + 1" "role ?c = kCandidate"
    "candidate_state ?c = Some \<lparr>votes = []\<rparr>" "my_id ?c = my_id n" "channels ?c = channels n"
    "sent ?c = sent n" "total_nodes ?c = total_nodes n" "GetVotedFor ?c = Some (my_id n)"
    "incoming_request_vote_requests ?c = incoming_request_vote_requests n"
    "incoming_request_vote_responses ?c = incoming_request_vote_responses n"
    by (simp_all add: campaigning_def ResetElectionTimer_def node_simps)
  have h: "granted ?c = granted n" "led ?c = led n" "no_wrap ?c = no_wrap n"
    using acc(6) by (simp_all add: granted_def led_def no_wrap_def)
  have e: "tally_ok G ?c = tally_ok G n" "elected G ?c = elected G n"
    by (auto simp: tally_ok_def elected_def voted_by_def acc h fun_eq_iff)
  have up: "GetCurrentTerm n < GetCurrentTerm n + 1" if "GetCurrentTerm n + 1 \<noteq> 0"
    using that unatSuc[of "GetCurrentTerm n"] by (simp add: word_less_nat_alt add.commute)
  have vi: "vote_inv ?c" if "vote_inv n" "GetCurrentTerm n + 1 \<noteq> 0"
    using that(1) up[OF that(2)] unfolding vote_inv_def acc h
    by (auto dest: order.strict_trans1)
  have ti: "tally_inv G ?c" if "tally_inv G n"
    using that unfolding tally_inv_def acc h e by auto
  have okc: "node_ok ?c"
    using ok by (simp add: campaigning_def ResetElectionTimer_def ok_defs node_simps)
  show ?thesis
  proof (cases "GetCurrentTerm n + 1 = 0")
    case True
    obtain k c rest where first: "channels n = (k, c) # rest"
      using channels_self[of n] ok by (cases "channels n") (auto simp: node_ok_def)
    have "(c, my_id n, RVReq ?r) \<in> set (sent ?q)" by (simp add: sent_posted first post_one_def)
    moreover have "candidate_term ?r = 0" by (simp add: vote_request_for_def True)
    ultimately have "\<not> no_wrap ?q" unfolding no_wrap_def by blast
    moreover have "node_ok ?q"
      using node_ok_BecomeCandidate[OF ok] by (simp add: BecomeCandidate_value[OF lok])
    ultimately show ?thesis by (simp add: BecomeCandidate_value[OF lok] elect_def)
  next
    case False
    have "elect G ?c"
      using assms vi ti okc False h(3) by (auto simp: elect_def)
    then have "elect G (posted ?cms ?c)"
      by (rule elect_posted) (auto simp: harmless_def acc vote_request_for_def msg_ok_def)
    then show ?thesis by (simp only: BecomeCandidate_value[OF lok] post post_simps)
  qed
qed

section \<open>Methods that the invariants do not see\<close>

named_theorems unseen \<open>steps that leave the view of the election invariants\<close>

lemma same_view_setters [unseen]:
  "same_view n (set_log l n)" "same_view n (set_commit_index i n)"
  "same_view n (ResetElectionTimer n)" "same_view n (snd (DidElectionTimeoutExpire n))"
  "same_view n (n\<lparr>leader_state := ls\<rparr>)" "same_view n (n\<lparr>command_results := rs\<rparr>)"
  "same_view n (n\<lparr>query_results := qs\<rparr>)" "same_view n (n\<lparr>items_to_response := rs'\<rparr>)"
  "same_view n (n\<lparr>incoming_commands := cmds\<rparr>)" "same_view n (n\<lparr>get_persistent_commands_reqs := rqs\<rparr>)"
  "same_view n (n\<lparr>tick_number := k\<rparr>)"
  by (simp_all add: same_view_def node_simps ResetElectionTimer_def DidElectionTimeoutExpire_def
      split: prod.splits)

lemma same_view_set_command_value [unseen]: "on_ok (same_view n) (set_command_value p v n)"
  by (auto simp: set_command_value_def post_bind intro!: on_okI unseen)

lemma same_view_redirect [unseen]: "on_ok (same_view n) (redirect_commands l n)"
  unfolding redirect_commands_def Let_def
  by (rule view_run.run_after[OF same_view_setters(9)]) (rule view_run.run_fold, auto intro: unseen)

lemma same_view_queries [unseen]: "on_ok (same_view n) (HandleGetPersistentCommandRequests n)"
proof -
  have "on_ok (same_view m) (answer_query q m)" for q m
    by (auto simp: answer_query_def post_bind set_query_value_def split: prod.splits
        intro!: on_okI unseen simp del: upt_Suc)
  then show ?thesis
    unfolding HandleGetPersistentCommandRequests_def Let_def
    by (intro view_run.run_after[OF same_view_setters(10) view_run.run_fold])
qed

lemma same_view_CommitIfPossible [unseen]: "on_ok (same_view n) (CommitIfPossible n)"
proof -
  have set: "on_ok (same_view m) (bind_res (set_command_value p v m) (\<lambda>n.
      Inr (n\<lparr>items_to_response := f n\<rparr>)))" for p v f m
    by (rule view_run.run_bind[OF same_view_set_command_value]) (simp add: same_view_setters)
  have "on_ok (same_view m) (respond_item i m)" for i m
    using set[where m = m] by (simp add: respond_item_def view_run.run_refl split: option.splits)
  then have loop: "on_ok (same_view m) (fold_res respond_item is m)" for "is" m
    by (rule view_run.run_fold)
  have commit: "on_ok (same_view n) (bind_res (fold_res respond_item is n) (\<lambda>n. Inr (set_commit_index i n)))"
    for i "is" by (rule view_run.run_bind[OF loop]) (simp add: same_view_setters)
  show ?thesis
    unfolding CommitIfPossible_def Let_def
    by (rule post_bindI[where P = "\<lambda>_. True"], rule on_okI, rule TrueI)
       (simp add: view_run.run_refl commit split: option.split del: upt_Suc)
qed

lemma same_view_AddNewCommandsToLog [unseen]: "on_ok (same_view n) (AddNewCommandsToLog n)"
proof -
  have "on_ok (same_view m) (append_command c m)" for c m
    by (auto simp: append_command_def push_back_def Let_def store_response_def
        drop_promise_def same_view_def node_simps
        split: prod.splits option.splits promise_state.splits)
  then show ?thesis
    unfolding AddNewCommandsToLog_def Let_def
    by (intro view_run.run_after[OF same_view_setters(9) view_run.run_fold])
qed

lemma elect_unseen:
  assumes "elect G n" and "on_ok (same_view n) m" and "on_ok node_ok m"
  shows "on_ok (elect G) m"
  using assms by (cases m) (auto intro: elect_same_view)

section \<open>Handlers\<close>

lemma elect_HandleAppendEntriesRequest:
  assumes "elect G n" and "length (entries req) \<le> max_log_size"
  shows "on_ok (\<lambda>(r, n'). elect G n') (HandleAppendEntriesRequest req n)"
proof -
  let ?a = "if GetCurrentTerm n < ae_leader_term req
      then BecomeFollower (set_current_term (ae_leader_term req) n) else n"
  define n1 where "n1 = ResetElectionTimer ?a"
  have a: "elect G ?a" by (rule elect_adopt[OF assms(1)])
  then have "node_ok (ResetElectionTimer ?a)" by (intro keeps) (simp only: elect_def)
  then have n1: "elect G n1"
    unfolding n1_def by (rule elect_same_view[OF same_view_setters(3) _ a])
  define n2 where "n2 = (if GetRole n1 \<noteq> kLeader then redirect_commands (ae_leader_id req) n1
      else Inr n1)"
  have n2: "on_ok (same_view n1) n2"
    using same_view_redirect by (simp add: n2_def view_run.run_refl)
  have app: "on_ok (\<lambda>_. True) (append_entries prev pos es log)" for prev pos es log
    by (rule on_okI) (rule TrueI)
  have fin: "same_view n1 (if c then set_commit_index i (set_log l m) else set_log l m)"
    if "same_view n1 m" for m l c i
    using that by (auto intro: unseen view_run.run_trans[OF view_run.run_trans[OF that]]
        view_run.run_trans)
  have "on_ok (\<lambda>(r, n'). same_view n1 n') (HandleAppendEntriesRequest req n)"
    unfolding HandleAppendEntriesRequest_def Let_def n1_def[symmetric] n2_def[symmetric]
    using fin by (auto simp: read_at_def view_run.run_refl intro!: post_bindI[OF n2] post_bindI[OF app])
  moreover have "on_ok (\<lambda>(r, n'). node_ok n') (HandleAppendEntriesRequest req n)"
    using assms by (intro post_mono[OF HandleAppendEntriesRequest_ok]) (auto simp: elect_def)
  ultimately show ?thesis
    using n1 by (cases "HandleAppendEntriesRequest req n") (auto intro: elect_same_view)
qed

lemma elect_handle_ae_req:
  assumes "elect G n" and "length (entries r) \<le> max_log_size"
  shows "on_ok (elect G) (handle_ae_req (s, r) n)"
proof -
  have id: "on_ok (\<lambda>(r, n'). my_id n' = my_id n) (HandleAppendEntriesRequest r n)"
    using advances_HandleAppendEntriesRequest[of n r]
    by (rule post_weaken) (auto simp: advances_defs)
  have ok: "on_ok (\<lambda>(r, n'). msg_ok (AEResp r)) (HandleAppendEntriesRequest r n)"
    using assms by (intro post_mono[OF HandleAppendEntriesRequest_ok]) (auto simp: elect_def)
  show ?thesis
    unfolding handle_ae_req_def
  proof (simp add: map_at_def split: option.split, intro allI impI on_okI)
    fix ch n'
    assume "bind_res (HandleAppendEntriesRequest r n)
        (\<lambda>(resp, n). Inr (channel_send ch (my_id n) (AEResp resp) n)) = Inr n'"
    then obtain resp m where m: "HandleAppendEntriesRequest r n = Inr (resp, m)"
      "n' = channel_send ch (my_id m) (AEResp resp) m"
      by (auto simp: bind_res_eq_Inr)
    then show "elect G n'"
      using elect_HandleAppendEntriesRequest[OF assms] ok
      by (auto intro!: elect_send simp: harmless_def)
  qed
qed

text \<open>A vote: the request names its sender, so the answer goes where the vote is recorded.\<close>

lemma elect_grant:
  assumes "elect G n" and "map_find (channels n) c = Some ch"
    and "GetVotedFor n = None \<or> GetVotedFor n = Some c"
  shows "elect G (channel_send ch (my_id n) (RVResp (RequestVoteSuccessfull (GetCurrentTerm n) n'))
    (set_voted_for (Some c) n))"
proof -
  let ?v = "set_voted_for (Some c) n" and ?r = "RequestVoteSuccessfull (GetCurrentTerm n) n'"
  let ?m = "channel_send ch (my_id n) (RVResp ?r) ?v"
  have r: "vote_granted ?r" "rvr_candidate_term ?r = GetCurrentTerm n"
    by (simp_all add: RequestVoteSuccessfull_def)
  have acc: "GetCurrentTerm ?m = GetCurrentTerm n" "role ?m = role n" "GetVotedFor ?m = Some c"
    "channels ?m = channels n" "my_id ?m = my_id n" "candidate_state ?m = candidate_state n"
    "sent ?m = sent n @ [(ch, my_id n, RVResp ?r)]"
    "incoming_request_vote_requests ?m = incoming_request_vote_requests n"
    by (simp_all add: channel_send_queues) (simp_all add: node_simps)
  have grow: "history_grows n ?m" by (auto simp: history_grows_def ident_def node_simps)
  note mono = history_mono[OF grow]
  have "granted ?v = granted n" "led ?v = led n" by (simp_all add: granted_def led_def node_simps)
  then have g: "granted ?m = insert (GetCurrentTerm n, ch) (granted n)" and l: "led ?m = led n"
    by (simp_all add: granted_channel_send led_channel_send r)
  have self: "my_id n \<in> set (map_keys (channels n))"
    using assms(1) by (intro channels_self) (simp add: elect_def node_ok_def)
  have same: "ch' = ch" if "vote_inv n" "role n \<noteq> kLeader" "(GetCurrentTerm n, ch') \<in> granted n" for ch'
    using that assms(2,3) by (fastforce simp: vote_inv_def)
  have "vote_inv ?m" if v: "vote_inv n"
  proof -
    have "t \<in> led n" if "(t, a) \<in> granted ?m" "(t, b) \<in> granted ?m" "a \<noteq> b" for t a b
    proof (cases "role n = kLeader \<and> t = GetCurrentTerm n")
      case True
      then show ?thesis using v by (simp add: vote_inv_def)
    next
      case False
      show ?thesis
      proof (cases "t = GetCurrentTerm n")
        case True
        then have "a = ch" "b = ch" using that False same[OF v] by (auto simp: g)
        then show ?thesis using that(3) by simp
      next
        case other: False
        then show ?thesis using that v unfolding vote_inv_def g by blast
      qed
    qed
    moreover have "\<exists>c'. GetVotedFor ?m = Some c' \<and> map_find (channels ?m) c' = Some a"
      if "role n \<noteq> kLeader" "(GetCurrentTerm n, a) \<in> granted ?m" for a
      using that same[OF v that(1)] assms(2) acc by (auto simp: g)
    ultimately show ?thesis
      using v unfolding vote_inv_def acc l by (auto simp: g signed_def)
  qed
  moreover have "tally_inv G ?m" if t: "tally_inv G n"
  proof -
    have "tally_ok G ?m x" if "x \<in> set (incoming_request_vote_responses ?m)" for x
    proof (cases "x \<in> set (incoming_request_vote_responses n)")
      case True
      then show ?thesis using t mono(6) by (auto simp: tally_inv_def)
    next
      case False
      then have x: "x = (my_id n, ?r)" and ch: "TrivialMessageSender (my_id n) = ch"
        using that by (auto simp: channel_send_queues node_simps split: if_splits)
      show ?thesis unfolding x tally_ok_def voted_by_def acc g ch using self by (simp add: r)
    qed
    then show ?thesis
      using t mono(4,5) unfolding tally_inv_def acc l by auto
  qed
  moreover have "node_ok ?m"
    using assms(1) by (intro keeps) (simp_all add: elect_def msg_ok_def)
  ultimately show ?thesis using assms(1) mono(3) by (auto simp: elect_def)
qed

lemma elect_wrapped:
  "\<not> no_wrap n \<Longrightarrow> history_grows n n' \<Longrightarrow> node_ok n' \<Longrightarrow> elect G n'"
  using history_mono(3) by (auto simp: elect_def)

lemma adopted_fields:
  "my_id (if c then BecomeFollower (set_current_term t n) else n) = my_id n"
  "channels (if c then BecomeFollower (set_current_term t n) else n) = channels n"
  "sent (if c then BecomeFollower (set_current_term t n) else n) = sent n"
  "total_nodes (if c then BecomeFollower (set_current_term t n) else n) = total_nodes n"
  by (simp_all add: BecomeFollower_def ResetElectionTimer_def Let_def node_simps)

lemma adopted_term:
  "GetCurrentTerm (if GetCurrentTerm n < t then BecomeFollower (set_current_term t n) else n) =
    max (GetCurrentTerm n) t"
  by (auto simp: BecomeFollower_def ResetElectionTimer_def Let_def node_simps max_def)

lemma elect_handle_rv_req_signed:
  assumes "elect G n" and "s = candidate_id r"
  shows "on_ok (elect G) (handle_rv_req (s, r) n)"
proof (cases "map_find (channels n) s")
  case None
  then show ?thesis by (simp add: handle_rv_req_def map_at_def)
next
  case (Some ch)
  define m where "m = (if GetCurrentTerm n < candidate_term r
      then BecomeFollower (set_current_term (candidate_term r) n) else n)"
  have m: "elect G m" unfolding m_def by (rule elect_adopt[OF assms(1)])
  have id: "my_id m = my_id n" "channels m = channels n"
    and tmax: "GetCurrentTerm m = max (GetCurrentTerm n) (candidate_term r)"
    by (simp_all only: m_def adopted_fields adopted_term)
  have refuse: "elect G (channel_send ch (my_id m) (RVResp q) m)" if "\<not> vote_granted q" for q
    using m that by (intro elect_send) (simp_all add: harmless_def msg_ok_def)
  have grant: "elect G (channel_send ch (my_id m) (RVResp (RequestVoteSuccessfull (candidate_term r) n'))
      (set_voted_for (Some s) m))"
    if "\<not> candidate_term r < GetCurrentTerm m" "GetVotedFor m = None \<or> GetVotedFor m = Some s" for n'
  proof -
    have t: "GetCurrentTerm m = candidate_term r" using that(1) tmax by (auto simp: max_def)
    have "map_find (channels m) s = Some ch" using Some id by simp
    from elect_grant[OF m this that(2)] show ?thesis unfolding t .
  qed
  have v: "my_id (set_voted_for x m) = my_id m" for x by (simp add: set_voted_for_def)
  have "log_ok (GetLog m)" using m by (simp add: elect_def node_ok_def)
  then have last: "GetLastLogTerm m = Inr (leader_term (last (GetLog m)))"
    by (rule GetLastLogTerm_ok)
  show ?thesis
    unfolding handle_rv_req_def prod.case HandleRequestVoteRequest_def Let_def m_def[symmetric]
    using Some assms(2) grant refuse
    by (cases "GetVotedFor m") (auto simp: map_at_def last v default_RequestVoteResponse_def
        RequestVoteUnsuccessfull_def)
qed

lemma elect_handle_rv_req:
  assumes "elect G n" and "no_wrap n \<longrightarrow> s = candidate_id r"
  shows "on_ok (elect G) (handle_rv_req (s, r) n)"
proof (cases "no_wrap n")
  case True
  then show ?thesis using assms elect_handle_rv_req_signed by simp
next
  case False
  have "on_ok (\<lambda>n'. history_grows n n') (handle_rv_req (s, r) n)"
    using advances_handle_rv_req[of n "(s, r)"]
    by (rule post_weaken) (simp add: advances_def evolves_history)
  moreover have "on_ok node_ok (handle_rv_req (s, r) n)"
    using assms(1) by (intro post_weaken[OF handle_rv_req_ok]) (auto simp: elect_def)
  ultimately show ?thesis
    using False by (cases "handle_rv_req (s, r) n") (auto intro: elect_wrapped)
qed

lemma elect_HandleAppendEntriesResponse:
  assumes "elect G n" and "msg_ok (AEResp resp)"
  shows "on_ok (elect G) (HandleAppendEntriesResponse resp s n)"
proof -
  define m where "m = (if GetCurrentTerm n < aer_current_term resp
      then BecomeFollower (set_current_term (aer_current_term resp) n) else n)"
  have m: "elect G m" unfolding m_def by (rule elect_adopt[OF assms(1)])
  have "on_ok (same_view m) (HandleAppendEntriesResponse resp s n)"
    unfolding HandleAppendEntriesResponse_def m_def[symmetric]
    by (auto simp: Let_def view_run.run_refl split: option.splits intro: unseen)
  moreover have "on_ok node_ok (HandleAppendEntriesResponse resp s n)"
    using assms by (intro post_mono[OF HandleAppendEntriesResponse_ok]) (auto simp: elect_def)
  ultimately show ?thesis by (rule elect_unseen[OF m])
qed

text \<open>A granted vote is counted; with a majority the candidate is elected.\<close>

lemma elect_count_vote:
  assumes "elect G m" and tally: "no_wrap m \<longrightarrow> tally_ok G m (s, resp)"
    and c: "GetRole m = kCandidate" "vote_granted resp" "rvr_candidate_term resp = GetCurrentTerm m"
      "candidate_state m = Some cs" and vs: "vs = set_insert s (votes cs)"
  shows "elect G (m\<lparr>candidate_state := Some (cs\<lparr>votes := vs\<rparr>)\<rparr>) \<and>
    (no_wrap m \<longrightarrow> of_nat (length vs) * 2 \<ge> total_nodes m + 1 \<longrightarrow>
      elected G (m\<lparr>candidate_state := Some (cs\<lparr>votes := vs\<rparr>)\<rparr>) (GetCurrentTerm m))"
proof -
  let ?m = "m\<lparr>candidate_state := Some (cs\<lparr>votes := vs\<rparr>)\<rparr>"
  have "set_ok (votes cs)" using assms(1) c(4) by (simp add: elect_def node_ok_def candidate_ok_def)
  then have ok: "set_ok vs" by (simp add: vs)
  have acc: "GetCurrentTerm ?m = GetCurrentTerm m" "role ?m = role m" "GetVotedFor ?m = GetVotedFor m"
    by (simp_all add: node_simps)
  have h: "granted ?m = granted m" "led ?m = led m" "no_wrap ?m = no_wrap m"
    by (simp_all add: granted_def led_def no_wrap_def)
  have e: "voted_by G ?m = voted_by G m" "tally_ok G ?m = tally_ok G m" "elected G ?m = elected G m"
    by (auto simp: tally_ok_def elected_def voted_by_def acc h fun_eq_iff)
  have "vote_inv ?m" if "vote_inv m" using that unfolding vote_inv_def acc h by simp
  moreover have voters: "set vs \<subseteq> set (map_keys (channels m)) \<and>
      (\<forall>v\<in>set vs. voted_by G m v (GetCurrentTerm m))"
    if "tally_inv G m" "tally_ok G m (s, resp)"
    using that c by (auto simp: tally_inv_def tally_ok_def vs)
  moreover have "tally_inv G ?m" if "tally_inv G m" "tally_ok G m (s, resp)"
    using that voters[OF that] unfolding tally_inv_def acc h e by simp
  moreover have "node_ok ?m"
    using assms(1) ok c by (auto simp: elect_def ok_defs node_simps GetRole_def)
  moreover have "elected G ?m (GetCurrentTerm m)"
    if "tally_inv G m" "tally_ok G m (s, resp)" "of_nat (length vs) * 2 \<ge> total_nodes m + 1"
    using voters[OF that(1,2)] that(3) set_ok_length[OF ok]
    unfolding elected_def e by (intro exI[of _ "set vs"]) simp
  ultimately show ?thesis using assms(1) tally h by (auto simp: elect_def)
qed

lemma elect_HandleRequestVoteResponse:
  assumes "elect G n" and "no_wrap n \<longrightarrow> tally_ok G n (s, resp)"
  shows "on_ok (elect G) (HandleRequestVoteResponse resp s n)"
proof -
  define m where "m = (if GetCurrentTerm n < rvr_current_term resp
      then BecomeFollower (set_current_term (rvr_current_term resp) n) else n)"
  have m: "elect G m" unfolding m_def by (rule elect_adopt[OF assms(1)])
  have fields: "my_id m = my_id n" "channels m = channels n" "sent m = sent n" "total_nodes m = total_nodes n"
    by (simp_all only: m_def adopted_fields)
  then have "history_grows n m" by (simp add: history_grows_def ident_def)
  note mono = history_mono[OF this]
  have tally: "no_wrap m \<longrightarrow> tally_ok G m (s, resp)" using assms(2) mono by blast
  note vote = elect_count_vote[OF m tally]
  show ?thesis
  proof (cases "candidate_state m")
    case None
    then show ?thesis
      unfolding HandleRequestVoteResponse_def m_def[symmetric] Let_def using m by simp
  next
    case (Some cs)
    have "on_ok (elect G) (BecomeLeader (m\<lparr>candidate_state := Some (cs\<lparr>votes := vs\<rparr>)\<rparr>))"
      if "GetRole m = kCandidate" "vote_granted resp" "rvr_candidate_term resp = GetCurrentTerm m"
        "vs = set_insert s (votes cs)" "of_nat (length vs) * 2 \<ge> total_nodes m + 1" for vs
      using vote[OF that(1-3) Some that(4)] that(5)
      by (intro elect_BecomeLeader) (auto simp: no_wrap_def node_simps)
    then show ?thesis
      unfolding HandleRequestVoteResponse_def m_def[symmetric] Let_def
      using m vote[OF _ _ _ Some refl] Some by auto
  qed
qed

section \<open>Queues and ticks\<close>

lemma history_refl: "history_grows n n"
  by (simp add: history_grows_def)

lemma history_trans: "history_grows a b \<Longrightarrow> history_grows b c \<Longrightarrow> history_grows a c"
  by (auto simp: history_grows_def)

text \<open>A loop over messages: the invariant and the growth of the history together.\<close>

lemma elect_loop:
  assumes "elect G m \<and> history_grows n m"
    and step: "\<And>x m. x \<in> set xs \<Longrightarrow> elect G m \<Longrightarrow> history_grows n m \<Longrightarrow> on_ok (elect G) (f x m)"
    and grow: "\<And>x m. on_ok (advances m) (f x m)"
  shows "on_ok (\<lambda>m. elect G m \<and> history_grows n m) (fold_res f xs m)"
proof (rule post_fold[where P = "\<lambda>m. elect G m \<and> history_grows n m", OF assms(1)])
  fix x m assume x: "x \<in> set xs" and m: "elect G m \<and> history_grows n m"
  have "on_ok (history_grows m) (f x m)"
    using grow[of m x] by (rule post_weaken) (simp add: advances_def evolves_history)
  then show "on_ok (\<lambda>m. elect G m \<and> history_grows n m) (f x m)"
    using step[OF x, of m] m by (cases "f x m") (auto intro: history_trans)
qed

text \<open>The node with its queues taken.\<close>

definition emptied :: "Node \<Rightarrow> Node" where
  "emptied n = n\<lparr>incoming_append_entries_requests := [], incoming_request_vote_requests := [],
     incoming_append_entries_responses := [], incoming_request_vote_responses := []\<rparr>"

lemma history_emptied: "history_grows n (emptied n)"
  by (simp add: history_grows_def ident_def emptied_def)

lemma elect_emptied:
  assumes "elect G n"
  shows "elect G (emptied n)"
proof -
  have h: "granted (emptied n) = granted n" "led (emptied n) = led n" "no_wrap (emptied n) = no_wrap n"
    by (simp_all add: granted_def led_def no_wrap_def emptied_def)
  then have vb: "voted_by G (emptied n) = voted_by G n"
    by (simp add: voted_by_def h fun_eq_iff emptied_def)
  then have e: "elected G (emptied n) = elected G n"
    by (simp add: elected_def fun_eq_iff emptied_def)
  have acc: "GetCurrentTerm (emptied n) = GetCurrentTerm n" "GetVotedFor (emptied n) = GetVotedFor n"
    by (simp_all add: node_simps emptied_def)
  have "vote_inv n \<Longrightarrow> vote_inv (emptied n)"
    unfolding vote_inv_def h acc by (simp add: emptied_def)
  moreover have "tally_inv G n \<Longrightarrow> tally_inv G (emptied n)"
    unfolding tally_inv_def h acc vb e by (simp add: emptied_def)
  moreover have "node_ok (emptied n)" using assms by (simp add: elect_def ok_defs node_simps emptied_def)
  ultimately show ?thesis using assms h by (auto simp: elect_def)
qed

text \<open>The messages of the queues of \<open>n\<close>, handled by a later state \<open>m\<close>.\<close>

lemma elect_queued:
  assumes "elect G n" and "elect G m" and "history_grows n m"
  shows "x \<in> set (incoming_append_entries_requests n) \<Longrightarrow> on_ok (elect G) (handle_ae_req x m)"
    and "y \<in> set (incoming_request_vote_requests n) \<Longrightarrow> on_ok (elect G) (handle_rv_req y m)"
    and "(s, r) \<in> set (incoming_append_entries_responses n) \<Longrightarrow>
      on_ok (elect G) (HandleAppendEntriesResponse r s m)"
    and "(s', v) \<in> set (incoming_request_vote_responses n) \<Longrightarrow> no_wrap m \<longrightarrow> tally_ok G m (s', v)"
    and "(s', v) \<in> set (incoming_request_vote_responses n) \<Longrightarrow>
      on_ok (elect G) (HandleRequestVoteResponse v s' m)"
proof -
  have q: "queues_ok n" and inv: "no_wrap n \<longrightarrow> vote_inv n \<and> tally_inv G n"
    using assms(1) by (simp_all add: elect_def node_ok_def)
  show "on_ok (elect G) (handle_ae_req x m)" if x: "x \<in> set (incoming_append_entries_requests n)"
    using q x elect_handle_ae_req[OF assms(2), of "snd x" "fst x"]
    by (auto simp: queues_ok_def msg_ok_def)
  show "on_ok (elect G) (HandleAppendEntriesResponse r s m)"
    if "(s, r) \<in> set (incoming_append_entries_responses n)"
    using q that elect_HandleAppendEntriesResponse[OF assms(2), of r s] by (auto simp: queues_ok_def)
  show "on_ok (elect G) (handle_rv_req y m)" if y: "y \<in> set (incoming_request_vote_requests n)"
  proof -
    have "no_wrap n \<longrightarrow> fst y = candidate_id (snd y)" using inv y by (auto simp: vote_inv_def)
    then have "no_wrap m \<longrightarrow> fst y = candidate_id (snd y)" using history_mono(3)[OF assms(3)] by blast
    then show ?thesis using elect_handle_rv_req[OF assms(2), of "fst y" "snd y"] by simp
  qed
  show t: "no_wrap m \<longrightarrow> tally_ok G m (s', v)" if "(s', v) \<in> set (incoming_request_vote_responses n)"
    using inv that history_mono(3,6)[OF assms(3)] by (auto simp: tally_inv_def)
  show "on_ok (elect G) (HandleRequestVoteResponse v s' m)"
    if "(s', v) \<in> set (incoming_request_vote_responses n)"
    using elect_HandleRequestVoteResponse[OF assms(2) t[OF that]] .
qed

lemma elect_HandleIncomingMessages:
  assumes "elect G n"
  shows "on_ok (elect G) (HandleIncomingMessages n)"
proof -
  let ?P = "\<lambda>m. elect G m \<and> history_grows n m"
  note queued = elect_queued[OF assms]
  have 1: "on_ok ?P (fold_res handle_ae_req (incoming_append_entries_requests n) (emptied n))"
    using elect_emptied[OF assms] history_emptied
    by (intro elect_loop[OF _ _ advances_handle_ae_req]) (auto intro: queued(1))
  have 2: "on_ok ?P (fold_res handle_rv_req (incoming_request_vote_requests n) m)" if "?P m" for m
    by (rule elect_loop[OF that _ advances_handle_rv_req]) (rule queued(2))
  have 3: "on_ok ?P (fold_res (\<lambda>(s, r). HandleAppendEntriesResponse r s)
      (incoming_append_entries_responses n) m)" if "?P m" for m
    by (rule elect_loop[OF that]) (auto intro: queued(3) moves)
  have 4: "on_ok ?P (fold_res (\<lambda>(s, r). HandleRequestVoteResponse r s)
      (incoming_request_vote_responses n) m)" if "?P m" for m
    by (rule elect_loop[OF that]) (auto intro: queued(5) moves)
  show ?thesis
    unfolding HandleIncomingMessages_def Let_def emptied_def[symmetric]
    by (rule post_bindI[OF 1], rule post_bindI[OF 2], assumption, rule post_bindI[OF 3], assumption,
        rule post_weaken[OF 4], assumption, simp)
qed

lemma elect_SendAppendEntriesToSomeone:
  assumes "elect G n" and known: "who \<in> set (map_keys (channels n))"
  shows "post {BadIndex} (\<lambda>m. elect G m \<and> channels m = channels n)
    (SendAppendEntriesToSomeone who hb n)"
proof (cases "role n = kLeader")
  case False
  then show ?thesis using assms by (simp add: SendAppendEntriesToSomeone_def GetRole_def)
next
  case True
  have ok: "node_ok n" using assms(1) by (simp add: elect_def)
  obtain ch where ch: "map_at (channels n) who = Inr ch" using map_at_known[OF known] by auto
  obtain nx b where b: "read_next_index who n = Inr (nx, b)" and okb: "node_ok b"
    using succeedsD[OF node_ok_read_next_index[OF ok True, of who]] by auto
  then have view: "same_view n b"
    by (auto simp: read_next_index_def Let_def split: option.splits prod.splits intro: unseen)
  have eb: "elect G b" by (rule elect_same_view[OF view okb assms(1)])
  have acc: "role b = kLeader" "channels b = channels n" "my_id b = my_id n"
    using view True by (simp_all add: same_view_def)
  have len: "length [unat nx..<Suc (unat (GetLastLogIndex b))] \<le> max_log_size"
    using okb GetLastLogIndex_nat[of b] by (auto simp: node_ok_def log_ok_def)
  have send: "elect G (channel_send ch (my_id n) (AEReq r) b)"
    if "ae_leader_term r = GetCurrentTerm b" "length (entries r) \<le> max_log_size" for r
    using elect_send[OF eb, of "AEReq r" ch] that acc by (simp add: harmless_def msg_ok_def)
  show ?thesis
    using True eb acc len send
    by (auto simp: SendAppendEntriesToSomeone_def GetRole_def ch b Let_def
        intro!: post_bindI[OF post_read_range] post_bindI[OF post_read_at] simp del: upt_Suc)
qed

lemma elect_SendAppendEntriesToAll:
  assumes "elect G n"
  shows "on_ok (elect G) (SendAppendEntriesToAll hb n)"
proof -
  have "post {BadIndex} (\<lambda>m. elect G m \<and> channels m = channels n) (SendAppendEntriesToAll hb n)"
    unfolding SendAppendEntriesToAll_def
  proof (rule post_fold[where P = "\<lambda>m. elect G m \<and> channels m = channels n"])
    show "elect G n \<and> channels n = channels n" using assms by simp
  next
    fix x m assume "x \<in> set (channels n)" and m: "elect G m \<and> channels m = channels n"
    then have "fst x \<in> set (map_keys (channels m))" by (auto simp: map_keys_def)
    from elect_SendAppendEntriesToSomeone[OF conjunct1[OF m] this, of hb] m
    show "post {BadIndex} (\<lambda>m. elect G m \<and> channels m = channels n)
        ((case x of (node_id, channel) \<Rightarrow> SendAppendEntriesToSomeone node_id hb) m)"
      by (cases x) simp
  qed
  then show ?thesis by (rule post_mono) auto
qed

lemma elect_bind_unseen:
  assumes "elect G n" and "on_ok (same_view n) m" and "on_ok node_ok m"
    and "\<And>x. elect G x \<Longrightarrow> same_view n x \<Longrightarrow> on_ok (elect G) (f x)"
  shows "on_ok (elect G) (bind_res m f)"
  using assms by (cases m) (auto intro: elect_same_view)

lemma elect_TickFollower:
  assumes "elect G n"
  shows "on_ok (elect G) (TickFollower n)"
  unfolding TickFollower_def
proof (rule post_bindI[OF elect_HandleIncomingMessages[OF assms]])
  fix m assume m: "elect G m"
  obtain e m' where d: "DidElectionTimeoutExpire m = (e, m')" by fastforce
  have "same_view m m'" "node_ok m'"
    using same_view_setters(4)[of m] node_ok_DidExpire[of m] m d by (simp_all add: elect_def)
  then have "elect G m'" using m by (rule elect_same_view)
  then show "on_ok (elect G) (let (expired, n) = DidElectionTimeoutExpire m
      in if expired then BecomeCandidate n else Inr n)"
    by (simp add: d elect_BecomeCandidate)
qed

lemma elect_TickLeader:
  assumes "elect G n" and "role n = kLeader"
  shows "on_ok (elect G) (TickLeader n)"
proof -
  have commit: "on_ok node_ok (CommitIfPossible n)"
    using assms by (intro post_mono[OF CommitIfPossible_ok]) (auto simp: elect_def)
  have new: "on_ok (elect G) (AddNewCommandsToLog m)" if "elect G m" for m
    using that by (intro elect_unseen[OF that same_view_AddNewCommandsToLog]
        post_mono[OF AddNewCommandsToLog_ok]) (auto simp: elect_def)
  have send: "on_ok (elect G) (bind_res (SendAppendEntriesToAll True m) AddNewCommandsToLog)"
    if "elect G m" for m
    by (rule post_bindI[OF elect_SendAppendEntriesToAll[OF that]]) (rule new)
  have "on_ok (elect G) (bind_res (HandleIncomingMessages m) (\<lambda>n. if GetRole n = kLeader
      then bind_res (SendAppendEntriesToAll True n) AddNewCommandsToLog else Inr n))"
    if "elect G m" for m
    by (rule post_bindI[OF elect_HandleIncomingMessages[OF that]]) (auto intro: send)
  then show ?thesis
    unfolding TickLeader_def
    by (intro elect_bind_unseen[OF assms(1) same_view_CommitIfPossible commit])
qed

lemma elect_tick_once:
  assumes "elect G n"
  shows "on_ok (elect G) (tick_once n)"
proof -
  let ?n = "n\<lparr>tick_number := tick_number n + 1\<rparr>"
  have "node_ok ?n" using assms by (simp add: elect_def ok_defs node_simps)
  then have n: "elect G ?n" by (rule elect_same_view[OF same_view_setters(11) _ assms])
  have "on_ok node_ok (HandleGetPersistentCommandRequests ?n)"
    using n by (intro post_mono[OF HandleGetPersistentCommandRequests_ok]) (auto simp: elect_def)
  then show ?thesis
    unfolding tick_once_def Let_def
    by (rule elect_bind_unseen[OF n same_view_queries])
      (auto simp: TickCandidate_def elect_TickLeader elect_TickFollower split: NodeState.split)
qed

lemma elect_tick_times: "elect G n \<Longrightarrow> on_ok (elect G) (tick_times k n)"
proof (induction k arbitrary: n)
  case 0
  then show ?case by simp
next
  case (Suc k)
  then show ?case by (auto intro: post_bindI[OF elect_tick_once])
qed

text \<open>Ticks only add to the history.\<close>

lemma history_tick_once: "on_ok (history_grows n) (tick_once n)"
proof -
  let ?n = "n\<lparr>tick_number := tick_number n + 1\<rparr>"
  have view: "on_ok (same_view ?n) (HandleGetPersistentCommandRequests ?n)"
    by (rule same_view_queries)
  have "history_grows n m" if "same_view ?n m" for m
    using that by (simp add: same_view_def history_grows_def ident_def)
  moreover have "on_ok (history_grows m) (case role m of kFollower \<Rightarrow> TickFollower m
      | kCandidate \<Rightarrow> TickCandidate m | kLeader \<Rightarrow> TickLeader m)" for m
    using evolves_tick_role[of m] by (rule post_weaken) (rule evolves_history)
  ultimately show ?thesis
    unfolding tick_once_def Let_def
    by (intro post_bindI[OF view]) (meson history_trans post_weaken)
qed

lemma history_tick_times: "on_ok (history_grows n) (tick_times k n)"
proof (induction k arbitrary: n)
  case 0
  then show ?case by (simp add: history_refl)
next
  case (Suc k)
  show ?case
    by (simp, rule post_bindI[OF history_tick_once]) (meson Suc.IH history_trans post_weaken)
qed

end
