(* ===== verification/LogSteps.thy ===== *)
theory LogSteps
  imports Election
begin

text \<open>
  A node as an abstract replica of a log. \<open>LogView\<close> keeps what replication and voting read of a node: its
  log, term and role, the \<open>AppendEntries\<close> requests it has sent and those it holds for processing; the votes
  it has asked for, the requests for its own vote with the channel of the answer, the votes it has given
  and the entries it has acknowledged. \<open>log_step\<close> lists the nine things that can happen to a view; the
  lemmas below show that every method of the node, and so every tick, is a sequence of them.
  \<open>TermLogs\<close>, \<open>Ballots\<close> and \<open>Completeness\<close> prove their invariants about the nine steps alone.
\<close>

record LogView =
  lv_log :: Log
  lv_term :: Term
  lv_role :: NodeState
  lv_sent :: "AppendEntriesRequest set"
  lv_held :: "AppendEntriesRequest set"
  lv_self :: IMessageSender
  lv_asks :: "RequestVoteRequest set"
  lv_polls :: "(IMessageSender \<times> RequestVoteRequest) set"
  lv_votes :: "(Term \<times> IMessageSender) set"
  lv_acks :: "(Term \<times> nat) set"

text \<open>A request that is cut from a log of the term \<open>t\<close>.\<close>

definition cut_from :: "Term \<Rightarrow> Log \<Rightarrow> AppendEntriesRequest \<Rightarrow> bool" where
  "cut_from t log r \<longleftrightarrow> ae_leader_term r = t \<and> unat (prev_log_index r) < length log \<and>
     prev_log_term r = leader_term (log ! unat (prev_log_index r)) \<and>
     entries r = drop (Suc (unat (prev_log_index r))) log"

text \<open>A request that a log has passed: the previous entry matches and the new ones are there.\<close>

definition holds_request :: "Log \<Rightarrow> AppendEntriesRequest \<Rightarrow> bool" where
  "holds_request log r \<longleftrightarrow> unat (prev_log_index r) < length log \<and>
     leader_term (log ! unat (prev_log_index r)) = prev_log_term r \<and>
     take (length (entries r)) (drop (Suc (unat (prev_log_index r))) log) = entries r"

text \<open>A vote request states the end of a log, and a voter compares it with its own.\<close>

definition states_end :: "RequestVoteRequest \<Rightarrow> Log \<Rightarrow> bool" where
  "states_end q log \<longleftrightarrow> log \<noteq> [] \<and> candidate_last_log_term q = leader_term (last log) \<and>
     unat (candidate_last_log_index q) = length log - 1"

definition up_to_date :: "RequestVoteRequest \<Rightarrow> Log \<Rightarrow> bool" where
  "up_to_date q log \<longleftrightarrow> log \<noteq> [] \<and> (leader_term (last log) < candidate_last_log_term q \<or>
     leader_term (last log) = candidate_last_log_term q \<and>
     length log - 1 \<le> unat (candidate_last_log_index q))"

text \<open>\<open>may_lead\<close> says when a candidate may become leader.\<close>

inductive log_step :: "(LogView \<Rightarrow> bool) \<Rightarrow> LogView \<Rightarrow> LogView \<Rightarrow> bool" for may_lead where
  adopt: "lv_term s < t \<Longrightarrow> log_step may_lead s (s\<lparr>lv_term := t, lv_role := kFollower\<rparr>)"
| campaign: "lv_term s < t \<Longrightarrow> candidate_term q = t \<Longrightarrow> states_end q (lv_log s) \<Longrightarrow>
    P \<subseteq> insert (lv_self s, q) (lv_polls s) \<Longrightarrow> log_step may_lead s
      (s\<lparr>lv_term := t, lv_role := kCandidate, lv_asks := insert q (lv_asks s), lv_polls := P\<rparr>)"
| lead: "lv_role s = kCandidate \<Longrightarrow> may_lead s \<Longrightarrow> cut_from (lv_term s) (lv_log s) r \<Longrightarrow>
    H \<subseteq> insert r (lv_held s) \<Longrightarrow>
    log_step may_lead s (s\<lparr>lv_role := kLeader, lv_sent := insert r (lv_sent s), lv_held := H\<rparr>)"
| send: "lv_role s = kLeader \<Longrightarrow> cut_from (lv_term s) (lv_log s) r \<Longrightarrow> H \<subseteq> insert r (lv_held s) \<Longrightarrow>
    log_step may_lead s (s\<lparr>lv_sent := insert r (lv_sent s), lv_held := H\<rparr>)"
| copy: "r \<in> lv_held s \<Longrightarrow> ae_leader_term r = lv_term s \<Longrightarrow>
    unat (prev_log_index r) < length (lv_log s) \<Longrightarrow>
    leader_term (lv_log s ! unat (prev_log_index r)) = prev_log_term r \<Longrightarrow>
    log_step may_lead s (s\<lparr>lv_log := merge_entries (unat (prev_log_index r)) (entries r) (lv_log s)\<rparr>)"
| acknowledge: "r \<in> lv_held s \<Longrightarrow> ae_leader_term r = lv_term s \<Longrightarrow> holds_request (lv_log s) r \<Longrightarrow>
    A \<subseteq> {lv_term s} \<times> {..unat (prev_log_index r) + length (entries r)} \<Longrightarrow>
    log_step may_lead s (s\<lparr>lv_acks := lv_acks s \<union> A\<rparr>)"
| vote: "(ch, q) \<in> lv_polls s \<Longrightarrow> candidate_term q = lv_term s \<Longrightarrow> up_to_date q (lv_log s) \<Longrightarrow>
    log_step may_lead s (s\<lparr>lv_votes := insert (candidate_term q, ch) (lv_votes s)\<rparr>)"
| append_new: "lv_role s = kLeader \<Longrightarrow>
    log_step may_lead s (s\<lparr>lv_log := lv_log s @ [LogItem c (lv_term s)]\<rparr>)"
| forget: "H \<subseteq> lv_held s \<Longrightarrow> P \<subseteq> lv_polls s \<Longrightarrow>
    log_step may_lead s (s\<lparr>lv_held := H, lv_polls := P\<rparr>)"

inductive_cases log_stepE: "log_step may_lead s s'"

abbreviation log_steps :: "(LogView \<Rightarrow> bool) \<Rightarrow> LogView \<Rightarrow> LogView \<Rightarrow> bool" where
  "log_steps may_lead \<equiv> (log_step may_lead)\<^sup>*\<^sup>*"

section \<open>The view of a node\<close>

definition ae_sent :: "Node \<Rightarrow> AppendEntriesRequest set" where
  "ae_sent n = {r. \<exists>ch s. (ch, s, AEReq r) \<in> set (sent n)}"

definition rv_sent :: "Node \<Rightarrow> RequestVoteRequest set" where
  "rv_sent n = {r. \<exists>ch s. (ch, s, RVReq r) \<in> set (sent n)}"

definition acks_of :: "AppendEntriesResponse \<Rightarrow> (Term \<times> nat) set" where
  "acks_of r = {(t, k). success r \<and> aer_current_term r = t \<and> (\<exists>u. matched_until r = Some u \<and> k \<le> unat u)}"

text \<open>The entries that a node has acknowledged, with the term of the acknowledgement.\<close>

definition acked :: "Node \<Rightarrow> (Term \<times> nat) set" where
  "acked n = \<Union> (acks_of ` {r. \<exists>ch s. (ch, s, AEResp r) \<in> set (sent n)})"

definition polls_of :: "Node \<Rightarrow> (NodeId \<times> RequestVoteRequest) set \<Rightarrow> (IMessageSender \<times> RequestVoteRequest) set" where
  "polls_of n X = {(ch, q). \<exists>s. (s, q) \<in> X \<and> map_find (channels n) s = Some ch}"

text \<open>\<open>Q\<close> are the requests that a running \<open>HandleIncomingMessages\<close> has taken from the two queues.\<close>

type_synonym taken = "AppendEntriesRequest set \<times> (NodeId \<times> RequestVoteRequest) set"

abbreviation nothing :: taken where
  "nothing \<equiv> ({}, {})"

definition log_view :: "taken \<Rightarrow> Node \<Rightarrow> LogView" where
  "log_view Q n = \<lparr>lv_log = GetLog n, lv_term = GetCurrentTerm n, lv_role = role n, lv_sent = ae_sent n,
     lv_held = fst Q \<union> snd ` set (incoming_append_entries_requests n),
     lv_self = TrivialMessageSender (my_id n), lv_asks = rv_sent n,
     lv_polls = polls_of n (snd Q \<union> set (incoming_request_vote_requests n)),
     lv_votes = granted n, lv_acks = acked n\<rparr>"

lemma led_ae_sent: "led n = ae_leader_term ` ae_sent n"
  by (auto simp: led_def ae_sent_def)

lemma log_view_fields [simp]:
  "lv_log (log_view Q n) = GetLog n" "lv_term (log_view Q n) = GetCurrentTerm n"
  "lv_role (log_view Q n) = role n" "lv_sent (log_view Q n) = ae_sent n"
  "lv_held (log_view Q n) = fst Q \<union> snd ` set (incoming_append_entries_requests n)"
  "lv_self (log_view Q n) = TrivialMessageSender (my_id n)" "lv_asks (log_view Q n) = rv_sent n"
  "lv_polls (log_view Q n) = polls_of n (snd Q \<union> set (incoming_request_vote_requests n))"
  "lv_votes (log_view Q n) = granted n" "lv_acks (log_view Q n) = acked n"
  by (simp_all add: log_view_def)

lemmas histories = ae_sent_def rv_sent_def granted_def acked_def

text \<open>The histories depend on the messages sent alone.\<close>

lemma same_sent:
  assumes "sent n' = sent n"
  shows "ae_sent n' = ae_sent n" "rv_sent n' = rv_sent n" "granted n' = granted n" "acked n' = acked n"
    "led n' = led n" "no_wrap n' = no_wrap n"
  using assms by (simp_all add: ae_sent_def rv_sent_def granted_def acked_def led_def no_wrap_def)

lemma polls_of_cong: "channels n' = channels n \<Longrightarrow> polls_of n' X = polls_of n X"
  by (simp add: polls_of_def)

lemma polls_of_mono: "X \<subseteq> Y \<Longrightarrow> polls_of n X \<subseteq> polls_of n Y"
  by (auto simp: polls_of_def)

lemma sent_sets:
  "ae_sent (channel_send ch s m n) = ae_sent n \<union> (case m of AEReq r \<Rightarrow> {r} | _ \<Rightarrow> {})"
  "rv_sent (channel_send ch s m n) = rv_sent n \<union> (case m of RVReq r \<Rightarrow> {r} | _ \<Rightarrow> {})"
  "acked (channel_send ch s m n) = acked n \<union> (case m of AEResp r \<Rightarrow> acks_of r | _ \<Rightarrow> {})"
proof -
  let ?n = "channel_send ch s m n"
  have "{r. \<exists>c i. (c, i, AEResp r) \<in> set (sent ?n)} =
      {r. \<exists>c i. (c, i, AEResp r) \<in> set (sent n)} \<union> (case m of AEResp r \<Rightarrow> {r} | _ \<Rightarrow> {})"
    by (cases m) auto
  then show "acked ?n = acked n \<union> (case m of AEResp r \<Rightarrow> acks_of r | _ \<Rightarrow> {})"
    by (cases m) (simp_all add: acked_def Un_commute)
qed (cases m; auto simp: ae_sent_def rv_sent_def)+

lemma log_view_eqI:
  assumes "GetLog n' = GetLog n" and "GetCurrentTerm n' = GetCurrentTerm n" and "role n' = role n"
    and "sent n' = sent n" and "ident n' = ident n"
    and "incoming_append_entries_requests n' = incoming_append_entries_requests n"
    and "incoming_request_vote_requests n' = incoming_request_vote_requests n"
  shows "log_view Q n' = log_view Q n"
  using assms by (simp add: log_view_def same_sent[OF assms(4)] polls_of_def ident_def)

text \<open>
  A candidate may lead when a majority voted for it: the votes of the others are \<open>G\<close>, its own is in its
  view.
\<close>

definition voted :: "(NodeId \<times> Term) set \<Rightarrow> Node \<Rightarrow> LogView \<Rightarrow> bool" where
  "voted G n s \<longleftrightarrow> (\<exists>W. W \<subseteq> set (map_keys (channels n)) \<and> of_nat (card W) * 2 \<ge> total_nodes n + 1 \<and>
     (\<forall>v\<in>W. (v, lv_term s) \<in> G \<or> v = my_id n \<and> (lv_term s, lv_self s) \<in> lv_votes s))"

lemma voted_elected: "voted G n (log_view Q n) \<longleftrightarrow> elected G n (GetCurrentTerm n)"
  by (simp add: voted_def elected_def voted_by_def)

lemma voted_ident: "ident m = ident n \<Longrightarrow> voted G m = voted G n"
  by (simp add: voted_def ident_def fun_eq_iff)

section \<open>Steps of a node\<close>

text \<open>
  A step of a node: while its invariant holds and its terms do not wrap around, the view moves by
  abstract steps. The relation is reflexive and transitive without side conditions, so the rules of
  \<open>run_relation\<close> apply to it.
\<close>

definition lives :: "(LogView \<Rightarrow> bool) \<Rightarrow> taken \<Rightarrow> Node \<Rightarrow> Node \<Rightarrow> bool" where
  "lives P Q n n' \<longleftrightarrow> history_grows n n' \<and> (node_ok n \<longrightarrow> node_ok n' \<and>
     (no_wrap n' \<longrightarrow> log_steps P (log_view Q n) (log_view Q n')))"

lemma lives_trans:
  assumes "lives P Q a b" and "lives P Q b c"
  shows "lives P Q a c"
proof -
  have "history_grows a c" using assms history_trans by (auto simp: lives_def)
  moreover have "no_wrap b" if "no_wrap c" using assms(2) that history_mono(3) by (auto simp: lives_def)
  ultimately show ?thesis using assms by (auto simp: lives_def intro: rtranclp_trans)
qed

interpretation lives_run: run_relation "lives P Q" for P Q
  by unfold_locales (simp add: lives_def history_refl, rule lives_trans)

text \<open>A step that the view does not see.\<close>

definition same_logs :: "Node \<Rightarrow> Node \<Rightarrow> bool" where
  "same_logs n n' \<longleftrightarrow> GetLog n' = GetLog n \<and> GetCurrentTerm n' = GetCurrentTerm n \<and> role n' = role n \<and>
     sent n' = sent n \<and> ident n' = ident n \<and>
     incoming_append_entries_requests n' = incoming_append_entries_requests n \<and>
     incoming_request_vote_requests n' = incoming_request_vote_requests n"

interpretation same_run: run_relation same_logs
  by unfold_locales (simp_all add: same_logs_def)

lemma lives_same: "same_logs n n' \<Longrightarrow> (node_ok n \<Longrightarrow> node_ok n') \<Longrightarrow> lives P Q n n'"
  using log_view_eqI[of n' n Q] by (auto simp: same_logs_def lives_def history_grows_def)

lemma lives_same_post:
  assumes "on_ok (same_logs n) m" and "node_ok n \<Longrightarrow> on_ok node_ok m"
  shows "on_ok (lives P Q n) m"
  using assms by (cases m) (auto intro: lives_same)

text \<open>A single abstract step.\<close>

lemma lives_step:
  assumes "history_grows n n'" and "node_ok n \<Longrightarrow> node_ok n'"
    and "node_ok n \<Longrightarrow> no_wrap n' \<Longrightarrow> log_step P (log_view Q n) s" and "log_view Q n' = s"
  shows "lives P Q n n'"
  using assms by (auto simp: lives_def)

named_theorems alike \<open>methods that leave the log view of the node\<close>

lemma same_logs_setters [alike]:
  "same_logs n (set_voted_for v n)" "same_logs n (set_commit_index i n)"
  "same_logs n (ResetElectionTimer n)" "same_logs n (snd (DidElectionTimeoutExpire n))"
  "same_logs n (n\<lparr>leader_state := ls\<rparr>)" "same_logs n (n\<lparr>candidate_state := cs\<rparr>)"
  "same_logs n (n\<lparr>command_results := rs\<rparr>)"
  "same_logs n (n\<lparr>query_results := qs\<rparr>)" "same_logs n (n\<lparr>items_to_response := rs'\<rparr>)"
  "same_logs n (n\<lparr>incoming_commands := cmds\<rparr>)" "same_logs n (n\<lparr>get_persistent_commands_reqs := rqs\<rparr>)"
  "same_logs n (n\<lparr>tick_number := k\<rparr>)"
  by (simp_all add: same_logs_def node_simps ident_def ResetElectionTimer_def
      DidElectionTimeoutExpire_def split: prod.splits)

lemma same_logs_set_command_value [alike]: "on_ok (same_logs n) (set_command_value p v n)"
  by (auto simp: set_command_value_def post_bind intro!: on_okI alike)

lemma same_logs_redirect [alike]: "on_ok (same_logs n) (redirect_commands l n)"
  unfolding redirect_commands_def Let_def
  by (rule same_run.run_after[OF same_logs_setters(10)]) (rule same_run.run_fold, auto intro: alike)

lemma same_logs_queries [alike]: "on_ok (same_logs n) (HandleGetPersistentCommandRequests n)"
proof -
  have "on_ok (same_logs m) (answer_query q m)" for q m
    by (auto simp: answer_query_def post_bind set_query_value_def split: prod.splits
        intro!: on_okI alike simp del: upt_Suc)
  then show ?thesis
    unfolding HandleGetPersistentCommandRequests_def Let_def
    by (intro same_run.run_after[OF same_logs_setters(11) same_run.run_fold])
qed

lemma same_logs_CommitIfPossible [alike]: "on_ok (same_logs n) (CommitIfPossible n)"
proof -
  have set: "on_ok (same_logs m) (bind_res (set_command_value p v m) (\<lambda>n.
      Inr (n\<lparr>items_to_response := f n\<rparr>)))" for p v f m
    by (rule same_run.run_bind[OF same_logs_set_command_value]) (simp add: same_logs_setters)
  have "on_ok (same_logs m) (respond_item i m)" for i m
    using set[where m = m] by (simp add: respond_item_def same_run.run_refl split: option.splits)
  then have loop: "on_ok (same_logs m) (fold_res respond_item is m)" for "is" m
    by (rule same_run.run_fold)
  have commit: "on_ok (same_logs n) (bind_res (fold_res respond_item is n) (\<lambda>n. Inr (set_commit_index i n)))"
    for i "is" by (rule same_run.run_bind[OF loop]) (simp add: same_logs_setters)
  show ?thesis
    unfolding CommitIfPossible_def Let_def
    by (rule post_bindI[where P = "\<lambda>_. True"], rule on_okI, rule TrueI)
       (simp add: same_run.run_refl commit split: option.split del: upt_Suc)
qed

text \<open>Sending an answer that acknowledges and grants nothing.\<close>

definition plain :: "Message \<Rightarrow> bool" where
  "plain m \<longleftrightarrow> (case m of AEReq r \<Rightarrow> False | RVReq r \<Rightarrow> False | AEResp r \<Rightarrow> \<not> success r | RVResp r \<Rightarrow> \<not> vote_granted r)"

lemma lives_send_plain:
  assumes "plain m" and "msg_ok m"
  shows "lives P Q n (channel_send ch s m n)"
proof -
  have "log_view Q (channel_send ch s m n) = log_view Q n"
    using assms(1)
    by (cases m) (simp_all add: log_view_def sent_sets granted_channel_send channel_send_queues polls_of_def
        plain_def acks_of_def)
  then show ?thesis using assms(2) by (simp add: lives_def history_channel_send node_ok_channel_send)
qed

text \<open>Acknowledging a request that the log has passed.\<close>

lemma lives_acknowledge:
  assumes "r \<in> fst Q" and "ae_leader_term r = GetCurrentTerm n" and "holds_request (GetLog n) r"
    and "aer_current_term a = GetCurrentTerm n" and "matched_until a = Some u"
    and "unat u \<le> unat (prev_log_index r) + length (entries r)"
  shows "lives P Q n (channel_send ch s (AEResp a) n)"
proof (rule lives_step[OF history_channel_send])
  show "node_ok n \<Longrightarrow> node_ok (channel_send ch s (AEResp a) n)"
    using assms(5) by (simp add: node_ok_channel_send msg_ok_def)
  show "log_view Q (channel_send ch s (AEResp a) n) =
      (log_view Q n)\<lparr>lv_acks := lv_acks (log_view Q n) \<union> acks_of a\<rparr>"
    by (simp add: log_view_def sent_sets granted_channel_send channel_send_queues polls_of_def)
  show "log_step P (log_view Q n) ((log_view Q n)\<lparr>lv_acks := lv_acks (log_view Q n) \<union> acks_of a\<rparr>)"
    using assms by (intro log_step.acknowledge[of r]) (auto simp: acks_of_def)
qed

text \<open>Giving a vote.\<close>

lemma lives_vote:
  assumes "(s, q) \<in> snd Q" and "map_find (channels n) s = Some ch" and "candidate_term q = GetCurrentTerm n"
    and "up_to_date q (GetLog n)" and "vote_granted v" and "rvr_candidate_term v = candidate_term q"
  shows "lives P Q n (channel_send ch i (RVResp v) n)"
proof (rule lives_step[OF history_channel_send])
  show "node_ok n \<Longrightarrow> node_ok (channel_send ch i (RVResp v) n)"
    by (simp add: node_ok_channel_send msg_ok_def)
  show "log_view Q (channel_send ch i (RVResp v) n) =
      (log_view Q n)\<lparr>lv_votes := insert (candidate_term q, ch) (lv_votes (log_view Q n))\<rparr>"
    using assms(5,6)
    by (simp add: log_view_def sent_sets granted_channel_send channel_send_queues polls_of_def)
  show "log_step P (log_view Q n)
      ((log_view Q n)\<lparr>lv_votes := insert (candidate_term q, ch) (lv_votes (log_view Q n))\<rparr>)"
    using assms by (intro log_step.vote) (auto simp: polls_of_def)
qed

text \<open>Adopting a larger term, the first lines of every handler.\<close>

lemma lives_adopt:
  "lives P Q n (if GetCurrentTerm n < t then BecomeFollower (set_current_term t n) else n)"
proof (cases "GetCurrentTerm n < t")
  case True
  let ?n = "BecomeFollower (set_current_term t n)"
  have view: "log_view Q ?n = (log_view Q n)\<lparr>lv_term := t, lv_role := kFollower\<rparr>"
    by (simp add: log_view_def histories polls_of_def BecomeFollower_def ResetElectionTimer_def node_simps)
  have "log_step P (log_view Q n) ((log_view Q n)\<lparr>lv_term := t, lv_role := kFollower\<rparr>)"
    using True by (intro log_step.adopt) simp
  moreover have "history_grows n ?n"
    by (simp add: history_grows_def ident_def BecomeFollower_def ResetElectionTimer_def node_simps)
  moreover have "node_ok n \<Longrightarrow> node_ok ?n" by (intro keeps)
  ultimately show ?thesis using True lives_step[OF _ _ _ view] by simp
qed (simp add: lives_run.run_refl)

section \<open>Handlers\<close>

text \<open>The merge of a request that the node holds, as the method runs it.\<close>

lemma lives_copy:
  assumes "req \<in> fst Q" and "ae_leader_term req = GetCurrentTerm n" and "length (entries req) \<le> max_log_size"
    and "\<not> log_size (GetLog n) \<le> prev_log_index req"
    and "leader_term (GetLog n ! unat (prev_log_index req)) = prev_log_term req"
    and log: "append_entries (prev_log_index req) 0 (entries req) (GetLog n) = Inr log"
  shows "lives P Q n (set_log log n)"
proof (cases "node_ok n")
  case False
  then show ?thesis by (simp add: lives_def history_grows_def ident_def node_simps)
next
  case True
  then have lok: "log_ok (GetLog n)" by (simp add: node_ok_def)
  then have len: "unat (prev_log_index req) < length (GetLog n)" "length (GetLog n) \<le> max_log_size"
    using assms(4) log_ok_size[of "GetLog n"] by (simp_all add: word_le_nat_alt log_ok_def)
  then have m: "log = merge_entries (unat (prev_log_index req)) (entries req) (GetLog n)"
    using append_entries_cases[OF len assms(3)] log by auto
  have ok: "log_ok log"
    using log_ok_append_entries[OF lok len(1) assms(3)] log by simp
  show ?thesis
  proof (rule lives_step[OF _ node_ok_set_log])
    show "history_grows n (set_log log n)" by (simp add: history_grows_def ident_def node_simps)
    show "log_view Q (set_log log n) = (log_view Q n)\<lparr>lv_log :=
        merge_entries (unat (prev_log_index req)) (entries req) (lv_log (log_view Q n))\<rparr>"
      by (simp add: log_view_def histories polls_of_def node_simps m)
    show "log_step P (log_view Q n) ((log_view Q n)\<lparr>lv_log :=
        merge_entries (unat (prev_log_index req)) (entries req) (lv_log (log_view Q n))\<rparr>)"
      using assms(1,2,5) len(1) by (intro log_step.copy) simp_all
  qed (use ok in simp_all)
qed

text \<open>What a positive answer says of the state it leaves.\<close>

definition truthful :: "AppendEntriesRequest \<Rightarrow> AppendEntriesResponse \<Rightarrow> Node \<Rightarrow> bool" where
  "truthful r a n \<longleftrightarrow> (success a \<longrightarrow> ae_leader_term r = GetCurrentTerm n \<and> holds_request (GetLog n) r \<and>
     aer_current_term a = GetCurrentTerm n \<and> (\<exists>u. matched_until a = Some u \<and>
       unat u \<le> unat (prev_log_index r) + length (entries r)))"

lemma merged_holds:
  assumes "node_ok m" and "length (entries req) \<le> max_log_size"
    and "\<not> log_size (GetLog m) \<le> prev_log_index req"
    and "leader_term (GetLog m ! unat (prev_log_index req)) = prev_log_term req"
    and "append_entries (prev_log_index req) 0 (entries req) (GetLog m) = Inr log"
  shows "holds_request log req"
proof -
  let ?p = "unat (prev_log_index req)"
  have "log_ok (GetLog m)" using assms(1) by (simp add: node_ok_def)
  then have len: "?p < length (GetLog m)" "length (GetLog m) \<le> max_log_size"
    using assms(3) log_ok_size[of "GetLog m"] by (simp_all add: word_le_nat_alt log_ok_def)
  then have m: "log = merge_entries ?p (entries req) (GetLog m)"
    using append_entries_cases[OF len assms(2)] assms(5) by auto
  have "log ! ?p = GetLog m ! ?p"
    using merge_keeps_prefix[OF len(1), of "entries req"] by (metis lessI m nth_take)
  then show ?thesis
    using merge_length[OF len(1), of "entries req"] merge_holds_entries[OF len(1), of "entries req"] assms(4)
    by (simp add: holds_request_def m)
qed

lemma unat_last_new: "unat (min a (p + log_size es)) \<le> unat p + length es"
proof -
  have "unat (p + log_size es) \<le> unat p + unat (log_size es)" by (simp add: unat_word_ariths)
  moreover have "unat (log_size es) \<le> length es" by (simp add: log_size_def unat_of_nat take_bit_nat_eq_self_iff)
  ultimately show ?thesis by (simp add: unat_min)
qed

lemma lives_HandleAppendEntriesRequest:
  assumes "req \<in> fst Q" and len: "length (entries req) \<le> max_log_size"
  shows "on_ok (\<lambda>(a, n'). lives P Q n n' \<and> (node_ok n \<longrightarrow> truthful req a n'))
    (HandleAppendEntriesRequest req n)"
proof -
  define n1 where "n1 = ResetElectionTimer (if GetCurrentTerm n < ae_leader_term req
      then BecomeFollower (set_current_term (ae_leader_term req) n) else n)"
  have n1: "lives P Q n n1"
    unfolding n1_def
    by (rule lives_run.run_trans[OF lives_adopt lives_same[OF same_logs_setters(3)]]) (rule keeps)
  have t1: "GetCurrentTerm n1 = max (GetCurrentTerm n) (ae_leader_term req)"
    unfolding n1_def by (auto simp: BecomeFollower_def ResetElectionTimer_def node_simps max_def)
  define n2 where "n2 = (if GetRole n1 \<noteq> kLeader then redirect_commands (ae_leader_id req) n1
      else Inr n1)"
  have n2: "on_ok (same_logs n1) n2" "node_ok n1 \<Longrightarrow> on_ok node_ok n2"
    using same_logs_redirect post_mono[OF redirect_commands_ok, of n1 "node_ok" UNIV]
    by (auto simp: n2_def same_run.run_refl)
  have after: "lives P Q n m \<and> GetCurrentTerm m = GetCurrentTerm n1" if "n2 = Inr m" for m
    using n2 that lives_run.run_trans[OF n1 lives_same] by (auto simp: same_logs_def)
  have commit: "lives P Q n (set_commit_index i m)" if "lives P Q n m" for i m
    by (rule lives_run.run_trans[OF that lives_same[OF same_logs_setters(2) node_ok_set_commit_index]])
  have copied: "lives P Q n (set_log log m)"
    if "n2 = Inr m" "\<not> ae_leader_term req < GetCurrentTerm n1"
      "\<not> log_size (GetLog m) \<le> prev_log_index req"
      "leader_term (GetLog m ! unat (prev_log_index req)) = prev_log_term req"
      "append_entries (prev_log_index req) 0 (entries req) (GetLog m) = Inr log" for m log
  proof (rule lives_run.run_trans[OF conjunct1[OF after[OF that(1)]]])
    show "lives P Q m (set_log log m)"
      using that after[OF that(1)] t1 by (intro lives_copy[OF assms(1) _ len]) (auto simp: max_def)
  qed
  have told: "truthful req (AppendEntriesSuccessfull (min a (prev_log_index req + log_size (entries req))) m') m'"
    if "n2 = Inr m" "\<not> ae_leader_term req < GetCurrentTerm n1"
      "\<not> log_size (GetLog m) \<le> prev_log_index req"
      "leader_term (GetLog m ! unat (prev_log_index req)) = prev_log_term req"
      "append_entries (prev_log_index req) 0 (entries req) (GetLog m) = Inr log" "node_ok n"
      "m' = set_log log m \<or> m' = set_commit_index i (set_log log m)" for m m' log a i
  proof -
    have "node_ok m" using after[OF that(1)] that(6) by (simp add: lives_def)
    then have "holds_request log req" using that(3-5) len by (intro merged_holds)
    moreover have "GetCurrentTerm m = ae_leader_term req"
      using after[OF that(1)] that(2) t1 by (auto simp: max_def)
    ultimately show ?thesis
      using that(7) unat_last_new by (auto simp: truthful_def AppendEntriesSuccessfull_def node_simps)
  qed
  have refused: "truthful req (AppendEntriesUnsuccessfull m) m'" for m m'
    by (simp add: truthful_def AppendEntriesUnsuccessfull_def)
  show ?thesis
    unfolding HandleAppendEntriesRequest_def Let_def n1_def[symmetric] n2_def[symmetric]
    using n1 after copied commit told refused
    by (intro on_okI) (clarsimp simp: bind_res_eq_Inr read_at_def split: if_splits; metis)
qed

lemma lives_handle_ae_req:
  assumes "r \<in> fst Q" and "length (entries r) \<le> max_log_size"
  shows "on_ok (lives P Q n) (handle_ae_req (s, r) n)"
proof (cases "node_ok n")
  case False
  have "on_ok (history_grows n) (handle_ae_req (s, r) n)"
    using advances_handle_ae_req by (rule post_weaken) (simp add: advances_def evolves_history)
  then show ?thesis using False by (rule_tac post_weaken) (auto simp: lives_def)
next
  case True
  show ?thesis
    unfolding handle_ae_req_def prod.case
  proof (rule on_okI)
    fix n'
    assume "bind_res (map_at (channels n) s) (\<lambda>channel. bind_res (HandleAppendEntriesRequest r n)
        (\<lambda>(resp, n). Inr (channel_send channel (my_id n) (AEResp resp) n))) = Inr n'"
    then obtain ch resp m where m: "HandleAppendEntriesRequest r n = Inr (resp, m)"
      "n' = channel_send ch (my_id m) (AEResp resp) m"
      by (auto simp: bind_res_eq_Inr)
    have ok: "msg_ok (AEResp resp)" using HandleAppendEntriesRequest_ok[OF True assms(2)] m by simp
    have run: "lives P Q n m" "truthful r resp m"
      using lives_HandleAppendEntriesRequest[OF assms, of P n] m True by auto
    have "lives P Q m (channel_send ch (my_id m) (AEResp resp) m)"
    proof (cases "success resp")
      case True
      then obtain u where "matched_until resp = Some u"
        "unat u \<le> unat (prev_log_index r) + length (entries r)"
        using run(2) by (auto simp: truthful_def)
      then show ?thesis using run(2) True assms(1) by (intro lives_acknowledge) (auto simp: truthful_def)
    qed (use ok in \<open>simp add: lives_send_plain plain_def\<close>)
    then show "lives P Q n n'" using run(1) m(2) by (auto intro: lives_run.run_trans)
  qed
qed

text \<open>A vote goes to a candidate whose log is at least as up to date.\<close>

lemma RequestVote_granted:
  assumes "HandleRequestVoteRequest q n = Inr (v, n')" and "vote_granted v" and "log_ok (GetLog n)"
  shows "candidate_term q = GetCurrentTerm n'" "up_to_date q (GetLog n')" "rvr_candidate_term v = candidate_term q"
proof -
  define m where "m = (if GetCurrentTerm n < candidate_term q
      then BecomeFollower (set_current_term (candidate_term q) n) else n)"
  have m: "GetLog m = GetLog n" "GetCurrentTerm m = max (GetCurrentTerm n) (candidate_term q)"
    unfolding m_def by (auto simp: BecomeFollower_def ResetElectionTimer_def node_simps max_def)
  then have last: "GetLastLogTerm m = Inr (leader_term (last (GetLog n)))"
    "GetLastLogIndex m \<le> i \<longleftrightarrow> length (GetLog n) - 1 \<le> unat i" "GetLog n \<noteq> []" for i
    using assms(3) GetLastLogTerm_ok[of m] GetLastLogIndex_nat[of m] by (simp_all add: log_ok_def word_le_nat_alt)
  have acc: "GetLog (set_voted_for x m) = GetLog m" "GetCurrentTerm (set_voted_for x m) = GetCurrentTerm m" for x
    by (simp_all add: node_simps)
  show "candidate_term q = GetCurrentTerm n'" "up_to_date q (GetLog n')" "rvr_candidate_term v = candidate_term q"
    using assms(1,2) unfolding HandleRequestVoteRequest_def m_def[symmetric] Let_def last(1)
    by (auto simp: default_RequestVoteResponse_def RequestVoteUnsuccessfull_def RequestVoteSuccessfull_def
        acc m up_to_date_def last max_def split: if_splits)
qed

lemma lives_handle_rv_req:
  assumes "(s, r) \<in> snd Q"
  shows "on_ok (lives P Q n) (handle_rv_req (s, r) n)"
proof (cases "node_ok n")
  case False
  have "on_ok (history_grows n) (handle_rv_req (s, r) n)"
    using advances_handle_rv_req by (rule post_weaken) (simp add: advances_def evolves_history)
  then show ?thesis using False by (rule_tac post_weaken) (auto simp: lives_def)
next
  case True
  define n1 where "n1 = (if GetCurrentTerm n < candidate_term r
      then BecomeFollower (set_current_term (candidate_term r) n) else n)"
  have n1: "lives P Q n n1" unfolding n1_def by (rule lives_adopt)
  have "lives P Q n (set_voted_for v n1)" for v
    by (rule lives_run.run_trans[OF n1 lives_same[OF same_logs_setters(1)]]) (rule keeps)
  then have run: "on_ok (\<lambda>(r, n'). lives P Q n n') (HandleRequestVoteRequest r n)"
    unfolding HandleRequestVoteRequest_def Let_def n1_def[symmetric]
    using n1 by (auto simp: post_bind intro!: on_okI)
  have "lives P Q n (channel_send ch (my_id m) (RVResp v) m)"
    if h: "HandleRequestVoteRequest r n = Inr (v, m)" "map_find (channels n) s = Some ch" for v m ch
  proof (rule lives_run.run_trans)
    show nm: "lives P Q n m" using run h(1) by simp
    then have ch: "map_find (channels m) s = Some ch" using h(2) by (simp add: lives_def history_grows_def ident_def)
    show "lives P Q m (channel_send ch (my_id m) (RVResp v) m)"
    proof (cases "vote_granted v")
      case True
      have "log_ok (GetLog n)" using \<open>node_ok n\<close> by (simp add: node_ok_def)
      note g = RequestVote_granted[OF h(1) True this]
      show ?thesis by (rule lives_vote[OF assms ch g(1,2) True g(3)])
    qed (simp add: lives_send_plain plain_def msg_ok_def)
  qed
  then show ?thesis
    unfolding handle_rv_req_def by (intro on_okI) (auto simp: bind_res_eq_Inr map_at_def split: option.splits)
qed

lemma lives_HandleAppendEntriesResponse:
  assumes "msg_ok (AEResp resp)"
  shows "on_ok (lives P Q n) (HandleAppendEntriesResponse resp s n)"
proof -
  define m where "m = (if GetCurrentTerm n < aer_current_term resp
      then BecomeFollower (set_current_term (aer_current_term resp) n) else n)"
  have m: "lives P Q n m" unfolding m_def by (rule lives_adopt)
  have "on_ok (same_logs m) (HandleAppendEntriesResponse resp s n)"
    unfolding HandleAppendEntriesResponse_def m_def[symmetric]
    by (auto simp: Let_def same_run.run_refl split: option.splits intro: alike)
  then show ?thesis
  proof (cases "HandleAppendEntriesResponse resp s n")
    case (Inr n')
    have ok: "node_ok n'" if "node_ok n"
      using HandleAppendEntriesResponse_ok[OF that assms, of s] Inr by simp
    have "same_logs m n'" using \<open>on_ok (same_logs m) _\<close> Inr by simp
    then have "history_grows n n'" "log_view Q n' = log_view Q m" "no_wrap m = no_wrap n'"
      using m log_view_eqI[of n' m Q] by (auto simp: same_logs_def lives_def history_grows_def no_wrap_def)
    then show ?thesis using m ok Inr by (auto simp: lives_def)
  qed simp
qed

section \<open>Requests of a leader\<close>

text \<open>A channel of the leader takes a request that is cut from its log.\<close>

lemma view_send:
  fixes Q n ch s r defines "m \<equiv> channel_send ch s (AEReq r) n"
  shows "lv_held (log_view Q m) \<subseteq> insert r (lv_held (log_view Q n))"
    and "log_view Q m = (log_view Q n)\<lparr>lv_sent := insert r (ae_sent n), lv_held := lv_held (log_view Q m)\<rparr>"
proof -
  show "lv_held (log_view Q m) \<subseteq> insert r (lv_held (log_view Q n))"
    and "log_view Q m = (log_view Q n)\<lparr>lv_sent := insert r (ae_sent n), lv_held := lv_held (log_view Q m)\<rparr>"
    by (auto simp: log_view_def m_def channel_send_queues sent_sets granted_channel_send polls_of_def)
qed

lemma lives_send_request:
  assumes "role n = kLeader" and "cut_from (GetCurrentTerm n) (GetLog n) r"
  shows "lives P Q n (channel_send ch s (AEReq r) n)"
proof -
  obtain H where H: "H \<subseteq> insert r (lv_held (log_view Q n))"
    "log_view Q (channel_send ch s (AEReq r) n) = (log_view Q n)\<lparr>lv_sent := insert r (ae_sent n), lv_held := H\<rparr>"
    using view_send[of Q ch s r n] by (rule that)
  have "node_ok (channel_send ch s (AEReq r) n)" if "node_ok n"
    using that assms(2) by (intro keeps) (auto simp: msg_ok_def cut_from_def node_ok_def log_ok_def)
  moreover have "log_step P (log_view Q n) ((log_view Q n)\<lparr>lv_sent := insert r (ae_sent n), lv_held := H\<rparr>)"
    using log_step.send[of "log_view Q n" r H] assms H(1) by simp
  ultimately show ?thesis by (intro lives_step[OF history_channel_send _ _ H(2)])
qed

lemma lives_posted:
  assumes "\<forall>(c, m)\<in>set cms. \<exists>r. m = AEReq r \<and> cut_from (GetCurrentTerm n) (GetLog n) r" and "role n = kLeader"
  shows "lives P Q n (posted cms n)"
  using assms
proof (induction cms arbitrary: n)
  case Nil
  then show ?case by (simp add: lives_run.run_refl)
next
  case (Cons cm cms)
  obtain c r where cm: "cm = (c, AEReq r)" "cut_from (GetCurrentTerm n) (GetLog n) r"
    using Cons.prems(1) by (cases cm) auto
  have same: "GetCurrentTerm (post_one cm n) = GetCurrentTerm n" "GetLog (post_one cm n) = GetLog n"
    by (simp_all add: post_one_def)
  have "lives P Q n (post_one cm n)"
    using lives_send_request[OF Cons.prems(2) cm(2)] by (simp add: post_one_def cm(1))
  moreover have "lives P Q (post_one cm n) (posted cms (post_one cm n))"
    using Cons.prems by (intro Cons.IH) (simp_all add: same)
  ultimately show ?case by (auto intro: lives_run.run_trans)
qed

lemma lives_SendAppendEntriesToSomeone:
  "on_ok (\<lambda>m. lives P Q n m \<and> channels m = channels n) (SendAppendEntriesToSomeone who True n)"
proof (cases "role n = kLeader \<and> node_ok n")
  case False
  show ?thesis
  proof (cases "role n = kLeader")
    case True
    then have "\<not> node_ok n" using False by simp
    moreover have "on_ok (\<lambda>m. history_grows n m \<and> channels m = channels n)
        (SendAppendEntriesToSomeone who True n)"
      using advances_SendAppendEntriesToSomeone
      by (rule post_weaken) (auto simp: advances_def evolves_history evolves_def ident_def)
    ultimately show ?thesis by (rule_tac post_weaken) (auto simp: lives_def)
  qed (simp add: SendAppendEntriesToSomeone_def GetRole_def lives_run.run_refl)
next
  case True
  obtain nx b where b: "read_next_index who n = Inr (nx, b)" and okb: "node_ok b"
    using succeedsD[OF node_ok_read_next_index[of n who]] True by auto
  then have "same_logs n b" "channels b = channels n"
    by (auto simp: read_next_index_def Let_def same_run.run_refl split: option.splits prod.splits intro: alike)
  then have lb: "lives P Q n b" "role b = kLeader" "channels b = channels n"
    using okb True by (auto intro: lives_same simp: same_logs_def)
  have lok: "log_ok (GetLog b)" using okb by (simp add: node_ok_def)
  have cut: "cut_from (GetCurrentTerm b) (GetLog b) r"
    if "read_range (GetLog b) [unat nx..<Suc (unat (GetLastLogIndex b))] = Inr es"
      "read_at (GetLog b) (nx - 1) = Inr prev"
      "r = \<lparr>ae_leader_term = GetCurrentTerm b, ae_leader_id = i, prev_log_index = nx - 1,
        prev_log_term = leader_term prev, entries = es, leader_commit = c\<rparr>" for es prev r i c
  proof -
    have p: "unat (nx - 1) < length (GetLog b)" "prev = GetLog b ! unat (nx - 1)"
      using that(2) by (auto simp: read_at_def split: if_splits)
    have "unat (nx - 1) + unat (1 :: u64) < 2 ^ 64"
      using p(1) lok max_log_size_word by (simp add: log_ok_def)
    then have nx: "unat nx = Suc (unat (nx - 1))" using unat_plus_small[of "nx - 1" 1] by simp
    have "es = drop (unat nx) (GetLog b)"
      using that(1) lok nx p(1) by (subst (asm) read_range_upt) (auto simp: GetLastLogIndex_nat log_ok_def)
    then show ?thesis using p nx that(3) by (simp add: cut_from_def)
  qed
  show ?thesis
  proof (rule on_okI)
    fix n' assume "SendAppendEntriesToSomeone who True n = Inr n'"
    then obtain ch es prev where "map_at (channels n) who = Inr ch"
      "read_range (GetLog b) [unat nx..<Suc (unat (GetLastLogIndex b))] = Inr es"
      "read_at (GetLog b) (nx - 1) = Inr prev"
      "n' = channel_send ch (my_id b) (AEReq \<lparr>ae_leader_term = GetCurrentTerm b, ae_leader_id = my_id b,
        prev_log_index = nx - 1, prev_log_term = leader_term prev, entries = es,
        leader_commit = GetCommitIndex b\<rparr>) b"
      using True by (auto simp: SendAppendEntriesToSomeone_def GetRole_def b bind_res_eq_Inr Let_def
          simp del: upt_Suc)
    then show "lives P Q n n' \<and> channels n' = channels n"
      using lives_run.run_trans[OF lb(1) lives_send_request[OF lb(2) cut]] lb(3) by simp
  qed
qed

lemma lives_SendAppendEntriesToAll: "on_ok (lives P Q n) (SendAppendEntriesToAll True n)"
proof -
  have one: "on_ok (lives P Q m) (SendAppendEntriesToSomeone k True m)" for m k
    using lives_SendAppendEntriesToSomeone[of P Q m k] by (rule post_weaken) simp
  show ?thesis
    unfolding SendAppendEntriesToAll_def by (rule lives_run.run_fold) (auto intro: one)
qed

lemma lives_BecomeLeader:
  assumes "role n = kCandidate" and elected: "no_wrap n \<Longrightarrow> P (log_view Q n)"
  shows "on_ok (lives P Q n) (BecomeLeader n)"
proof (cases "node_ok n")
  case False
  have "on_ok (history_grows n) (BecomeLeader n)"
    using advances_BecomeLeader by (rule post_weaken) (simp add: advances_def evolves_history)
  then show ?thesis using False by (rule_tac post_weaken) (auto simp: lives_def)
next
  case True
  let ?hb = "heartbeat_of n" and ?l = "leading n"
  have lok: "log_ok (GetLog n)" using True by (simp add: node_ok_def)
  have cut: "cut_from (GetCurrentTerm n) (GetLog n) ?hb"
    using lok GetLastLogIndex_nat[OF lok] by (simp add: cut_from_def heartbeat_of_def log_ok_def last_conv_nth)
  obtain k c rest where first: "channels n = (k, c) # rest"
    using channels_self[of n] True by (cases "channels n") (auto simp: node_ok_def)
  obtain H where H: "H \<subseteq> insert ?hb (lv_held (log_view Q ?l))"
    "log_view Q (post_one (c, AEReq ?hb) ?l) = (log_view Q ?l)\<lparr>lv_sent := insert ?hb (ae_sent ?l), lv_held := H\<rparr>"
    using view_send[of Q c "my_id ?l" ?hb ?l] unfolding post_one_def fst_conv snd_conv
    by (rule that[unfolded post_one_def fst_conv snd_conv])
  have l: "log_view Q ?l = (log_view Q n)\<lparr>lv_role := kLeader\<rparr>"
    by (simp add: log_view_def histories polls_of_def leading_def node_simps)
  have grow: "history_grows n (post_one (c, AEReq ?hb) ?l)"
    by (auto simp: history_grows_def ident_def post_one_def)
  have "lives P Q n (post_one (c, AEReq ?hb) ?l)"
  proof (rule lives_step[OF grow _ _ H(2)])
    show "node_ok (post_one (c, AEReq ?hb) ?l)"
      using leading_in_range(1)[OF True] by (simp add: post_one_def node_ok_channel_send msg_ok_def heartbeat_of_def)
    assume "no_wrap (post_one (c, AEReq ?hb) ?l)"
    then have "P (log_view Q n)" by (rule elected[OF history_mono(3)[OF grow]])
    moreover have "lv_held (log_view Q ?l) = lv_held (log_view Q n)" "ae_sent ?l = ae_sent n"
      using l by (simp, simp add: ae_sent_def)
    ultimately
    show "log_step P (log_view Q n) ((log_view Q ?l)\<lparr>lv_sent := insert ?hb (ae_sent ?l), lv_held := H\<rparr>)"
      using log_step.lead[of "log_view Q n" P ?hb H] assms(1) cut H(1) by (simp add: l)
  qed
  moreover have "lives P Q (post_one (c, AEReq ?hb) ?l)
      (posted (map (\<lambda>(k, c). (c, AEReq ?hb)) rest) (post_one (c, AEReq ?hb) ?l))"
    using cut by (intro lives_posted) (auto simp: post_one_def)
  ultimately show ?thesis
    using BecomeLeader_value[OF True] by (auto simp: first intro: lives_run.run_trans)
qed

lemma lives_HandleRequestVoteResponse:
  assumes "elect G n" and "no_wrap n \<longrightarrow> tally_ok G n (s, resp)"
  shows "on_ok (lives (voted G n) Q n) (HandleRequestVoteResponse resp s n)"
proof -
  define m where "m = (if GetCurrentTerm n < rvr_current_term resp
      then BecomeFollower (set_current_term (rvr_current_term resp) n) else n)"
  let ?P = "voted G n"
  have em: "elect G m" unfolding m_def by (rule elect_adopt[OF assms(1)])
  have m: "lives ?P Q n m" unfolding m_def by (rule lives_adopt)
  then have g: "history_grows n m" by (simp add: lives_def)
  have tally: "no_wrap m \<longrightarrow> tally_ok G m (s, resp)" using assms(2) history_mono(3,6)[OF g] by blast
  let ?vote = "\<lambda>cs. m\<lparr>candidate_state := Some (cs\<lparr>votes := set_insert s (votes cs)\<rparr>)\<rparr>"
  have vote: "lives ?P Q n (?vote cs)" if "role m = kCandidate" "candidate_state m = Some cs" for cs
  proof (rule lives_run.run_trans[OF m lives_same[OF same_logs_setters(6)]])
    assume "node_ok m"
    then show "node_ok (?vote cs)" using that by (auto simp: ok_defs node_simps)
  qed
  have lead: "on_ok (lives ?P Q n) (BecomeLeader (?vote cs))"
    if c: "role m = kCandidate" "vote_granted resp" "rvr_candidate_term resp = GetCurrentTerm m"
      "candidate_state m = Some cs" "of_nat (length (set_insert s (votes cs))) * 2 \<ge> total_nodes m + 1" for cs
  proof (rule lives_run.run_after[OF vote[OF c(1,4)] lives_BecomeLeader])
    assume nw: "no_wrap (?vote cs)"
    then have "elected G (?vote cs) (GetCurrentTerm m)"
      using elect_count_vote[OF em tally _ c(2,3,4) refl] c(1,5) by (simp add: GetRole_def no_wrap_def)
    moreover have "voted G (?vote cs) = voted G n"
      using g by (intro voted_ident) (simp add: history_grows_def ident_def)
    ultimately show "voted G n (log_view Q (?vote cs))"
      using voted_elected[of G "?vote cs" Q] by (simp add: node_simps)
  qed (simp add: c)
  show ?thesis
    unfolding HandleRequestVoteResponse_def m_def[symmetric] Let_def
    using m vote lead by (auto simp: GetRole_def split: option.split)
qed

section \<open>New entries and campaigns\<close>

text \<open>A leader's own entries: every command of the queue becomes one entry.\<close>

lemma lives_AddNewCommandsToLog:
  assumes "role n = kLeader"
  shows "on_ok (lives P Q n) (AddNewCommandsToLog n)"
proof -
  have resp: "same_logs m (store_response i p m)" for i p m
    by (auto simp: store_response_def drop_promise_def same_logs_def ident_def node_simps Let_def
        split: option.splits promise_state.splits)
  have one: "on_ok (\<lambda>m'. lives P Q m m' \<and> role m' = kLeader) (append_command c m)" if "role m = kLeader" for c m
  proof (rule on_okI)
    fix m' assume m': "append_command c m = Inr m'"
    obtain cmd p where c: "c = (cmd, p)" by (cases c)
    define l where "l = GetLog m @ [LogItem cmd (GetCurrentTerm m)]"
    have l: "m' = store_response (log_size (GetLog (set_log l m)) - 1) p (set_log l m)"
      and len: "length (GetLog m) < max_log_size"
      using m' by (simp_all add: append_command_def c push_back_def Let_def l_def split: if_splits)
    have "lives P Q m (set_log l m)"
    proof (rule lives_step)
      show "history_grows m (set_log l m)" by (simp add: history_grows_def ident_def node_simps)
      show "node_ok (set_log l m)" if "node_ok m"
        using that len by (intro keeps) (auto simp: log_ok_def node_ok_def l_def)
      show "log_view Q (set_log l m) = (log_view Q m)\<lparr>lv_log := lv_log (log_view Q m) @ [LogItem cmd (lv_term (log_view Q m))]\<rparr>"
        by (simp add: log_view_def histories polls_of_def node_simps l_def)
      show "log_step P (log_view Q m) ((log_view Q m)\<lparr>lv_log := lv_log (log_view Q m) @ [LogItem cmd (lv_term (log_view Q m))]\<rparr>)"
        using \<open>role m = kLeader\<close> by (intro log_step.append_new) simp
    qed
    moreover have "lives P Q (set_log l m) m'" unfolding l by (rule lives_same[OF resp store_response_ok])
    moreover have "role m' = kLeader" using resp \<open>role m = kLeader\<close> by (simp add: l set_log_def)
    ultimately show "lives P Q m m' \<and> role m' = kLeader" by (auto intro: lives_run.run_trans)
  qed
  let ?n = "n\<lparr>incoming_commands := []\<rparr>"
  have "lives P Q n ?n" by (rule lives_same[OF same_logs_setters(10)]) (simp add: ok_defs node_simps)
  moreover
  have "on_ok (\<lambda>m. lives P Q ?n m \<and> role m = kLeader) (fold_res append_command (incoming_commands n) ?n)"
  proof (rule post_fold[where P = "\<lambda>m. lives P Q ?n m \<and> role m = kLeader"])
    show "on_ok (\<lambda>m. lives P Q ?n m \<and> role m = kLeader) (append_command x m)"
      if "lives P Q ?n m \<and> role m = kLeader" for x m
      using one[of m x] that by (cases "append_command x m") (auto intro: lives_run.run_trans)
  qed (simp add: assms lives_run.run_refl)
  then have "on_ok (lives P Q ?n) (fold_res append_command (incoming_commands n) ?n)"
    by (rule post_weaken) simp
  ultimately show ?thesis
    unfolding AddNewCommandsToLog_def Let_def by (rule lives_run.run_after)
qed

text \<open>Vote requests to a list of channels reach the queue of the node at most.\<close>

lemma queue_asks:
  "incoming_append_entries_requests (posted (map (\<lambda>(k, c). (c, RVReq r)) chs) m) = incoming_append_entries_requests m"
  "incoming_append_entries_responses (posted (map (\<lambda>(k, c). (c, RVReq r)) chs) m) = incoming_append_entries_responses m"
  by (induction chs arbitrary: m) (auto simp: post_one_def channel_send_queues)

lemma polls_asks:
  "set (incoming_request_vote_requests (posted (map (\<lambda>(k, c). (c, RVReq r)) chs) m)) \<subseteq>
     insert (my_id m, r) (set (incoming_request_vote_requests m))"
proof (induction chs arbitrary: m)
  case (Cons x chs)
  have "set (incoming_request_vote_requests (post_one (snd x, RVReq r) m)) \<subseteq>
      insert (my_id m, r) (set (incoming_request_vote_requests m))"
    by (auto simp: post_one_def channel_send_queues split: if_splits)
  then show ?case using Cons.IH[of "post_one (snd x, RVReq r) m"] by (auto simp: split_beta)
qed auto

lemma lives_BecomeCandidate: "on_ok (lives P Q n) (BecomeCandidate n)"
proof (cases "node_ok n")
  case False
  have "on_ok (history_grows n) (BecomeCandidate n)"
    using evolves_BecomeCandidate by (rule post_weaken) (rule evolves_history)
  then show ?thesis using False by (rule_tac post_weaken) (auto simp: lives_def)
next
  case True
  let ?r = "vote_request_for (campaigning n)"
  let ?p = "posted (map (\<lambda>(k, c). (c, RVReq ?r)) (channels n)) (campaigning n)"
  let ?q = "?p\<lparr>role := kCandidate, candidate_state := Some \<lparr>votes = []\<rparr>, leader_state := None\<rparr>"
  have cand: "BecomeCandidate n = Inr ?q"
    using True by (intro BecomeCandidate_value) (simp add: node_ok_def)
  have sent: "sent ?q = sent n @ map (\<lambda>(k, c). (c, my_id n, RVReq ?r)) (channels n)"
    by (simp add: sent_posted split_beta comp_def)
  let ?P = "polls_of ?q (snd Q \<union> set (incoming_request_vote_requests ?q))"
  obtain k c rest where first: "channels n = (k, c) # rest"
    using channels_self[of n] True by (cases "channels n") (auto simp: node_ok_def)
  have "ae_sent ?q = ae_sent n" "granted ?q = granted n" "acked ?q = acked n"
    unfolding histories sent by (auto 0 3)
  moreover have "(k, c) \<in> set (channels n)" by (simp add: first)
  then have "rv_sent ?q = insert ?r (rv_sent n)" unfolding rv_sent_def sent by (auto 0 3)
  ultimately have view: "log_view Q ?q = (log_view Q n)\<lparr>lv_term := GetCurrentTerm n + 1, lv_role := kCandidate,
      lv_asks := insert ?r (lv_asks (log_view Q n)), lv_polls := ?P\<rparr>"
    by (simp add: log_view_def queue_asks) (simp add: node_simps campaigning_def ResetElectionTimer_def)
  have polls: "?P \<subseteq> insert (lv_self (log_view Q n), ?r) (lv_polls (log_view Q n))"
  proof -
    have "set (incoming_request_vote_requests ?q) \<subseteq> insert (my_id n, ?r) (set (incoming_request_vote_requests n))"
      using polls_asks[of ?r "channels n" "campaigning n"] by (simp add: campaigning_def ResetElectionTimer_def node_simps)
    moreover have "map_find (channels n) (my_id n) = Some (TrivialMessageSender (my_id n))"
      using True by (simp add: ok_defs)
    moreover have "channels ?q = channels n" by (simp add: campaigning_def ResetElectionTimer_def node_simps)
    ultimately show ?thesis by (auto simp: polls_of_def)
  qed
  have ends: "states_end ?r (GetLog n)" "candidate_term ?r = GetCurrentTerm n + 1"
    using True GetLastLogIndex_nat[of n]
    by (simp_all add: states_end_def vote_request_for_def node_ok_def log_ok_def campaigning_def
        ResetElectionTimer_def node_simps GetLastLogIndex_def)
  have up: "GetCurrentTerm n < GetCurrentTerm n + 1" if "no_wrap ?q"
  proof -
    have "(c, my_id n, RVReq ?r) \<in> set (sent ?q)" by (subst sent) (simp add: first)
    then have "candidate_term ?r \<noteq> 0" using that unfolding no_wrap_def by blast
    then have "GetCurrentTerm n + 1 \<noteq> 0" by (simp add: vote_request_for_def)
    then show ?thesis using unatSuc[of "GetCurrentTerm n"] by (simp add: word_less_nat_alt add.commute)
  qed
  have "lives P Q n ?q"
  proof (rule lives_step[OF _ _ _ view])
    show "history_grows n ?q"
      using evolves_BecomeCandidate[of n] by (simp add: cand evolves_history)
    show "node_ok ?q" using node_ok_BecomeCandidate[OF True] by (simp add: cand)
    show "log_step P (log_view Q n) ((log_view Q n)\<lparr>lv_term := GetCurrentTerm n + 1, lv_role := kCandidate,
        lv_asks := insert ?r (lv_asks (log_view Q n)), lv_polls := ?P\<rparr>)"
      if "no_wrap ?q" using up[OF that] ends polls by (intro log_step.campaign) simp_all
  qed
  then show ?thesis by (simp add: cand)
qed

section \<open>Queues and ticks\<close>

text \<open>
  During \<open>HandleIncomingMessages\<close> the requests of the emptied queue are still held; when it is done
  they are forgotten.
\<close>

lemma lives_loop:
  assumes "lives P Q n m \<and> elect G m"
    and step: "\<And>x m. x \<in> set xs \<Longrightarrow> elect G m \<Longrightarrow> history_grows n m \<Longrightarrow>
      on_ok (lives P Q m) (f x m) \<and> on_ok (elect G) (f x m)"
  shows "on_ok (\<lambda>m. lives P Q n m \<and> elect G m) (fold_res f xs m)"
proof (rule post_fold[where P = "\<lambda>m. lives P Q n m \<and> elect G m", OF assms(1)])
  fix x m assume x: "x \<in> set xs" and m: "lives P Q n m \<and> elect G m"
  then have "on_ok (lives P Q m) (f x m) \<and> on_ok (elect G) (f x m)"
    using step[OF x] by (auto simp: lives_def)
  then show "on_ok (\<lambda>m. lives P Q n m \<and> elect G m) (f x m)"
    using m by (cases "f x m") (auto intro: lives_run.run_trans)
qed

lemma lives_forget:
  assumes "node_ok (emptied n)"
    and "lives P (snd ` set (incoming_append_entries_requests n), set (incoming_request_vote_requests n)) (emptied n) n'"
  shows "lives P nothing n n'"
proof -
  let ?Q = "(snd ` set (incoming_append_entries_requests n), set (incoming_request_vote_requests n))"
  have v: "log_view ?Q (emptied n) = log_view nothing n"
    by (simp add: log_view_def histories polls_of_def node_simps emptied_def)
  have "log_step P (log_view ?Q n') (log_view nothing n')"
    using log_step.forget[of "lv_held (log_view nothing n')" "log_view ?Q n'" "lv_polls (log_view nothing n')" P]
      polls_of_mono[of "set (incoming_request_vote_requests n')"] by (simp add: log_view_def)
  then have "log_steps P (log_view ?Q (emptied n)) (log_view nothing n')"
    if "log_steps P (log_view ?Q (emptied n)) (log_view ?Q n')"
    using that by (rule rtranclp.rtrancl_into_rtrancl[rotated])
  then show ?thesis using assms history_trans[OF history_emptied] unfolding v lives_def by blast
qed

lemma lives_HandleIncomingMessages:
  assumes "elect G n"
  shows "on_ok (\<lambda>m. lives (voted G n) nothing n m \<and> elect G m) (HandleIncomingMessages n)"
proof -
  let ?Q = "(snd ` set (incoming_append_entries_requests n), set (incoming_request_vote_requests n))"
  let ?P = "voted G n" and ?I = "\<lambda>m. lives (voted G n) ?Q (emptied n) m \<and> elect G m"
  have grows: "history_grows n m" if "history_grows (emptied n) m" for m
    using history_emptied that by (rule history_trans)
  note queued = elect_queued[OF assms _ grows]
  have q: "queues_ok n" using assms by (simp add: elect_def node_ok_def)
  have ident: "voted G m = ?P" if "history_grows (emptied n) m" for m
    using grows[OF that] by (intro voted_ident) (simp add: history_grows_def)
  have 1: "on_ok ?I (fold_res handle_ae_req (incoming_append_entries_requests n) (emptied n))"
  proof (rule lives_loop)
    fix x m assume x: "x \<in> set (incoming_append_entries_requests n)" and m: "elect G m" "history_grows (emptied n) m"
    obtain s r where sr: "x = (s, r)" by (cases x)
    then have "r \<in> fst ?Q" "length (entries r) \<le> max_log_size"
      using x q by (force, auto simp: queues_ok_def msg_ok_def)
    then show "on_ok (lives ?P ?Q m) (handle_ae_req x m) \<and> on_ok (elect G) (handle_ae_req x m)"
      using lives_handle_ae_req[of r ?Q ?P m s] queued(1)[OF m x] by (simp add: sr)
  qed (simp add: lives_run.run_refl elect_emptied[OF assms])
  have 2: "on_ok ?I (fold_res handle_rv_req (incoming_request_vote_requests n) m)" if "?I m" for m
  proof (rule lives_loop[OF that])
    fix x m assume x: "x \<in> set (incoming_request_vote_requests n)" and m: "elect G m" "history_grows (emptied n) m"
    show "on_ok (lives ?P ?Q m) (handle_rv_req x m) \<and> on_ok (elect G) (handle_rv_req x m)"
      using lives_handle_rv_req[of "fst x" "snd x" ?Q ?P m] queued(2)[OF m x] x by simp
  qed
  have 3: "on_ok ?I (fold_res (\<lambda>(s, r). HandleAppendEntriesResponse r s) (incoming_append_entries_responses n) m)"
    if "?I m" for m
  proof (rule lives_loop[OF that])
    fix x m assume x: "x \<in> set (incoming_append_entries_responses n)" and m: "elect G m" "history_grows (emptied n) m"
    obtain s r where sr: "x = (s, r)" by (cases x)
    then have "msg_ok (AEResp r)" using x q by (auto simp: queues_ok_def)
    then show "on_ok (lives ?P ?Q m) ((case x of (s, r) \<Rightarrow> HandleAppendEntriesResponse r s) m) \<and>
        on_ok (elect G) ((case x of (s, r) \<Rightarrow> HandleAppendEntriesResponse r s) m)"
      using lives_HandleAppendEntriesResponse[of r ?P ?Q m s] queued(3)[OF m x[unfolded sr]] by (simp add: sr)
  qed
  have 4: "on_ok ?I (fold_res (\<lambda>(s, r). HandleRequestVoteResponse r s) (incoming_request_vote_responses n) m)"
    if "?I m" for m
  proof (rule lives_loop[OF that])
    fix x m assume x: "x \<in> set (incoming_request_vote_responses n)" and m: "elect G m" "history_grows (emptied n) m"
    obtain s r where sr: "x = (s, r)" by (cases x)
    show "on_ok (lives ?P ?Q m) ((case x of (s, r) \<Rightarrow> HandleRequestVoteResponse r s) m) \<and>
        on_ok (elect G) ((case x of (s, r) \<Rightarrow> HandleRequestVoteResponse r s) m)"
      using lives_HandleRequestVoteResponse[OF m(1) queued(4)[OF m x[unfolded sr]], of ?Q]
        queued(5)[OF m x[unfolded sr]] ident[OF m(2)] by (simp add: sr)
  qed
  have run: "on_ok ?I (HandleIncomingMessages n)"
    unfolding HandleIncomingMessages_def Let_def emptied_def[symmetric]
    by (rule post_bindI[OF 1], rule post_bindI[OF 2], assumption, rule post_bindI[OF 3], assumption, rule 4)
  have "node_ok (emptied n)" using elect_emptied[OF assms] by (simp add: elect_def)
  note lives_forget[OF this, of ?P]
  then show ?thesis using run by (auto elim!: post_weaken)
qed

lemma lives_TickFollower:
  assumes "elect G n"
  shows "on_ok (lives (voted G n) nothing n) (TickFollower n)"
  unfolding TickFollower_def
proof (rule post_bindI[OF lives_HandleIncomingMessages[OF assms]])
  fix m assume m: "lives (voted G n) nothing n m \<and> elect G m"
  obtain e m' where d: "DidElectionTimeoutExpire m = (e, m')" by fastforce
  have "lives (voted G n) nothing m m'"
    using lives_same[OF same_logs_setters(4)[of m]] node_ok_DidExpire[of m] d by simp
  then have "lives (voted G n) nothing n m'" using m by (auto intro: lives_run.run_trans)
  then show "on_ok (lives (voted G n) nothing n) (let (expired, n) = DidElectionTimeoutExpire m
      in if expired then BecomeCandidate n else Inr n)"
    by (simp add: d lives_run.run_after[OF _ lives_BecomeCandidate])
qed

lemma role_SendAppendEntriesToAll: "on_ok (\<lambda>m. role m = role n) (SendAppendEntriesToAll hb n)"
proof -
  have "role b = role m" if "read_next_index k m = Inr (v, b)" for v b k m
    using that by (auto simp: read_next_index_def Let_def split: option.splits prod.splits)
  then have "on_ok (\<lambda>m'. role m' = role m) (SendAppendEntriesToSomeone k hb m)" for k m
    by (intro on_okI)
       (auto simp: SendAppendEntriesToSomeone_def bind_res_eq_Inr Let_def split: if_splits)
  then show ?thesis
    unfolding SendAppendEntriesToAll_def by (intro post_fold) (metis prod.case_eq_if)+
qed

lemma lives_TickLeader:
  assumes "elect G n" and "role n = kLeader"
  shows "on_ok (lives (voted G n) nothing n) (TickLeader n)"
proof -
  let ?P = "voted G n"
  have commit: "on_ok (lives ?P nothing n) (CommitIfPossible n)"
    using assms(2) by (intro lives_same_post same_logs_CommitIfPossible post_mono[OF CommitIfPossible_ok]) auto
  have ok: "on_ok node_ok (CommitIfPossible n)"
    using assms by (intro post_mono[OF CommitIfPossible_ok]) (auto simp: elect_def)
  have send: "on_ok (lives ?P nothing m) (bind_res (SendAppendEntriesToAll True m) AddNewCommandsToLog)"
    if "role m = kLeader" for m
  proof (rule post_bindI[OF iffD2[OF post_conj_same conjI[OF lives_SendAppendEntriesToAll
      role_SendAppendEntriesToAll]]])
    fix x assume "lives ?P nothing m x \<and> role x = role m"
    then show "on_ok (lives ?P nothing m) (AddNewCommandsToLog x)"
      using lives_AddNewCommandsToLog[of x ?P nothing] that by (auto intro: lives_run.run_after)
  qed
  have rest: "on_ok (lives ?P nothing m) (bind_res (HandleIncomingMessages m) (\<lambda>n. if GetRole n = kLeader
      then bind_res (SendAppendEntriesToAll True n) AddNewCommandsToLog else Inr n))"
    if "elect G m" "voted G m = ?P" for m
  proof (rule post_bindI[OF lives_HandleIncomingMessages[OF that(1), unfolded that(2)]])
    fix x assume "lives ?P nothing m x \<and> elect G x"
    then show "on_ok (lives ?P nothing m) (if GetRole x = kLeader
        then bind_res (SendAppendEntriesToAll True x) AddNewCommandsToLog else Inr x)"
      using send[of x] by (auto simp: GetRole_def intro: lives_run.run_after)
  qed
  show ?thesis
    unfolding TickLeader_def
  proof (rule post_bindI[OF iffD2[OF post_conj_same conjI[OF commit
      elect_unseen[OF assms(1) same_view_CommitIfPossible ok]]]])
    fix x assume x: "lives ?P nothing n x \<and> elect G x"
    then have "voted G x = ?P" by (intro voted_ident) (simp add: lives_def history_grows_def)
    then show "on_ok (lives ?P nothing n) (bind_res (HandleIncomingMessages x) (\<lambda>n. if GetRole n = kLeader
        then bind_res (SendAppendEntriesToAll True n) AddNewCommandsToLog else Inr n))"
      using x by (auto intro: lives_run.run_after[OF _ rest])
  qed
qed

lemma lives_tick_once:
  assumes "elect G n"
  shows "on_ok (lives (voted G n) nothing n) (tick_once n)"
proof -
  let ?n = "n\<lparr>tick_number := tick_number n + 1\<rparr>" and ?P = "voted G n"
  have live: "lives ?P nothing n ?n" by (rule lives_same[OF same_logs_setters(12)]) (simp add: ok_defs node_simps)
  have "node_ok ?n" using assms by (simp add: elect_def ok_defs node_simps)
  then have n: "elect G ?n" by (rule elect_same_view[OF same_view_setters(11) _ assms])
  have ok: "on_ok node_ok (HandleGetPersistentCommandRequests ?n)"
    using n by (intro post_mono[OF HandleGetPersistentCommandRequests_ok]) (auto simp: elect_def)
  have queries: "on_ok (lives ?P nothing ?n) (HandleGetPersistentCommandRequests ?n)"
    by (intro lives_same_post same_logs_queries post_mono[OF HandleGetPersistentCommandRequests_ok]) auto
  show ?thesis
    unfolding tick_once_def Let_def
  proof (rule lives_run.run_after[OF live], rule post_bindI[OF iffD2[OF post_conj_same conjI[OF queries
      elect_unseen[OF n same_view_queries ok]]]])
    fix x assume x: "lives ?P nothing ?n x \<and> elect G x"
    then have "voted G x = ?P"
      by (intro voted_ident) (simp add: lives_def history_grows_def ident_def)
    then have "on_ok (lives ?P nothing x) (case role x of kFollower \<Rightarrow> TickFollower x
        | kCandidate \<Rightarrow> TickCandidate x | kLeader \<Rightarrow> TickLeader x)"
      using x lives_TickFollower[of G x] lives_TickLeader[of G x]
      by (auto simp: TickCandidate_def split: NodeState.split)
    then show "on_ok (lives ?P nothing ?n) (case role x of kFollower \<Rightarrow> TickFollower x
        | kCandidate \<Rightarrow> TickCandidate x | kLeader \<Rightarrow> TickLeader x)"
      using x by (auto intro: lives_run.run_after)
  qed
qed

text \<open>Every tick is a sequence of abstract steps.\<close>

lemma lives_tick_times: "elect G n \<Longrightarrow> on_ok (lives (voted G n) nothing n) (tick_times k n)"
proof (induction k arbitrary: n)
  case 0
  then show ?case by (simp add: lives_run.run_refl)
next
  case (Suc k)
  have "on_ok (\<lambda>m. lives (voted G n) nothing n m \<and> elect G m) (tick_once n)"
    using lives_tick_once[OF Suc.prems] elect_tick_once[OF Suc.prems] by (simp add: post_conj_same)
  then show ?case
  proof (simp, rule post_bindI)
    fix m assume m: "lives (voted G n) nothing n m \<and> elect G m"
    then have "voted G m = voted G n" by (intro voted_ident) (simp add: lives_def history_grows_def)
    then show "on_ok (lives (voted G n) nothing n) (tick_times k m)"
      using Suc.IH[of m] m by (auto intro: lives_run.run_after)
  qed
qed

end
