(* ===== verification/TermLogs.thy ===== *)
theory TermLogs
  imports LogSteps
begin

text \<open>
  The logs of the terms. The ghost state of a cluster in which no term has two leaders is one log per
  term, \<open>L t\<close>: the log of the leader of \<open>t\<close>, from the moment of its election on. Every log of a member
  agrees with \<open>L\<close>, every \<open>AppendEntries\<close> request is a piece of the log of its term, and \<open>L\<close> only grows, by
  entries of its own term. The invariant is proved about the abstract steps of \<open>LogSteps\<close>.
\<close>

type_synonym TermLogs = "Term \<Rightarrow> Log"

definition agrees :: "TermLogs \<Rightarrow> Log \<Rightarrow> bool" where
  "agrees L log \<longleftrightarrow> (\<forall>k<length log. k < length (L (leader_term (log ! k))) \<and>
     take (Suc k) log = take (Suc k) (L (leader_term (log ! k))))"

definition from_logs :: "TermLogs \<Rightarrow> AppendEntriesRequest \<Rightarrow> bool" where
  "from_logs L r \<longleftrightarrow> (\<exists>es. L (ae_leader_term r) = es \<and>
     unat (prev_log_index r) + length (entries r) < length es \<and>
     prev_log_term r = leader_term (es ! unat (prev_log_index r)) \<and>
     entries r = take (length (entries r)) (drop (Suc (unat (prev_log_index r))) es))"

definition led_terms :: "LogView \<Rightarrow> Term set" where
  "led_terms s = ae_leader_term ` lv_sent s"

definition replica :: "TermLogs \<Rightarrow> LogView \<Rightarrow> bool" where
  "replica L s \<longleftrightarrow> agrees L (lv_log s) \<and> (\<forall>r\<in>lv_sent s \<union> lv_held s. from_logs L r) \<and>
     (lv_role s = kLeader \<longrightarrow> lv_log s = L (lv_term s) \<and> lv_term s \<in> led_terms s) \<and>
     (lv_role s = kCandidate \<longrightarrow> lv_term s \<notin> led_terms s \<and> lv_term s \<noteq> 0) \<and>
     (\<forall>t\<in>led_terms s. t \<le> lv_term s) \<and> (\<forall>x\<in>set (lv_log s). leader_term x \<le> lv_term s)"

definition term_logs_ok :: "TermLogs \<Rightarrow> Term set \<Rightarrow> bool" where
  "term_logs_ok L T \<longleftrightarrow> (\<forall>t. agrees L (L t) \<and> sorted (map leader_term (L t)) \<and> (\<forall>x\<in>set (L t). leader_term x \<le> t)) \<and>
     (\<forall>t. L t \<noteq> [] \<longrightarrow> t = 0 \<or> t \<in> T)"

definition logs_grow :: "Term set \<Rightarrow> TermLogs \<Rightarrow> TermLogs \<Rightarrow> bool" where
  "logs_grow T L L' \<longleftrightarrow> (\<forall>t. (\<exists>es. L' t = L t @ es \<and> (L t \<noteq> [] \<longrightarrow> (\<forall>x\<in>set es. leader_term x = t))) \<and>
     (t \<notin> T \<longrightarrow> L' t = L t))"

section \<open>Growing logs\<close>

lemma logs_grow_refl: "logs_grow T L L"
  by (simp add: logs_grow_def)

lemma logs_grow_update:
  "t \<in> T \<Longrightarrow> L t \<noteq> [] \<longrightarrow> (\<forall>x\<in>set es. leader_term x = t) \<Longrightarrow> logs_grow T L (L(t := L t @ es))"
  by (simp add: logs_grow_def)

lemma agrees_grow:
  assumes "logs_grow T L L'" and "agrees L log"
  shows "agrees L' log"
  unfolding agrees_def
proof (intro allI impI)
  fix k assume k: "k < length log"
  let ?t = "leader_term (log ! k)"
  obtain es where "L' ?t = L ?t @ es" using assms(1) by (auto simp: logs_grow_def)
  then show "k < length (L' ?t) \<and> take (Suc k) log = take (Suc k) (L' ?t)"
    using assms(2) k by (auto simp: agrees_def)
qed

lemma from_logs_grow:
  assumes "logs_grow T L L'" and "from_logs L r"
  shows "from_logs L' r"
proof -
  obtain es where "L' (ae_leader_term r) = L (ae_leader_term r) @ es"
    using assms(1) by (auto simp: logs_grow_def)
  then show ?thesis using assms(2) by (auto simp: from_logs_def nth_append)
qed

lemma replica_grow:
  assumes "logs_grow T L L'" and "replica L s" and "led_terms s \<inter> T = {}"
  shows "replica L' s"
  using assms agrees_grow[OF assms(1)] from_logs_grow[OF assms(1)]
  by (auto simp: replica_def logs_grow_def)

text \<open>Two logs that agree with the term logs match.\<close>

lemma agrees_match:
  assumes "agrees L log" and "agrees L log'" and "k < length log" and "k < length log'"
    and "leader_term (log ! k) = leader_term (log' ! k)"
  shows "take (Suc k) log = take (Suc k) log'"
  using assms by (simp add: agrees_def)

lemma agrees_append:
  assumes "agrees L log" and "length log < length (L t)" and "take (Suc (length log)) (L t) = log @ [LogItem c t]"
  shows "agrees L (log @ [LogItem c t])"
  using assms by (auto simp: agrees_def nth_append less_Suc_eq)

lemma agrees_take: "agrees L log \<Longrightarrow> agrees L (take k log)"
  by (auto simp: agrees_def min_def)

text \<open>A log is a piece of the log of its last term, and its terms never go down.\<close>

lemma agrees_last:
  assumes "agrees L log" and "log \<noteq> []"
  shows "log = take (length log) (L (leader_term (last log)))"
    "length log \<le> length (L (leader_term (last log)))"
proof -
  let ?k = "length log - 1"
  have "?k < length log" "Suc ?k = length log" "log ! ?k = last log"
    using assms(2) by (simp_all add: last_conv_nth)
  then have "?k < length (L (leader_term (last log))) \<and>
      take (length log) log = take (length log) (L (leader_term (last log)))"
    using assms(1) unfolding agrees_def by metis
  then show "log = take (length log) (L (leader_term (last log)))"
    "length log \<le> length (L (leader_term (last log)))" by auto
qed

lemma agrees_sorted:
  assumes "agrees L log" and "term_logs_ok L T"
  shows "sorted (map leader_term log)"
proof (cases "log = []")
  case False
  let ?l = "L (leader_term (last log))"
  have "sorted (map leader_term ?l)" using assms(2) by (simp add: term_logs_ok_def)
  then have "sorted (take (length log) (map leader_term ?l))" by (rule sorted_wrt_take)
  then show ?thesis using agrees_last(1)[OF assms(1) False] by (metis take_map)
qed simp

section \<open>Copying\<close>

text \<open>The consistency check of \<open>HandleAppendEntriesRequest\<close>: with the terms equal at the previous
  index, the receiver has the leader's log up to there.\<close>

lemma prev_matches:
  assumes "agrees L log" and "agrees L (L (ae_leader_term r))" and "from_logs L r"
    and "unat (prev_log_index r) < length log"
    and "leader_term (log ! unat (prev_log_index r)) = prev_log_term r"
  shows "take (Suc (unat (prev_log_index r))) log = take (Suc (unat (prev_log_index r))) (L (ae_leader_term r))"
  using assms by (intro agrees_match[of L]) (auto simp: from_logs_def)

lemma agrees_merge:
  assumes "agrees L log" and "agrees L (L (ae_leader_term r))" and "from_logs L r"
    and "unat (prev_log_index r) < length log"
    and "leader_term (log ! unat (prev_log_index r)) = prev_log_term r"
  shows "agrees L (merge_entries (unat (prev_log_index r)) (entries r) log)"
proof -
  let ?p = "unat (prev_log_index r)" and ?l = "L (ae_leader_term r)"
  have "take (Suc ?p) log @ entries r = take (Suc ?p) ?l @ take (length (entries r)) (drop (Suc ?p) ?l)"
    using prev_matches[OF assms] assms(3) by (simp add: from_logs_def)
  also have "\<dots> = take (Suc ?p + length (entries r)) ?l" by (simp only: take_add)
  finally show ?thesis
    using assms(1) agrees_take[OF assms(2)] by (simp add: merge_entries_def)
qed

lemma merge_own:
  assumes "from_logs L r" and "log = L (ae_leader_term r)"
  shows "merge_entries (unat (prev_log_index r)) (entries r) log = log"
  using assms by (simp add: merge_entries_def from_logs_def)

lemma from_logs_cut:
  assumes "cut_from t log r" and "L t = log"
  shows "from_logs L r"
  using assms by (auto simp: cut_from_def from_logs_def)

section \<open>The abstract steps\<close>

lemma log_step_led: "log_step may_lead s s' \<Longrightarrow> led_terms s \<subseteq> led_terms s'"
  by (erule log_stepE) (auto simp: led_terms_def)

text \<open>What a step gives: \<open>T\<close> are the terms that the other members led.\<close>

definition next_logs :: "Term set \<Rightarrow> TermLogs \<Rightarrow> TermLogs \<Rightarrow> LogView \<Rightarrow> bool" where
  "next_logs T L L' s \<longleftrightarrow> logs_grow (led_terms s) L L' \<and> replica L' s \<and> term_logs_ok L' (T \<union> led_terms s)"

lemma next_logs_same:
  assumes "term_logs_ok L (T \<union> led_terms s)" and "replica L s'" and "led_terms s' = led_terms s"
  shows "\<exists>L'. next_logs T L L' s'"
  using assms logs_grow_refl by (intro exI[of _ L]) (simp add: next_logs_def)

lemma next_logs_lead:
  assumes rep: "replica L s" and ok: "term_logs_ok L (T \<union> led_terms s)" and fresh: "lv_term s \<notin> T"
    and role: "lv_role s = kCandidate" and r: "cut_from (lv_term s) (lv_log s) r" and H: "H \<subseteq> insert r (lv_held s)"
    and s': "s' = s\<lparr>lv_role := kLeader, lv_sent := insert r (lv_sent s), lv_held := H\<rparr>"
  shows "next_logs T L (L(lv_term s := lv_log s)) s'"
proof -
  let ?t = "lv_term s" and ?L = "L(lv_term s := lv_log s)"
  have cand: "?t \<notin> led_terms s" "?t \<noteq> 0" using rep role by (auto simp: replica_def)
  have terms: "led_terms s' = insert ?t (led_terms s)" using r by (simp add: s' led_terms_def cut_from_def)
  have "L ?t = []" using ok fresh cand by (auto simp: term_logs_ok_def)
  then have grow: "logs_grow (led_terms s') L ?L" by (simp add: logs_grow_def terms)
  have log: "agrees ?L (lv_log s)" using agrees_grow[OF grow] rep by (simp add: replica_def)
  have ordered: "sorted (map leader_term (lv_log s))" using agrees_sorted ok rep by (auto simp: replica_def)
  have "from_logs ?L x" if "x \<in> lv_sent s' \<union> lv_held s'" for x
  proof (cases "x = r")
    case True
    then show ?thesis using from_logs_cut[OF r] by simp
  next
    case False
    then show ?thesis using that H rep from_logs_grow[OF grow] by (auto simp: s' replica_def)
  qed
  then have "replica ?L s'"
    using log rep terms by (auto simp: s' replica_def)
  moreover have "term_logs_ok ?L (T \<union> led_terms s')"
    using ok log ordered rep agrees_grow[OF grow] by (auto simp: term_logs_ok_def terms replica_def)
  ultimately show ?thesis using grow by (simp add: next_logs_def)
qed

lemma next_logs_append:
  assumes rep: "replica L s" and ok: "term_logs_ok L (T \<union> led_terms s)" and role: "lv_role s = kLeader"
    and s': "s' = s\<lparr>lv_log := lv_log s @ [LogItem c (lv_term s)]\<rparr>"
  shows "next_logs T L (L(lv_term s := lv_log s @ [LogItem c (lv_term s)])) s'"
proof -
  let ?t = "lv_term s" and ?l = "lv_log s @ [LogItem c (lv_term s)]"
  have lead: "lv_log s = L ?t" "?t \<in> led_terms s" using rep role by (auto simp: replica_def)
  have terms: "led_terms s' = led_terms s" by (simp add: s' led_terms_def)
  have grow: "logs_grow (led_terms s') L (L(?t := ?l))"
    using logs_grow_update[of ?t "led_terms s'" L "[LogItem c ?t]"] lead by (simp add: terms)
  have "agrees (L(?t := ?l)) (lv_log s)" using agrees_grow[OF grow] rep by (simp add: replica_def)
  then have log: "agrees (L(?t := ?l)) ?l" by (intro agrees_append) auto
  have ordered: "sorted (map leader_term ?l)"
    using ok lead by (auto simp: term_logs_ok_def sorted_append)
  have "replica (L(?t := ?l)) s'"
    using rep log terms from_logs_grow[OF grow] s' by (auto simp: replica_def)
  moreover have "term_logs_ok (L(?t := ?l)) (T \<union> led_terms s')"
    using ok log lead ordered agrees_grow[OF grow] by (auto simp: term_logs_ok_def terms)
  ultimately show ?thesis using grow by (simp add: next_logs_def)
qed

lemma replica_copy:
  assumes rep: "replica L s" and ok: "term_logs_ok L T" and held: "r \<in> lv_held s" "ae_leader_term r = lv_term s"
    and prev: "unat (prev_log_index r) < length (lv_log s)"
      "leader_term (lv_log s ! unat (prev_log_index r)) = prev_log_term r"
  shows "replica L (s\<lparr>lv_log := merge_entries (unat (prev_log_index r)) (entries r) (lv_log s)\<rparr>)"
proof -
  let ?log = "merge_entries (unat (prev_log_index r)) (entries r) (lv_log s)"
  have r: "from_logs L r" "agrees L (L (ae_leader_term r))" "agrees L (lv_log s)"
    using rep ok held(1) by (auto simp: replica_def term_logs_ok_def)
  have "?log = lv_log s" if "lv_role s = kLeader"
    using merge_own[OF r(1)] rep that held(2) by (simp add: replica_def)
  moreover have "leader_term x \<le> lv_term s" if "x \<in> set ?log" for x
  proof -
    have "set (entries r) \<subseteq> set (L (ae_leader_term r))"
      using r(1) in_set_takeD in_set_dropD unfolding from_logs_def by (metis subsetI)
    then have "\<forall>x\<in>set (entries r). leader_term x \<le> lv_term s"
      using ok held(2) by (auto simp: term_logs_ok_def)
    moreover have "set ?log \<subseteq> set (lv_log s) \<union> set (entries r)"
      using in_set_takeD by (fastforce simp: merge_entries_def split: if_splits)
    ultimately show ?thesis using that rep by (auto simp: replica_def)
  qed
  ultimately show ?thesis
    using rep agrees_merge[OF r(3,2,1) prev] by (auto simp: replica_def led_terms_def)
qed

lemma next_logs_step:
  assumes "log_step may_lead s s'" and rep: "replica L s" and ok: "term_logs_ok L (T \<union> led_terms s)"
    and fresh: "led_terms s' \<inter> T = {}"
  shows "\<exists>L'. next_logs T L L' s'"
  using assms(1)
proof cases
  case (lead r H)
  have "lv_term s \<in> led_terms s'" using lead(4) by (simp add: lead(1) led_terms_def cut_from_def)
  then have "lv_term s \<notin> T" using fresh by blast
  then show ?thesis using next_logs_lead[OF rep ok _ lead(2,4,5,1)] by blast
next
  case (append_new c)
  then show ?thesis using next_logs_append[OF rep ok append_new(2,1)] by blast
next
  case (copy r)
  have "replica L s'" using replica_copy[OF rep ok copy(2-5)] by (simp add: copy(1))
  then show ?thesis by (rule next_logs_same[OF ok]) (simp add: copy(1) led_terms_def)
next
  case (send r H)
  have lead: "lv_log s = L (lv_term s)" "lv_term s \<in> led_terms s" using rep send(2) by (auto simp: replica_def)
  have r: "from_logs L r" "ae_leader_term r = lv_term s"
    using from_logs_cut[OF send(3)] lead send(3) by (simp_all add: cut_from_def)
  then have terms: "led_terms s' = led_terms s" using lead by (auto simp: send(1) led_terms_def)
  have "replica L s'" using rep r terms send(1,4) by (auto simp: replica_def)
  then show ?thesis by (rule next_logs_same[OF ok _ terms])
next
  case (adopt t)
  then have "replica L s'" using rep by (force simp: replica_def led_terms_def)
  then show ?thesis by (rule next_logs_same[OF ok]) (simp add: adopt(1) led_terms_def)
next
  case (campaign t q P)
  then have "replica L s'" using rep by (force simp: replica_def led_terms_def)
  then show ?thesis by (rule next_logs_same[OF ok]) (simp add: campaign(1) led_terms_def)
qed (rule next_logs_same[OF ok]; use rep in \<open>auto simp: replica_def led_terms_def\<close>)+

end
