(* ===== verification/Ballots.thy ===== *)
theory Ballots
  imports TermLogs
begin

text \<open>
  Votes, acknowledgements and the logs of later leaders. A cluster is abstracted to the views of its
  members, and a step of it to a step of one member or an arrival at one (\<open>views_step\<close>); \<open>dest v ch\<close> is the
  member that the channel \<open>ch\<close> of \<open>v\<close> leads to. The invariant \<open>raft_inv\<close> says for every member what its
  log says (\<open>replica\<close>), and for everything it sent what that was worth: an acknowledged entry is in the
  log or has been overwritten by a later leader, a vote request states the end of a log, a vote was given
  with a log that was not longer, and who leads has a majority of such votes.
\<close>

type_synonym Views = "NodeId \<Rightarrow> LogView"

type_synonym addressing = "NodeId \<Rightarrow> IMessageSender \<Rightarrow> NodeId option"

definition majority :: "NodeId set \<Rightarrow> NodeId set \<Rightarrow> bool" where
  "majority V Q \<longleftrightarrow> Q \<subseteq> V \<and> card V + 1 \<le> card Q * 2"

definition wins :: "NodeId set \<Rightarrow> addressing \<Rightarrow> Views \<Rightarrow> NodeId \<Rightarrow> bool" where
  "wins V dest w i \<longleftrightarrow> (\<exists>Q. majority V Q \<and>
     (\<forall>v\<in>Q. \<exists>ch. dest v ch = Some i \<and> (lv_term (w i), ch) \<in> lv_votes (w v)))"

text \<open>Two requests that differ in the commit index at most.\<close>

definition same_piece :: "AppendEntriesRequest \<Rightarrow> AppendEntriesRequest \<Rightarrow> bool" where
  "same_piece r r' \<longleftrightarrow> ae_leader_term r = ae_leader_term r' \<and> prev_log_index r = prev_log_index r' \<and>
     prev_log_term r = prev_log_term r' \<and> entries r = entries r'"

definition poll_asked :: "NodeId set \<Rightarrow> addressing \<Rightarrow> Views \<Rightarrow> NodeId \<Rightarrow> IMessageSender \<Rightarrow>
    RequestVoteRequest \<Rightarrow> bool" where
  "poll_asked V dest w j ch q \<longleftrightarrow> (\<exists>i\<in>V. dest j ch = Some i \<and> q \<in> lv_asks (w i))"

inductive views_step :: "NodeId set \<Rightarrow> addressing \<Rightarrow> Views \<Rightarrow> Views \<Rightarrow> bool" for V dest where
  act: "i \<in> V \<Longrightarrow> log_step (\<lambda>_. wins V dest w i) (w i) s \<Longrightarrow> views_step V dest w (w(i := s))"
| arrive: "j \<in> V \<Longrightarrow> \<forall>r\<in>H - lv_held (w j). \<exists>i\<in>V. \<exists>r'\<in>lv_sent (w i). same_piece r r' \<Longrightarrow>
    \<forall>(ch, q)\<in>P - lv_polls (w j). poll_asked V dest w j ch q \<Longrightarrow>
    views_step V dest w (w(j := (w j)\<lparr>lv_held := H, lv_polls := P\<rparr>))"

inductive_cases views_stepE: "views_step V dest w w'"

abbreviation views_steps :: "NodeId set \<Rightarrow> addressing \<Rightarrow> Views \<Rightarrow> Views \<Rightarrow> bool" where
  "views_steps V dest \<equiv> (views_step V dest)\<^sup>*\<^sup>*"

section \<open>The invariant\<close>

definition has_entry :: "Log \<Rightarrow> Term \<Rightarrow> nat \<Rightarrow> bool" where
  "has_entry log t k \<longleftrightarrow> k < length log \<and> leader_term (log ! k) = t"

text \<open>A leader of a later term, one of \<open>U\<close>, does not have the entry.\<close>

definition lost :: "TermLogs \<Rightarrow> Term \<Rightarrow> nat \<Rightarrow> Term set \<Rightarrow> bool" where
  "lost L t k U \<longleftrightarrow> (\<exists>u\<in>U. t < u \<and> L u \<noteq> [] \<and> \<not> has_entry (L u) t k)"

text \<open>
  An acknowledgement of the index \<open>k\<close> in the term \<open>t\<close> binds when the entry there is one of the term itself.
\<close>

definition kept :: "TermLogs \<Rightarrow> Term \<Rightarrow> nat \<Rightarrow> Term set \<Rightarrow> Log \<Rightarrow> bool" where
  "kept L t k U log \<longleftrightarrow> k < length (L t) \<and>
     (leader_term (L t ! k) = t \<longrightarrow> has_entry log t k \<or> lost L t k U)"

definition ack_kept :: "TermLogs \<Rightarrow> LogView \<Rightarrow> Term \<Rightarrow> nat \<Rightarrow> bool" where
  "ack_kept L s t k \<longleftrightarrow> t \<le> lv_term s \<and> kept L t k {..lv_term s} (lv_log s)"

definition backs :: "TermLogs \<Rightarrow> Term \<Rightarrow> RequestVoteRequest \<Rightarrow> (Term \<times> nat) set \<Rightarrow> bool" where
  "backs L t q A \<longleftrightarrow> (\<exists>log. agrees L log \<and> up_to_date q log \<and>
     (\<forall>(t', k)\<in>A. t' < t \<longrightarrow> kept L t' k {..<t} log))"

definition vote_backed :: "NodeId set \<Rightarrow> addressing \<Rightarrow> TermLogs \<Rightarrow> Views \<Rightarrow> NodeId \<Rightarrow> Term \<Rightarrow>
    IMessageSender \<Rightarrow> bool" where
  "vote_backed V dest L w v t ch \<longleftrightarrow> t \<le> lv_term (w v) \<and> (L t = [] \<longrightarrow> (\<exists>i\<in>V. \<exists>q\<in>lv_asks (w i).
     dest v ch = Some i \<and> candidate_term q = t \<and> backs L t q (lv_acks (w v))))"

definition led_backed :: "NodeId set \<Rightarrow> TermLogs \<Rightarrow> Views \<Rightarrow> NodeId \<Rightarrow> Term \<Rightarrow> bool" where
  "led_backed V L w i t \<longleftrightarrow> (\<exists>Q. majority V Q \<and> (\<forall>v\<in>Q. t \<le> lv_term (w v) \<and>
     (\<exists>q\<in>lv_asks (w i). candidate_term q = t \<and> backs L t q (lv_acks (w v)))))"

definition ask_told :: "TermLogs \<Rightarrow> Term set \<Rightarrow> LogView \<Rightarrow> RequestVoteRequest \<Rightarrow> bool" where
  "ask_told L T s q \<longleftrightarrow> candidate_term q \<le> lv_term s \<and> (\<exists>log. agrees L log \<and> states_end q log \<and>
     (\<forall>x\<in>set log. leader_term x < candidate_term q) \<and>
     (candidate_term q \<in> led_terms s \<longrightarrow> (\<exists>es. L (candidate_term q) = log @ es)) \<and>
     (lv_role s = kCandidate \<and> candidate_term q = lv_term s \<longrightarrow> lv_term s \<in> T \<or> lv_log s = log))"

definition others_led :: "NodeId set \<Rightarrow> Views \<Rightarrow> NodeId \<Rightarrow> Term set" where
  "others_led V w i = (\<Union>j\<in>V - {i}. led_terms (w j))"

definition member_ok :: "NodeId set \<Rightarrow> addressing \<Rightarrow> TermLogs \<Rightarrow> Views \<Rightarrow> NodeId \<Rightarrow> bool" where
  "member_ok V dest L w i \<longleftrightarrow> dest i (lv_self (w i)) = Some i \<and>
     (\<forall>(ch, q)\<in>lv_polls (w i). poll_asked V dest w i ch q) \<and>
     (\<forall>(t, ch)\<in>lv_votes (w i). vote_backed V dest L w i t ch) \<and>
     (\<forall>(t, k)\<in>lv_acks (w i). ack_kept L (w i) t k) \<and>
     (\<forall>q\<in>lv_asks (w i). ask_told L (others_led V w i) (w i) q) \<and>
     (\<forall>t\<in>led_terms (w i). led_backed V L w i t)"

definition raft_inv :: "NodeId set \<Rightarrow> addressing \<Rightarrow> TermLogs \<Rightarrow> Views \<Rightarrow> bool" where
  "raft_inv V dest L w \<longleftrightarrow> term_logs_ok L (\<Union>i\<in>V. led_terms (w i)) \<and>
     (\<forall>i\<in>V. replica L (w i) \<and> member_ok V dest L w i)"

text \<open>The logs of the terms after some steps.\<close>

definition extends :: "TermLogs \<Rightarrow> TermLogs \<Rightarrow> bool" where
  "extends L L' \<longleftrightarrow> (\<forall>t. \<exists>es. L' t = L t @ es)"

text \<open>No term is led by two members.\<close>

definition lone :: "NodeId set \<Rightarrow> Views \<Rightarrow> bool" where
  "lone V w \<longleftrightarrow> (\<forall>i\<in>V. led_terms (w i) \<inter> others_led V w i = {})"

section \<open>What grows\<close>

definition view_grows :: "LogView \<Rightarrow> LogView \<Rightarrow> bool" where
  "view_grows s s' \<longleftrightarrow> lv_term s \<le> lv_term s' \<and> lv_asks s \<subseteq> lv_asks s' \<and> led_terms s \<subseteq> led_terms s' \<and>
     lv_self s' = lv_self s \<and> (\<forall>(t, k)\<in>lv_acks s' - lv_acks s. lv_term s \<le> t)"

lemma view_grows_refl: "view_grows s s"
  by (simp add: view_grows_def)

lemma log_step_grows: "log_step P s s' \<Longrightarrow> view_grows s s'"
  by (erule log_stepE) (auto simp: view_grows_def led_terms_def)

lemma lost_grow:
  assumes "logs_grow T L L'" and "lost L t k U"
  shows "lost L' t k U"
proof -
  obtain u where u: "u \<in> U" "t < u" "L u \<noteq> []" "\<not> has_entry (L u) t k"
    using assms(2) by (auto simp: lost_def)
  obtain es where "L' u = L u @ es" "\<forall>x\<in>set es. leader_term x = u"
    using assms(1) u(3) by (auto simp: logs_grow_def)
  then have "\<not> has_entry (L' u) t k" "L' u \<noteq> []"
    using u(2-4) by (auto simp: has_entry_def nth_append)
  then show ?thesis using u(1,2) by (auto simp: lost_def)
qed

lemma lost_mono: "lost L t k U \<Longrightarrow> U \<subseteq> U' \<Longrightarrow> lost L t k U'"
  by (auto simp: lost_def)

lemma kept_mono: "kept L t k U log \<Longrightarrow> U \<subseteq> U' \<Longrightarrow> kept L t k U' log"
  using lost_mono by (auto simp: kept_def)

lemma kept_grow:
  assumes "logs_grow T L L'" and "kept L t k U log"
  shows "kept L' t k U log"
proof -
  obtain es where "L' t = L t @ es" using assms(1) by (auto simp: logs_grow_def)
  then show ?thesis
    using assms(2) lost_grow[OF assms(1), of t k U] by (auto simp: kept_def nth_append)
qed

lemma backs_grow:
  assumes "logs_grow T L L'" and "backs L t q A" and "\<forall>(u, k)\<in>A' - A. t \<le> u"
  shows "backs L' t q A'"
proof -
  obtain log where log: "agrees L log" "up_to_date q log"
    "\<forall>(t', k)\<in>A. t' < t \<longrightarrow> kept L t' k {..<t} log"
    using assms(2) by (auto simp: backs_def)
  have "kept L' u k {..<t} log" if "(u, k) \<in> A'" "u < t" for u k
  proof (rule kept_grow[OF assms(1)])
    have "t \<le> u" if "(u, k) \<notin> A" using bspec[OF assms(3), of "(u, k)"] that \<open>(u, k) \<in> A'\<close> by simp
    then have "(u, k) \<in> A" using that(2) leD by blast
    then show "kept L u k {..<t} log" using log(3) that(2) by blast
  qed
  then show ?thesis using log(2) agrees_grow[OF assms(1) log(1)] by (auto simp: backs_def)
qed

lemma poll_asked_grow:
  "poll_asked V dest w j ch q \<Longrightarrow> \<forall>i. view_grows (w i) (w' i) \<Longrightarrow> poll_asked V dest w' j ch q"
  unfolding poll_asked_def view_grows_def by blast

lemma acks_late: "view_grows s s' \<Longrightarrow> t \<le> lv_term s \<Longrightarrow> \<forall>(u, k)\<in>lv_acks s' - lv_acks s. t \<le> u"
  unfolding view_grows_def by (metis (mono_tags, lifting) case_prodE case_prodI2 order_trans prod.inject)

lemma vote_backed_grow:
  assumes "vote_backed V dest L w v t ch" and g: "\<forall>i. view_grows (w i) (w' i)" and l: "logs_grow T L L'"
  shows "vote_backed V dest L' w' v t ch"
  unfolding vote_backed_def
proof (intro conjI impI)
  have t: "t \<le> lv_term (w v)" using assms(1) by (simp add: vote_backed_def)
  also have "lv_term (w v) \<le> lv_term (w' v)" using g by (simp add: view_grows_def)
  finally show "t \<le> lv_term (w' v)" .
  assume "L' t = []"
  then have "L t = []" using l by (auto simp: logs_grow_def)
  then obtain i q where i: "i \<in> V" "q \<in> lv_asks (w i)" "dest v ch = Some i" "candidate_term q = t"
    "backs L t q (lv_acks (w v))" using assms(1) by (auto simp: vote_backed_def)
  have "backs L' t q (lv_acks (w' v))" by (rule backs_grow[OF l i(5) acks_late[OF _ t]]) (use g in blast)
  moreover have "q \<in> lv_asks (w' i)" using g i(2) by (auto simp: view_grows_def)
  ultimately show "\<exists>i\<in>V. \<exists>q\<in>lv_asks (w' i). dest v ch = Some i \<and> candidate_term q = t \<and>
      backs L' t q (lv_acks (w' v))" using i by blast
qed

lemma led_backed_grow:
  assumes "led_backed V L w i t" and g: "\<forall>i. view_grows (w i) (w' i)" and l: "logs_grow T L L'"
  shows "led_backed V L' w' i t"
proof -
  obtain Q where Q: "majority V Q" "\<forall>v\<in>Q. t \<le> lv_term (w v) \<and>
      (\<exists>q\<in>lv_asks (w i). candidate_term q = t \<and> backs L t q (lv_acks (w v)))"
    using assms(1) by (auto simp: led_backed_def)
  have "t \<le> lv_term (w' v) \<and> (\<exists>q\<in>lv_asks (w' i). candidate_term q = t \<and> backs L' t q (lv_acks (w' v)))"
    if "v \<in> Q" for v
  proof
    obtain q where q: "q \<in> lv_asks (w i)" "candidate_term q = t" "backs L t q (lv_acks (w v))"
      and t: "t \<le> lv_term (w v)" using Q(2) \<open>v \<in> Q\<close> by blast
    note t
    also have "lv_term (w v) \<le> lv_term (w' v)" using g by (simp add: view_grows_def)
    finally show "t \<le> lv_term (w' v)" .
    have "backs L' t q (lv_acks (w' v))" by (rule backs_grow[OF l q(3) acks_late[OF _ t]]) (use g in blast)
    moreover have "q \<in> lv_asks (w' i)" using g q(1) by (auto simp: view_grows_def)
    ultimately show "\<exists>q\<in>lv_asks (w' i). candidate_term q = t \<and> backs L' t q (lv_acks (w' v))"
      using q(2) by blast
  qed
  then show ?thesis using Q(1) by (auto simp: led_backed_def)
qed

lemma ack_kept_grow: "logs_grow T L L' \<Longrightarrow> ack_kept L s t k \<Longrightarrow> ack_kept L' s t k"
  by (auto simp: ack_kept_def kept_grow)

lemma ask_told_grow:
  assumes l: "logs_grow U L L'" and "T \<subseteq> T'" and "ask_told L T s q"
  shows "ask_told L' T' s q"
proof -
  obtain log where log: "agrees L log" "states_end q log" "\<forall>x\<in>set log. leader_term x < candidate_term q"
    "candidate_term q \<in> led_terms s \<longrightarrow> (\<exists>es. L (candidate_term q) = log @ es)"
    "lv_role s = kCandidate \<and> candidate_term q = lv_term s \<longrightarrow> lv_term s \<in> T \<or> lv_log s = log"
    "candidate_term q \<le> lv_term s"
    using assms(3) by (auto simp: ask_told_def)
  obtain es where "L' (candidate_term q) = L (candidate_term q) @ es"
    using l by (auto simp: logs_grow_def)
  then have "candidate_term q \<in> led_terms s \<longrightarrow> (\<exists>es. L' (candidate_term q) = log @ es)"
    using log(4) by auto
  then show ?thesis
    using log(2,3,5,6) agrees_grow[OF l log(1)] assms(2) by (auto simp: ask_told_def)
qed

text \<open>A step of one member leaves what the others did.\<close>

lemma member_ok_frame:
  assumes "member_ok V dest L w j" and g: "\<forall>i. view_grows (w i) (w' i)" and l: "logs_grow T L L'"
    and same: "w' j = w j"
  shows "member_ok V dest L' w' j"
proof -
  have "others_led V w j \<subseteq> others_led V w' j" using g by (fastforce simp: others_led_def view_grows_def)
  then have "ask_told L' (others_led V w' j) (w j) q" if "ask_told L (others_led V w j) (w j) q" for q
    using that by (rule ask_told_grow[OF l])
  then show ?thesis
    using assms(1) same poll_asked_grow[OF _ g] vote_backed_grow[OF _ g l] led_backed_grow[OF _ g l]
      ack_kept_grow[OF l] unfolding member_ok_def by auto
qed

section \<open>Acknowledgements\<close>

lemma holds_from_logs:
  assumes "agrees L log" and "agrees L (L (ae_leader_term r))" and "from_logs L r" and "holds_request log r"
  shows "take (Suc (unat (prev_log_index r)) + length (entries r)) log =
      take (Suc (unat (prev_log_index r)) + length (entries r)) (L (ae_leader_term r))"
    "Suc (unat (prev_log_index r)) + length (entries r) \<le> length log"
proof -
  let ?p = "unat (prev_log_index r)" and ?l = "L (ae_leader_term r)"
  have h: "?p < length log" "leader_term (log ! ?p) = prev_log_term r"
    "take (length (entries r)) (drop (Suc ?p) log) = entries r"
    using assms(4) by (simp_all add: holds_request_def)
  have "take (Suc ?p) log = take (Suc ?p) ?l" by (rule prev_matches[OF assms(1-3) h(1,2)])
  moreover have "take (length (entries r)) (drop (Suc ?p) ?l) = entries r"
    using assms(3) by (simp add: from_logs_def)
  ultimately show "take (Suc ?p + length (entries r)) log = take (Suc ?p + length (entries r)) ?l"
    using h(3) by (simp only: take_add)
  have "length (take (length (entries r)) (drop (Suc ?p) log)) = length (entries r)" by (simp only: h(3))
  then show "Suc ?p + length (entries r) \<le> length log" using h(1) by simp
qed

lemma has_entry_take: "k < n \<Longrightarrow> take n log = take n log' \<Longrightarrow> n \<le> length log \<Longrightarrow> has_entry log' t k \<Longrightarrow> has_entry log t k"
  by (metis has_entry_def nth_take order_less_le_trans)

text \<open>Copying a request of the term \<open>T\<close> keeps every entry that the log of \<open>T\<close> has.\<close>

lemma copy_keeps:
  assumes log: "agrees L log" and lead: "agrees L (L (ae_leader_term r))" and r: "from_logs L r"
    and prev: "unat (prev_log_index r) < length log"
      "leader_term (log ! unat (prev_log_index r)) = prev_log_term r"
    and has: "has_entry log t k" "has_entry (L (ae_leader_term r)) t k"
  shows "has_entry (merge_entries (unat (prev_log_index r)) (entries r) log) t k"
proof (cases "take (length (entries r)) (drop (Suc (unat (prev_log_index r))) log) = entries r")
  case True
  then show ?thesis using has(1) by (simp add: merge_entries_def)
next
  case False
  let ?p = "unat (prev_log_index r)" and ?l = "L (ae_leader_term r)"
  let ?n = "Suc ?p + length (entries r)" and ?m = "merge_entries ?p (entries r) log"
  have pre: "take (Suc ?p) log = take (Suc ?p) ?l" by (rule prev_matches[OF log lead r prev])
  have es: "take (length (entries r)) (drop (Suc ?p) ?l) = entries r" "?p + length (entries r) < length ?l"
    using r by (simp_all add: from_logs_def)
  have m: "?m = take (Suc ?p) log @ entries r" using False by (simp add: merge_entries_def)
  have mt: "?m = take ?n ?l" using pre es(1) by (simp only: m take_add)
  have "k < ?n"
  proof (rule ccontr)
    assume "\<not> k < ?n"
    moreover have "take (Suc k) log = take (Suc k) ?l"
      using has by (intro agrees_match[OF log lead]) (simp_all add: has_entry_def)
    ultimately have "take ?n log = take ?n ?l"
      by (metis less_SucI not_less_iff_gr_or_eq take_take min.absorb3 order.strict_iff_not)
    then have "take (length (entries r)) (drop (Suc ?p) log) = entries r"
      using es(1) by (metis add.commute take_drop)
    then show False using False by simp
  qed
  then show ?thesis using has(2) es(2) by (simp add: mt has_entry_def)
qed

lemma acks_step:
  assumes "log_step P s s'" and rep: "replica L s" and ok: "term_logs_ok L T"
    and acks: "\<forall>(t, k)\<in>lv_acks s. ack_kept L s t k"
  shows "\<forall>(t, k)\<in>lv_acks s'. ack_kept L s' t k"
  using assms(1)
proof cases
  case (acknowledge r A)
  let ?t = "lv_term s" and ?n = "Suc (unat (prev_log_index r)) + length (entries r)"
  have r: "from_logs L r" "agrees L (L (ae_leader_term r))" "agrees L (lv_log s)"
    using rep ok acknowledge(2) by (auto simp: replica_def term_logs_ok_def)
  note held = holds_from_logs[OF r(3,2,1) acknowledge(4), unfolded acknowledge(3)]
  have len: "?n \<le> length (L ?t)" using r(1) acknowledge(3) by (simp add: from_logs_def)
  have "ack_kept L s ?t k" if "k < ?n" for k
    using that held len has_entry_take[OF that held, of ?t] by (auto simp: ack_kept_def kept_def has_entry_def)
  then have "ack_kept L s t k" if "(t, k) \<in> lv_acks s'" for t k
    using that acks acknowledge(1,5) by (auto simp: less_Suc_eq_le)
  then show ?thesis by (auto simp: acknowledge(1) ack_kept_def)
next
  case (copy r)
  let ?T = "lv_term s"
  have r: "from_logs L r" "agrees L (L (ae_leader_term r))" "agrees L (lv_log s)"
    using rep ok copy(2) by (auto simp: replica_def term_logs_ok_def)
  have led: "L ?T \<noteq> []" using r(1) copy(3) by (auto simp: from_logs_def)
  have "kept L t k {..?T} (lv_log s')" if "ack_kept L s t k" for t k
  proof (cases "leader_term (L t ! k) = t \<and> has_entry (lv_log s) t k")
    case True
    show ?thesis
    proof (cases "has_entry (L ?T) t k")
      case has: True
      then show ?thesis
        using copy_keeps[OF r(3,2,1) copy(4,5), of t k] True that by (simp add: copy(1,3) ack_kept_def kept_def)
    next
      case False
      then have "t \<noteq> ?T" using True that by (auto simp: ack_kept_def kept_def has_entry_def)
      moreover have "t \<le> ?T" using that by (simp add: ack_kept_def)
      ultimately have "t < ?T" by (simp only: order_less_le simp_thms)
      then have "lost L t k {..?T}" using False led unfolding lost_def by blast
      then show ?thesis using that by (simp add: ack_kept_def kept_def)
    qed
  next
    case False
    then show ?thesis using that by (auto simp: ack_kept_def kept_def)
  qed
  then show ?thesis using acks by (auto simp: copy(1) ack_kept_def)
next
  case (adopt t)
  have "kept L u k {..t} log" if "kept L u k {..lv_term s} log" for u k log
    by (rule kept_mono[OF that]) (use less_imp_le[OF adopt(2)] in simp)
  then show ?thesis using acks adopt by (force simp: ack_kept_def)
next
  case (campaign t q P)
  have "kept L u k {..t} log" if "kept L u k {..lv_term s} log" for u k log
    by (rule kept_mono[OF that]) (use less_imp_le[OF campaign(2)] in simp)
  then show ?thesis using acks campaign by (force simp: ack_kept_def)
qed (use acks in \<open>auto simp: ack_kept_def kept_def has_entry_def nth_append\<close>)

section \<open>Vote requests\<close>

text \<open>The first leader of a term finds its log empty.\<close>

lemma lead_fresh:
  assumes "replica L s" and "term_logs_ok L (T \<union> led_terms s)" and "lv_role s = kCandidate" and "lv_term s \<notin> T"
  shows "L (lv_term s) = []" "lv_term s \<notin> led_terms s"
  using assms by (auto simp: replica_def term_logs_ok_def)

lemma asks_step:
  assumes "log_step P s s'" and rep: "replica L s" and ok: "term_logs_ok L (T \<union> led_terms s)"
    and fresh: "led_terms s' \<inter> T = {}" and next': "next_logs T L L' s'"
    and asks: "\<forall>q\<in>lv_asks s. ask_told L T s q"
  shows "\<forall>q\<in>lv_asks s'. ask_told L' T s' q"
proof -
  have grow: "logs_grow (led_terms s') L L'" using next' by (simp add: next_logs_def)
  have same: ?thesis if "\<forall>q\<in>lv_asks s'. ask_told L T s' q"
    using that ask_told_grow[OF grow subset_refl] by blast
  show ?thesis
    using assms(1)
  proof cases
    case (adopt t)
    have "ask_told L T s' q" if "ask_told L T s q" for q
      using that adopt(2) by (auto simp: ask_told_def adopt(1) led_terms_def)
    then show ?thesis using asks by (intro same) (simp add: adopt(1))
  next
    case (campaign t q P)
    have terms: "leader_term x < t" if "x \<in> set (lv_log s)" for x
      using that rep campaign(2) by (auto simp: replica_def dest: order_le_less_trans)
    have "t \<notin> led_terms s" using rep campaign(2) by (auto simp: replica_def)
    then have "ask_told L T s' q"
      using rep campaign terms by (auto simp: ask_told_def led_terms_def replica_def)
    moreover have "ask_told L T s' p" if "ask_told L T s p" for p
      using that campaign(2) by (auto simp: ask_told_def campaign(1) led_terms_def)
    ultimately show ?thesis using asks by (intro same) (simp add: campaign(1))
  next
    case (lead r H)
    let ?t = "lv_term s"
    have terms: "led_terms s' = insert ?t (led_terms s)" using lead(4) by (simp add: lead(1) led_terms_def cut_from_def)
    then have log: "L' ?t = lv_log s" "?t \<notin> T" using next' fresh by (auto simp: next_logs_def replica_def lead(1))
    show ?thesis
    proof
      fix q assume "q \<in> lv_asks s'"
      then have "ask_told L T s q" using asks by (simp add: lead(1))
      then obtain l where l: "agrees L l" "states_end q l" "\<forall>x\<in>set l. leader_term x < candidate_term q"
        "candidate_term q \<in> led_terms s \<longrightarrow> (\<exists>es. L (candidate_term q) = l @ es)"
        "candidate_term q = ?t \<longrightarrow> lv_log s = l" "candidate_term q \<le> ?t"
        using log(2) lead(2) by (auto simp: ask_told_def)
      obtain es where "L' (candidate_term q) = L (candidate_term q) @ es"
        using grow by (auto simp: logs_grow_def)
      then have "candidate_term q \<in> led_terms s' \<longrightarrow> (\<exists>es. L' (candidate_term q) = l @ es)"
        using l(4,5) log(1) terms by auto
      then show "ask_told L' T s' q"
        using l agrees_grow[OF grow l(1)] by (auto simp: ask_told_def lead(1))
    qed
  next
    case (send r H)
    have terms: "led_terms s' = led_terms s"
      using rep send(2,3) by (auto simp: send(1) led_terms_def replica_def cut_from_def)
    have "ask_told L T s' q" if "ask_told L T s q" for q
      using that terms by (simp add: ask_told_def send(1))
    then show ?thesis using asks by (intro same) (simp add: send(1))
  next
    case (copy r)
    have "from_logs L r" using rep copy(2) by (simp add: replica_def)
    then have "L (lv_term s) \<noteq> []" using copy(3) by (auto simp: from_logs_def)
    then have "lv_term s \<in> T" if "lv_role s = kCandidate" using lead_fresh(1)[OF rep ok that] by blast
    then have "ask_told L T s' q" if "ask_told L T s q" for q
      using that by (auto simp: ask_told_def copy(1) led_terms_def)
    then show ?thesis using asks by (intro same) (simp add: copy(1))
  next
    case (append_new c)
    have "ask_told L T s' q" if "ask_told L T s q" for q
      using that append_new(2) by (auto simp: ask_told_def append_new(1) led_terms_def)
    then show ?thesis using asks by (intro same) (simp add: append_new(1))
  qed (rule same, use asks in \<open>simp add: ask_told_def led_terms_def\<close>)+
qed

section \<open>Votes\<close>

lemma backs_vote:
  assumes "replica L s" and "L (candidate_term q) = []" and "candidate_term q = lv_term s"
    and "up_to_date q (lv_log s)" and acks: "\<forall>(t, k)\<in>lv_acks s. ack_kept L s t k"
  shows "backs L (candidate_term q) q (lv_acks s)"
proof -
  have "kept L t k {..<lv_term s} (lv_log s)" if "(t, k) \<in> lv_acks s" for t k
  proof -
    have k: "kept L t k {..lv_term s} (lv_log s)" using that acks by (auto simp: ack_kept_def)
    have "lost L t k {..<lv_term s}" if "lost L t k {..lv_term s}"
      using that assms(2,3) by (auto simp: lost_def order_le_less)
    then show ?thesis using k by (auto simp: kept_def)
  qed
  then show ?thesis using assms by (auto simp: backs_def replica_def)
qed

section \<open>Steps of a cluster\<close>

lemma log_step_polls: "log_step P s s' \<Longrightarrow> (ch, q) \<in> lv_polls s' \<Longrightarrow>
    (ch, q) \<in> lv_polls s \<or> ch = lv_self s' \<and> q \<in> lv_asks s'"
  by (erule log_stepE) auto

lemma log_step_votes: "log_step P s s' \<Longrightarrow> (t, ch) \<in> lv_votes s' \<Longrightarrow> (t, ch) \<in> lv_votes s \<or>
    (\<exists>q. (ch, q) \<in> lv_polls s \<and> t = candidate_term q \<and> candidate_term q = lv_term s \<and> up_to_date q (lv_log s))"
  by (erule log_stepE) auto

lemma log_step_led_new: "log_step P s s' \<Longrightarrow> t \<in> led_terms s' \<Longrightarrow> t \<in> led_terms s \<or>
    t = lv_term s \<and> (lv_role s = kLeader \<or> lv_role s = kCandidate \<and> P s)"
  by (erule log_stepE) (auto simp: led_terms_def cut_from_def)

lemma wins_backed:
  assumes wins: "wins V dest w i" and votes: "\<forall>v\<in>V. member_ok V dest L w v" and empty: "L (lv_term (w i)) = []"
  shows "led_backed V L w i (lv_term (w i))"
proof -
  let ?t = "lv_term (w i)"
  obtain Q where Q: "majority V Q" "\<forall>v\<in>Q. \<exists>ch. dest v ch = Some i \<and> (?t, ch) \<in> lv_votes (w v)"
    using wins by (auto simp: wins_def)
  have "?t \<le> lv_term (w v) \<and> (\<exists>q\<in>lv_asks (w i). candidate_term q = ?t \<and> backs L ?t q (lv_acks (w v)))"
    if v: "v \<in> Q" for v
  proof -
    obtain ch where ch: "dest v ch = Some i" "(?t, ch) \<in> lv_votes (w v)" using Q(2) v by blast
    have "v \<in> V" using Q(1) v by (auto simp: majority_def)
    then have "vote_backed V dest L w v ?t ch" using votes ch(2) by (auto simp: member_ok_def)
    then show ?thesis using empty ch(1) by (auto simp: vote_backed_def)
  qed
  then show ?thesis using Q(1) by (auto simp: led_backed_def)
qed

lemma act_votes:
  assumes step: "log_step P (w i) s" and vote: "(t, ch) \<in> lv_votes s" and rep: "replica L (w i)"
    and polls: "\<forall>(ch, q)\<in>lv_polls (w i). poll_asked V dest w i ch q"
    and votes: "\<forall>(t, ch)\<in>lv_votes (w i). vote_backed V dest L w i t ch"
    and acks: "\<forall>(t, k)\<in>lv_acks (w i). ack_kept L (w i) t k"
  shows "vote_backed V dest L w i t ch"
  using log_step_votes[OF step vote]
proof (elim disjE exE conjE)
  fix q
  assume q: "(ch, q) \<in> lv_polls (w i)" "t = candidate_term q" "candidate_term q = lv_term (w i)"
    "up_to_date q (lv_log (w i))"
  have "poll_asked V dest w i ch q" using polls q(1) by blast
  then show ?thesis
    using backs_vote[OF rep _ q(3,4) acks] q(2,3) by (auto simp: vote_backed_def poll_asked_def)
qed (use votes in blast)

text \<open>What the member that steps promised before, and what it adds.\<close>

lemma act_member:
  assumes members: "\<forall>j\<in>V. member_ok V dest L w j" and i: "i \<in> V" and rep: "replica L (w i)"
    and ok: "term_logs_ok L (T \<union> led_terms (w i))" and T: "T = others_led V w i"
    and step: "log_step (\<lambda>_. wins V dest w i) (w i) s" and fresh: "led_terms s \<inter> T = {}"
    and next': "next_logs T L L' s"
  shows "member_ok V dest L' (w(i := s)) i"
proof -
  let ?w = "w(i := s)"
  have others: "others_led V ?w i = T" by (auto simp: others_led_def T)
  note m = members[rule_format, OF i, unfolded member_ok_def T[symmetric]]
  have grow: "logs_grow (led_terms s) L L'" using next' by (simp add: next_logs_def)
  have g: "\<forall>j. view_grows (w j) (?w j)" using log_step_grows[OF step] by (simp add: view_grows_refl)
  have self: "lv_self s = lv_self (w i)" using log_step_grows[OF step] by (simp add: view_grows_def)
  have polls: "poll_asked V dest ?w i ch q" if "(ch, q) \<in> lv_polls s" for ch q
    using log_step_polls[OF step that]
  proof
    assume "(ch, q) \<in> lv_polls (w i)"
    then show ?thesis using m by (intro poll_asked_grow[OF _ g]) blast
  qed (use m i self in \<open>auto simp: poll_asked_def\<close>)
  have votes: "vote_backed V dest L' ?w i t ch" if "(t, ch) \<in> lv_votes s" for t ch
  proof (rule vote_backed_grow[OF _ g grow])
    show "vote_backed V dest L w i t ch" using act_votes[where w = w and i = i, OF step that rep] m by blast
  qed
  have "\<forall>(t, k)\<in>lv_acks s. ack_kept L s t k" using m by (intro acks_step[OF step rep ok]) blast
  then have acks: "\<forall>(t, k)\<in>lv_acks s. ack_kept L' s t k" using ack_kept_grow[OF grow] by fastforce
  have asks: "\<forall>q\<in>lv_asks s. ask_told L' T s q" using asks_step[OF step rep ok fresh next'] m by blast
  have "led_backed V L' ?w i t" if t: "t \<in> led_terms s" for t
  proof (rule led_backed_grow[OF _ g grow])
    consider "t \<in> led_terms (w i)" | "t = lv_term (w i)" "lv_role (w i) = kCandidate" "wins V dest w i"
      using log_step_led_new[OF step t] rep by (auto simp: replica_def)
    then show "led_backed V L w i t"
    proof cases
      case 2
      have "L (lv_term (w i)) = []" using t fresh 2(1) by (intro lead_fresh(1)[OF rep ok 2(2)]) blast
      then show ?thesis using wins_backed[OF 2(3) members] 2(1) by simp
    qed (use m in blast)
  qed
  then show ?thesis
    using m self polls votes acks asks unfolding member_ok_def others fun_upd_same by fastforce
qed

lemma raft_act:
  assumes inv: "raft_inv V dest L w" and i: "i \<in> V" and step: "log_step (\<lambda>_. wins V dest w i) (w i) s"
    and lone: "lone V (w(i := s))"
  shows "\<exists>L'. extends L L' \<and> raft_inv V dest L' (w(i := s))"
proof -
  let ?w = "w(i := s)" and ?T = "others_led V w i"
  have others: "others_led V ?w i = ?T" by (auto simp: others_led_def)
  have all: "(\<Union>j\<in>V. led_terms (w j)) = ?T \<union> led_terms (w i)" "(\<Union>j\<in>V. led_terms (?w j)) = ?T \<union> led_terms s"
    using i by (auto simp: others_led_def split: if_splits)
  have members: "\<forall>j\<in>V. member_ok V dest L w j" and rep: "replica L (w i)"
    and ok: "term_logs_ok L (?T \<union> led_terms (w i))"
    using inv i unfolding raft_inv_def all by blast+
  have fresh: "led_terms s \<inter> ?T = {}" using lone i others unfolding lone_def by (metis fun_upd_same)
  obtain L' where next': "next_logs ?T L L' s" using next_logs_step[OF step rep ok fresh] by blast
  then have grow: "logs_grow (led_terms s) L L'" by (simp add: next_logs_def)
  have g: "\<forall>j. view_grows (w j) (?w j)" using log_step_grows[OF step] by (simp add: view_grows_refl)
  have "replica L' (w j) \<and> member_ok V dest L' ?w j" if j: "j \<in> V" "j \<noteq> i" for j
  proof
    have "led_terms (w j) \<subseteq> ?T" using j by (auto simp: others_led_def)
    then show "replica L' (w j)" using inv j fresh by (intro replica_grow[OF grow]) (auto simp: raft_inv_def)
    show "member_ok V dest L' ?w j"
      using members j by (intro member_ok_frame[OF _ g grow]) simp_all
  qed
  then have "raft_inv V dest L' ?w"
    using next' act_member[OF members i rep ok refl step fresh next']
    unfolding raft_inv_def all by (auto simp: next_logs_def)
  moreover have "extends L L'" using grow by (auto simp: logs_grow_def extends_def)
  ultimately show ?thesis by blast
qed

lemma same_piece_logs: "same_piece r r' \<Longrightarrow> from_logs L r = from_logs L r'"
  by (simp add: same_piece_def from_logs_def)

lemma raft_arrive:
  assumes inv: "raft_inv V dest L w" and j: "j \<in> V"
    and H: "\<forall>r\<in>H - lv_held (w j). \<exists>i\<in>V. \<exists>r'\<in>lv_sent (w i). same_piece r r'"
    and P: "\<forall>(ch, q)\<in>P - lv_polls (w j). poll_asked V dest w j ch q"
  shows "raft_inv V dest L (w(j := (w j)\<lparr>lv_held := H, lv_polls := P\<rparr>))"
proof -
  let ?s = "(w j)\<lparr>lv_held := H, lv_polls := P\<rparr>"
  define w' where "w' = w(j := ?s)"
  have at: "w' j = ?s" and off: "i \<noteq> j \<Longrightarrow> w' i = w i" for i by (simp_all add: w'_def)
  have led: "led_terms ?s = led_terms (w j)" "led_terms (w' i) = led_terms (w i)" for i
    by (simp_all add: w'_def led_terms_def)
  have g: "\<forall>i. view_grows (w i) (w' i)" by (simp add: w'_def view_grows_def led_terms_def)
  have mem: "member_ok V dest L w i" "replica L (w i)" if "i \<in> V" for i using inv that by (simp_all add: raft_inv_def)
  have others: "others_led V w' i = others_led V w i" for i using led by (simp add: others_led_def)
  have "from_logs L r" if "r \<in> H" for r
  proof (cases "r \<in> lv_held (w j)")
    case True
    then show ?thesis using mem(2)[OF j] by (simp add: replica_def)
  next
    case False
    then have "\<exists>i\<in>V. \<exists>r'\<in>lv_sent (w i). same_piece r r'" using that by (intro bspec[OF H]) simp
    then obtain i r' where r': "i \<in> V" "r' \<in> lv_sent (w i)" "same_piece r r'" by (elim bexE)
    have "\<forall>r\<in>lv_sent (w i). from_logs L r" using mem(2)[OF r'(1)] by (simp add: replica_def)
    then show ?thesis using r'(2) by (simp only: same_piece_logs[OF r'(3)])
  qed
  then have "replica L ?s" using mem(2)[OF j] by (simp add: replica_def led_terms_def ball_Un)
  moreover have "member_ok V dest L w' j"
  proof -
    note m = mem(1)[OF j, unfolded member_ok_def]
    have polls: "poll_asked V dest w' j ch q" if "(ch, q) \<in> P" for ch q
    proof (rule poll_asked_grow[OF _ g])
      show "poll_asked V dest w j ch q" using m P that by (cases "(ch, q) \<in> lv_polls (w j)") blast+
    qed
    have same: "ack_kept L ?s = ack_kept L (w j)" "ask_told L T ?s = ask_told L T (w j)" for T
      by (simp_all add: fun_eq_iff ack_kept_def ask_told_def led_terms_def)
    show ?thesis
      unfolding member_ok_def others at same led
      using m polls vote_backed_grow[OF _ g logs_grow_refl] led_backed_grow[OF _ g logs_grow_refl]
      by fastforce
  qed
  moreover have "member_ok V dest L w' i" if "i \<in> V" "i \<noteq> j" for i
    using that mem(1) off by (intro member_ok_frame[OF _ g logs_grow_refl])
  ultimately have "replica L (w' i) \<and> member_ok V dest L w' i" if "i \<in> V" for i
    using that mem(2) by (cases "i = j") (simp_all add: at off)
  then have "raft_inv V dest L w'" using inv by (simp add: raft_inv_def led)
  then show ?thesis by (simp only: w'_def)
qed

lemma lone_back:
  assumes "views_step V dest w w'" and "lone V w'"
  shows "lone V w"
proof -
  have led: "led_terms (w j) \<subseteq> led_terms (w' j)" for j
    using assms(1)
  proof cases
    case (act i s)
    then show ?thesis using log_step_led[of _ "w i" s] by (cases "j = i") auto
  qed (auto simp: led_terms_def)
  then have "others_led V w i \<subseteq> others_led V w' i" for i by (auto simp: others_led_def)
  then show ?thesis using assms(2) led unfolding lone_def by blast
qed

lemma raft_steps:
  assumes "views_steps V dest w w'" and "raft_inv V dest L w" and "lone V w'"
  shows "\<exists>L'. extends L L' \<and> raft_inv V dest L' w'"
  using assms(1,3)
proof (induction rule: rtranclp_induct)
  case base
  have "extends L L" by (simp add: extends_def)
  then show ?case using assms(2) by blast
next
  case (step x y)
  obtain M where M: "extends L M" "raft_inv V dest M x"
    using step.IH lone_back[OF step.hyps(2) step.prems] by blast
  have "\<exists>N. extends M N \<and> raft_inv V dest N y" using step.hyps(2)
  proof cases
    case (act i s)
    then show ?thesis using raft_act[OF M(2) act(2,3)] step.prems by blast
  next
    case (arrive j H P)
    have "extends M M" by (simp add: extends_def)
    then show ?thesis using raft_arrive[OF M(2) arrive(2-4)] arrive(1) by blast
  qed
  moreover have "extends L N" if "extends M N" for N
    using M(1) that unfolding extends_def by (metis append.assoc)
  ultimately show ?case by blast
qed

end
