(* ===== verification/Completeness.thy ===== *)
theory Completeness
  imports Ballots
begin

text \<open>
  Leader completeness, from the invariant of \<open>Ballots\<close>: an entry of the term \<open>t\<close> that a majority has
  acknowledged in \<open>t\<close> is in the log of every later leader. The induction is on the term of the leader:
  a voter of its majority has acknowledged the entry, so it had it when it voted unless a leader in between
  lost it, and the log of the candidate was at least as up to date.
\<close>

lemma has_entry_append: "has_entry log t k \<Longrightarrow> has_entry (log @ es) t k"
  by (simp add: has_entry_def nth_append)

text \<open>A log that ends in a term has every entry of an earlier term that the log of the term has.\<close>

lemma end_beyond:
  assumes "agrees L log" and "log \<noteq> []" and ok: "term_logs_ok L T"
    and "t < leader_term (last log)" and has: "has_entry (L (leader_term (last log))) t k"
  shows "has_entry log t k"
proof -
  let ?l = "L (leader_term (last log))" and ?n = "length log"
  note last = agrees_last[OF assms(1,2)]
  have n: "0 < ?n" using assms(2) by simp
  have "log ! (?n - 1) = ?l ! (?n - 1)" using last n by (metis diff_less nth_take zero_less_one)
  then have tip: "leader_term (?l ! (?n - 1)) = leader_term (last log)"
    using assms(2) by (simp add: last_conv_nth)
  have "k < ?n"
  proof (rule ccontr)
    assume "\<not> k < ?n"
    then have "?n - 1 \<le> k" by simp
    moreover have "sorted (map leader_term ?l)" using ok by (simp add: term_logs_ok_def)
    ultimately have "leader_term (?l ! (?n - 1)) \<le> leader_term (?l ! k)"
      using has sorted_nth_mono[of "map leader_term ?l" "?n - 1" k] by (simp add: has_entry_def)
    then show False using tip has assms(4) by (simp add: has_entry_def)
  qed
  then show ?thesis using has last by (metis has_entry_def nth_take)
qed

text \<open>The entry of a voter is in the log of the candidate.\<close>

lemma candidate_has:
  assumes ok: "term_logs_ok L T" and log: "agrees L log" "up_to_date q log" "has_entry log t k"
    and log1: "agrees L log1" "states_end q log1"
    and later: "\<And>u. t < u \<Longrightarrow> u = leader_term (last log1) \<Longrightarrow> has_entry (L u) t k"
  shows "has_entry log1 t k"
proof -
  let ?u = "leader_term (last log)" and ?u1 = "leader_term (last log1)"
  have ends: "log \<noteq> []" "log1 \<noteq> []" "candidate_last_log_term q = ?u1"
    "unat (candidate_last_log_index q) = length log1 - 1"
    using log(2) log1(2) by (simp_all add: up_to_date_def states_end_def)
  have "sorted (map leader_term log)" by (rule agrees_sorted[OF log(1) ok])
  then have "t \<le> ?u"
    using log(3) ends(1) sorted_nth_mono[of "map leader_term log" k "length log - 1"]
    by (auto simp: has_entry_def last_conv_nth)
  have "length log \<le> length log1" if "length log - 1 \<le> length log1 - 1"
    using that ends(1,2) by (cases log; cases log1) simp_all
  then consider "?u < ?u1" | "?u = ?u1" "length log \<le> length log1"
    using log(2) ends unfolding up_to_date_def by metis
  then show ?thesis
  proof cases
    case 1
    then have "t < ?u1" using \<open>t \<le> ?u\<close> by (rule order_le_less_trans[rotated])
    then show ?thesis using end_beyond[OF log1(1) ends(2) ok] later by blast
  next
    case 2
    have "take (length log) log1 = log"
      using agrees_last(1)[OF log(1) ends(1)] agrees_last(1)[OF log1(1) ends(2)] 2
      by (metis min.absorb1 take_take)
    then have "log1 = log @ drop (length log) log1" by (metis append_take_drop_id)
    then show ?thesis using has_entry_append[OF log(3)] by metis
  qed
qed

theorem later_leaders_have:
  assumes inv: "raft_inv V dest L w" and V: "finite V" and A: "majority V A" "\<forall>v\<in>A. (t, k) \<in> lv_acks (w v)"
    and own: "leader_term (L t ! k) = t"
  shows "t < u \<Longrightarrow> L u \<noteq> [] \<Longrightarrow> has_entry (L u) t k"
proof (induction u rule: less_induct)
  case (less u)
  have ok: "term_logs_ok L (\<Union>i\<in>V. led_terms (w i))" and mem: "\<And>i. i \<in> V \<Longrightarrow> member_ok V dest L w i"
    using inv by (simp_all add: raft_inv_def)
  have "u \<noteq> 0" using less.prems(1) by auto
  then obtain i where i: "i \<in> V" "u \<in> led_terms (w i)" using ok less.prems(2) by (auto simp: term_logs_ok_def)
  then have "led_backed V L w i u" using mem by (simp add: member_ok_def)
  then obtain Q where Q: "majority V Q" "\<forall>v\<in>Q. u \<le> lv_term (w v) \<and>
      (\<exists>q\<in>lv_asks (w i). candidate_term q = u \<and> backs L u q (lv_acks (w v)))"
    by (auto simp: led_backed_def)
  obtain v where v: "v \<in> A" "v \<in> Q"
    using A(1) Q(1) majorities_intersect[OF V, of A Q] by (auto simp: majority_def)
  then obtain q log where q: "q \<in> lv_asks (w i)" "candidate_term q = u"
    and log: "agrees L log" "up_to_date q log" "kept L t k {..<u} log"
    using A(2) Q(2) less.prems(1) by (fastforce simp: backs_def)
  have "\<not> lost L t k {..<u}" using less.IH by (auto simp: lost_def)
  then have has: "has_entry log t k" using log(3) own by (simp add: kept_def)
  have "ask_told L (others_led V w i) (w i) q" using mem[OF i(1)] q(1) by (simp add: member_ok_def)
  then obtain log1 es where log1: "agrees L log1" "states_end q log1" "\<forall>x\<in>set log1. leader_term x < u"
    "L u = log1 @ es" using q(2) i(2) by (auto simp: ask_told_def)
  have "has_entry (L u1) t k" if u1: "t < u1" "u1 = leader_term (last log1)" for u1
  proof (rule less.IH[OF _ u1(1)])
    have ne: "log1 \<noteq> []" using log1(2) by (simp add: states_end_def)
    then show "u1 < u" using log1(3) u1(2) by simp
    show "L u1 \<noteq> []" using agrees_last(2)[OF log1(1) ne] ne u1(2) by auto
  qed
  then have "has_entry log1 t k" by (rule candidate_has[OF ok log(1,2) has log1(1,2)])
  then show ?case unfolding log1(4) by (rule has_entry_append)
qed

section \<open>What the invariant gives for two members\<close>

lemma raft_match:
  assumes "raft_inv V dest L w" and "i \<in> V" and "j \<in> V"
    and "k < length (lv_log (w i))" and "k < length (lv_log (w j))"
    and "leader_term (lv_log (w i) ! k) = leader_term (lv_log (w j) ! k)"
  shows "take (Suc k) (lv_log (w i)) = take (Suc k) (lv_log (w j))"
  using assms by (intro agrees_match[of L]) (auto simp: raft_inv_def replica_def)

lemma raft_leader:
  assumes "raft_inv V dest L w" and "i \<in> V" and "j \<in> V" and "lv_role (w i) = kLeader"
    and "k < length (lv_log (w j))" and "leader_term (lv_log (w j) ! k) = lv_term (w i)"
  shows "k < length (lv_log (w i)) \<and> take (Suc k) (lv_log (w j)) = take (Suc k) (lv_log (w i))"
proof -
  have "agrees L (lv_log (w j))" "lv_log (w i) = L (lv_term (w i))"
    using assms(1-4) by (auto simp: raft_inv_def replica_def)
  then show ?thesis using assms(5,6) unfolding agrees_def by metis
qed

lemma led_nonempty:
  assumes inv: "raft_inv V dest L w" and i: "i \<in> V" and u: "u \<in> led_terms (w i)"
  shows "L u \<noteq> []"
proof -
  have m: "member_ok V dest L w i" using inv i by (simp add: raft_inv_def)
  then obtain Q where Q: "majority V Q" "\<forall>v\<in>Q. \<exists>q\<in>lv_asks (w i). candidate_term q = u"
    using u by (fastforce simp: member_ok_def led_backed_def)
  then obtain v where "v \<in> Q" by (fastforce simp: majority_def)
  then obtain q where q: "q \<in> lv_asks (w i)" "candidate_term q = u" using Q(2) by blast
  then have "ask_told L (others_led V w i) (w i) q" using m by (simp add: member_ok_def)
  then show ?thesis using q(2) u by (auto simp: ask_told_def states_end_def)
qed

text \<open>The leader of a term that is not earlier has what a majority acknowledged.\<close>

lemma leader_has:
  assumes inv: "raft_inv V dest L w" and V: "finite V" and A: "majority V A" "\<forall>v\<in>A. (t, k) \<in> lv_acks (w v)"
    and i: "i \<in> V" "lv_role (w i) = kLeader" "t \<le> lv_term (w i)" and own: "has_entry (L t) t k"
  shows "has_entry (lv_log (w i)) t k" "take (Suc k) (lv_log (w i)) = take (Suc k) (L t)"
proof -
  have log: "agrees L (lv_log (w i))" "lv_log (w i) = L (lv_term (w i))" "lv_term (w i) \<in> led_terms (w i)"
    using inv i(1,2) by (auto simp: raft_inv_def replica_def)
  show has: "has_entry (lv_log (w i)) t k"
  proof (cases "t = lv_term (w i)")
    case False
    then have "t < lv_term (w i)" using i(3) by (simp only: order_less_le simp_thms)
    then show ?thesis
      unfolding log(2) using own led_nonempty[OF inv i(1) log(3)]
      by (intro later_leaders_have[OF inv V A]) (simp_all add: has_entry_def)
  qed (use own log(2) in simp)
  then show "take (Suc k) (lv_log (w i)) = take (Suc k) (L t)"
    using log(1) unfolding agrees_def has_entry_def by blast
qed

lemma raft_complete:
  assumes inv: "raft_inv V dest L w" and V: "finite V" and A: "majority V A" "\<forall>v\<in>A. (t, k) \<in> lv_acks (w v)"
    and i: "i \<in> V" "lv_role (w i) = kLeader" "t \<le> lv_term (w i)"
    and j: "j \<in> V" "has_entry (lv_log (w j)) t k"
  shows "k < length (lv_log (w i)) \<and> take (Suc k) (lv_log (w i)) = take (Suc k) (lv_log (w j))"
proof -
  have "agrees L (lv_log (w j))" using inv j(1) by (simp add: raft_inv_def replica_def)
  then have at: "k < length (L t)" "take (Suc k) (lv_log (w j)) = take (Suc k) (L t)"
    using j(2) unfolding agrees_def has_entry_def by blast+
  then have "has_entry (L t) t k" using j(2) unfolding has_entry_def by (metis lessI nth_take)
  then show ?thesis using leader_has[OF inv V A i] at(2) by (simp add: has_entry_def)
qed

text \<open>The same over time: \<open>w\<close> is a state of a leader, \<open>w'\<close> a later one.\<close>

lemma raft_durable:
  assumes "raft_inv V dest L w" and inv: "raft_inv V dest L' w'" and ext: "extends L L'" and V: "finite V"
    and i: "i \<in> V" "lv_role (w i) = kLeader" "has_entry (lv_log (w i)) (lv_term (w i)) k"
    and A: "majority V A" "\<forall>v\<in>A. (lv_term (w i), k) \<in> lv_acks (w' v)"
    and j: "j \<in> V" "lv_role (w' j) = kLeader" "lv_term (w i) \<le> lv_term (w' j)"
  shows "k < length (lv_log (w' j)) \<and> take (Suc k) (lv_log (w' j)) = take (Suc k) (lv_log (w i))"
proof -
  let ?t = "lv_term (w i)"
  have "lv_log (w i) = L ?t" using assms(1) i(1,2) by (simp add: raft_inv_def replica_def)
  then obtain es where es: "L' ?t = lv_log (w i) @ es" using ext unfolding extends_def by metis
  then have own: "has_entry (L' ?t) ?t k" using has_entry_append[OF i(3)] by simp
  have "take (Suc k) (L' ?t) = take (Suc k) (lv_log (w i))" using i(3) by (simp add: es has_entry_def)
  then show ?thesis using leader_has[OF inv V A j own] by (simp add: has_entry_def)
qed

text \<open>
  At one index majorities cannot acknowledge entries of two terms, each in its own: the later leader has
  the earlier entry there.
\<close>

lemma majorities_same_term:
  assumes inv: "raft_inv V dest L w" and V: "finite V"
    and A: "majority V A" "\<forall>v\<in>A. (t, k) \<in> lv_acks (w v)" and own: "has_entry (L t) t k" "has_entry (L u) u k"
  shows "\<not> t < u"
proof
  assume "t < u"
  have "leader_term (L t ! k) = t" "L u \<noteq> []" using own by (auto simp: has_entry_def)
  then have "has_entry (L u) t k" using \<open>t < u\<close> by (intro later_leaders_have[OF inv V A])
  then show False using own(2) \<open>t < u\<close> by (simp add: has_entry_def)
qed

lemma raft_agree:
  assumes inv: "raft_inv V dest L w" and V: "finite V" and i: "i \<in> V" and j: "j \<in> V"
    and k: "k < length (lv_log (w i))" "k < length (lv_log (w j))"
    and A: "majority V A" "\<forall>v\<in>A. (leader_term (lv_log (w i) ! k), k) \<in> lv_acks (w v)"
    and B: "majority V B" "\<forall>v\<in>B. (leader_term (lv_log (w j) ! k), k) \<in> lv_acks (w v)"
  shows "take (Suc k) (lv_log (w i)) = take (Suc k) (lv_log (w j))"
proof -
  have own: "has_entry (L (leader_term (lv_log (w v) ! k))) (leader_term (lv_log (w v) ! k)) k"
    if "v \<in> V" "k < length (lv_log (w v))" for v
  proof -
    have "agrees L (lv_log (w v))" using inv that(1) by (simp add: raft_inv_def replica_def)
    then show ?thesis using that(2) unfolding agrees_def has_entry_def by (metis lessI nth_take)
  qed
  have "\<not> leader_term (lv_log (w i) ! k) < leader_term (lv_log (w j) ! k)"
    by (rule majorities_same_term[OF inv V A own[OF i k(1)] own[OF j k(2)]])
  moreover have "\<not> leader_term (lv_log (w j) ! k) < leader_term (lv_log (w i) ! k)"
    by (rule majorities_same_term[OF inv V B own[OF j k(2)] own[OF i k(1)]])
  ultimately have "leader_term (lv_log (w i) ! k) = leader_term (lv_log (w j) ! k)"
    by (metis linorder_less_linear)
  then show ?thesis by (rule raft_match[OF inv i j k])
qed

end
