(* ===== verification/Codec.thy ===== *)
theory Codec
  imports ConsensusTypes
begin

text \<open>
  Messages between processes: \<open>hw2/src/worker/communication.proto\<close>, \<open>class OtherNodesMessageSender\<close>
  (encoding) and \<open>class CommunicationImpl\<close> (decoding) of \<open>hw2/src/worker/worker.cpp\<close>. The records are
  the proto messages, whose integers are 32 bits wide; a 64-bit value is converted modulo 2^32 on the
  way out and sign-extended on the way in. Serialisation and transport are gRPC's and not modelled: the
  receiver gets the \<open>AnnotatedMessage\<close> the sender built, or nothing.

  Members of a local struct that the decoder does not assign have an indeterminate value:
  \<open>leader_commit\<close> of an \<open>AppendEntriesRequest\<close> (\<open>leader_term\<close> is assigned twice instead) and
  \<open>candidate_term\<close> of a vote response that grants nothing. That value is the argument \<open>garbage\<close>.
\<close>

type_synonym int32 = "32 word"

section \<open>The proto messages\<close>

record ProtoItem =
  item_command :: string
  item_leader_term :: int32

record ProtoAppendEntriesRequest =
  p_leader_term :: int32
  p_leader_id :: int32
  p_prev_log_index :: int32
  p_prev_log_term :: int32
  p_item :: "ProtoItem list"
  p_leader_commit :: int32

record ProtoAppendEntriesResponse =
  p_aer_current_term :: int32
  p_success :: bool
  p_matched_until :: int32

record ProtoRequestVoteRequest =
  p_candidate_term :: int32
  p_candidate_id :: int32
  p_candidate_last_log_index :: int32
  p_candidate_last_log_term :: int32

record ProtoRequestVoteResponse =
  p_rvr_current_term :: int32
  p_vote_granted :: bool
  p_rvr_candidate_term :: int32

text \<open>\<open>oneof msg\<close>\<close>

datatype ProtoMessage =
    MsgNotSet
  | ae_req ProtoAppendEntriesRequest
  | ae_resp ProtoAppendEntriesResponse
  | rv_req ProtoRequestVoteRequest
  | rv_resp ProtoRequestVoteResponse

record AnnotatedMessage =
  message_field :: "ProtoMessage option"
  sender_id :: int32

datatype Status = OK | CANCELLED string

section \<open>Encoding\<close>

text \<open>A field that is not set has the default value 0.\<close>

definition encode_item :: "LogItem \<Rightarrow> ProtoItem" where
  "encode_item e = \<lparr>item_command = command e, item_leader_term = ucast (leader_term e)\<rparr>"

definition encode_message :: "Message \<Rightarrow> ProtoMessage result" where
  "encode_message m =
     (case m of
        AEReq r \<Rightarrow> Inr (ae_req
          \<lparr>p_leader_term = ucast (ae_leader_term r), p_leader_id = ucast (ae_leader_id r),
           p_prev_log_index = ucast (prev_log_index r), p_prev_log_term = ucast (prev_log_term r),
           p_item = map encode_item (entries r), p_leader_commit = ucast (leader_commit r)\<rparr>)
      | RVReq r \<Rightarrow> Inr (rv_req
          \<lparr>p_candidate_term = ucast (candidate_term r), p_candidate_id = ucast (candidate_id r),
           p_candidate_last_log_index = ucast (candidate_last_log_index r),
           p_candidate_last_log_term = ucast (candidate_last_log_term r)\<rparr>)
      | AEResp r \<Rightarrow>
          (if success r
           then (case matched_until r of
                   None \<Rightarrow> Inl BadOptionalAccess
                 | Some i \<Rightarrow> Inr (ae_resp
                     \<lparr>p_aer_current_term = ucast (aer_current_term r), p_success = True,
                      p_matched_until = ucast i\<rparr>))
           else Inr (ae_resp
             \<lparr>p_aer_current_term = ucast (aer_current_term r), p_success = False,
              p_matched_until = 0\<rparr>))
      | RVResp r \<Rightarrow> Inr (rv_resp
          \<lparr>p_rvr_current_term = ucast (rvr_current_term r), p_vote_granted = vote_granted r,
           p_rvr_candidate_term = ucast (rvr_candidate_term r)\<rparr>))"

text \<open>
  The task of \<open>OtherNodesMessageSender::Send\<close>. An exception in it is kept in its future, which nobody
  reads, so the message is not sent. \<open>Send\<close> appends the task to \<open>tasks_\<close>, from which nothing is ever
  removed.
\<close>

definition send_task :: "NodeId \<Rightarrow> Message \<Rightarrow> AnnotatedMessage result" where
  "send_task from_id m =
     bind_res (encode_message m) (\<lambda>p.
       Inr \<lparr>message_field = Some p, sender_id = ucast from_id\<rparr>)"

record OtherNodesMessageSender_state =
  addr :: string
  tasks :: "(string \<times> AnnotatedMessage result) list"

definition Send ::
    "NodeId \<Rightarrow> Message \<Rightarrow> OtherNodesMessageSender_state \<Rightarrow> OtherNodesMessageSender_state" where
  "Send from_id m s = s\<lparr>tasks := tasks s @ [(addr s, send_task from_id m)]\<rparr>"

section \<open>Decoding\<close>

definition decode_item :: "ProtoItem \<Rightarrow> LogItem" where
  "decode_item e = LogItem (item_command e) (ucast (item_leader_term e))"

definition decode_message :: "u64 \<Rightarrow> ProtoMessage \<Rightarrow> Message option" where
  "decode_message garbage p =
     (case p of
        ae_req r \<Rightarrow> Some (AEReq
          \<lparr>ae_leader_term = scast (p_leader_term r), ae_leader_id = scast (p_leader_id r),
           prev_log_index = scast (p_prev_log_index r), prev_log_term = scast (p_prev_log_term r),
           entries = map decode_item (p_item r), leader_commit = garbage\<rparr>)
      | ae_resp r \<Rightarrow> Some (AEResp
          \<lparr>aer_current_term = scast (p_aer_current_term r), success = p_success r,
           matched_until = (if p_success r then Some (scast (p_matched_until r)) else None)\<rparr>)
      | rv_req r \<Rightarrow> Some (RVReq
          \<lparr>candidate_term = scast (p_candidate_term r), candidate_id = scast (p_candidate_id r),
           candidate_last_log_index = scast (p_candidate_last_log_index r),
           candidate_last_log_term = scast (p_candidate_last_log_term r)\<rparr>)
      | rv_resp r \<Rightarrow> Some (RVResp
          \<lparr>rvr_current_term = scast (p_rvr_current_term r), vote_granted = p_vote_granted r,
           rvr_candidate_term =
             (if p_vote_granted r then scast (p_rvr_candidate_term r) else garbage)\<rparr>)
      | MsgNotSet \<Rightarrow> None)"

text \<open>
  \<open>SendAnnotatedMessage\<close>: the status of the call, and the sender and message that go to the node
  through \<open>sender_->Send\<close>. \<open>request->message()\<close> of an unset field is the default message.
\<close>

definition SendAnnotatedMessage :: "u64 \<Rightarrow> AnnotatedMessage \<Rightarrow> Status \<times> (NodeId \<times> Message) option" where
  "SendAnnotatedMessage garbage request =
     (case message_field request of
        None \<Rightarrow> (CANCELLED ''!has_message()'', None)
      | Some p \<Rightarrow>
          let from_id = scast (sender_id request)
          in case decode_message garbage p of
               None \<Rightarrow> (CANCELLED ''Empty message'', None)
             | Some m \<Rightarrow> (OK, Some (from_id, m)))"

text \<open>A message through both ends.\<close>

definition grpc_deliver :: "u64 \<Rightarrow> NodeId \<Rightarrow> Message \<Rightarrow> (NodeId \<times> Message) option" where
  "grpc_deliver garbage from_id m =
     (case send_task from_id m of
        Inl e \<Rightarrow> None
      | Inr request \<Rightarrow> snd (SendAnnotatedMessage garbage request))"

section \<open>Conversions\<close>

lemma uint_lt: "unat x < 2 ^ k \<Longrightarrow> 0 \<le> uint x \<and> uint x < 2 ^ k" for x :: u64
  by (metis of_nat_less_iff of_nat_numeral of_nat_power uint_nat of_nat_0_le_iff)

lemma int32_roundtrip:
  assumes "unat x < 2 ^ 31"
  shows "(scast (ucast x :: int32) :: u64) = x"
proof -
  have x: "0 \<le> uint x" "uint x < 2 ^ 31" using uint_lt[OF assms] by simp_all
  then have "signed_take_bit 31 (uint x) = uint x"
    by (intro signed_take_bit_int_eq_self) linarith+
  moreover have "take_bit 32 (uint x) = uint x"
    using x by (intro take_bit_int_eq_self) simp_all
  ultimately have "sint (ucast x :: int32) = uint x"
    by (simp add: sint_uint unsigned_ucast_eq)
  then show ?thesis by (simp add: scast_eq)
qed

lemma uint32_roundtrip:
  assumes "unat x < 2 ^ 32"
  shows "(ucast (ucast x :: int32) :: u64) = x"
proof -
  have "take_bit 32 (uint x) = uint x"
    using uint_lt[OF assms] by (intro take_bit_int_eq_self) simp_all
  moreover have "uint (ucast x :: int32) = take_bit 32 (uint x)"
    by (simp add: unsigned_ucast_eq)
  ultimately have "uint (ucast x :: int32) = uint x" by (rule trans[rotated])
  then show ?thesis by (metis ucast_eq word_of_int_uint)
qed

end
