(* ===== verification/CodecTheorems.thy ===== *)
theory CodecTheorems
  imports Codec NodeTheorems
begin

text \<open>
  The properties of the transport between processes. \<open>message_channel\<close> is the contract of
  \<open>IMessageSender\<close> that the consensus library needs: a message that fits the channel arrives from the
  same sender, well formed, with the same votes and the same log entries. It is interpreted on the
  channel of a node to itself and on the gRPC path.
\<close>

section \<open>What survives the transport\<close>

text \<open>The parts of a message that elections and replication depend on; the commit index is not one.\<close>

definition core_of :: "Message \<Rightarrow> Message" where
  "core_of m = (case m of
     AEReq r \<Rightarrow> AEReq (r\<lparr>leader_commit := 0\<rparr>)
   | AEResp r \<Rightarrow> AEResp r
   | RVReq r \<Rightarrow> RVReq r
   | RVResp r \<Rightarrow> RVResp (if vote_granted r then r else r\<lparr>rvr_candidate_term := 0\<rparr>))"

locale message_channel =
  fixes deliver :: "NodeId \<Rightarrow> Message \<Rightarrow> (NodeId \<times> Message) option"
    and fits :: "NodeId \<Rightarrow> Message \<Rightarrow> bool"
  assumes delivered: "fits from_id m \<Longrightarrow>
    \<exists>m'. deliver from_id m = Some (from_id, m') \<and> core_of m' = core_of m"
begin

lemma delivered_ok:
  assumes "fits from_id m" and "msg_ok m"
  shows "\<exists>m'. deliver from_id m = Some (from_id, m') \<and> msg_ok m'"
proof -
  obtain m' where m': "deliver from_id m = Some (from_id, m')" "core_of m' = core_of m"
    using delivered[OF assms(1)] by blast
  have "msg_ok m'"
    using m'(2) assms(2)
    by (cases m; cases m') (auto simp: core_of_def msg_ok_def dest!: arg_cong[where f = entries])
  then show ?thesis using m'(1) by blast
qed

text \<open>A delivered message from a member is a legal event of the receiving node.\<close>

lemma delivered_legal:
  assumes "fits from_id m" and "msg_ok m" and "from_id \<in> set members"
  shows "\<exists>m'. deliver from_id m = Some (from_id, m') \<and> legal_event members (NMessage from_id m')"
  using delivered_ok[OF assms(1,2)] assms(3) by auto

end

definition trivial_deliver :: "NodeId \<Rightarrow> Message \<Rightarrow> (NodeId \<times> Message) option" where
  "trivial_deliver from_id m = Some (from_id, m)"

interpretation trivial_channel: message_channel trivial_deliver "\<lambda>_ _. True"
  by unfold_locales (simp add: trivial_deliver_def)

section \<open>gRPC\<close>

text \<open>Values that the proto messages can carry.\<close>

definition fits_int32 :: "u64 \<Rightarrow> bool" where
  "fits_int32 x \<longleftrightarrow> unat x < 2 ^ 31"

definition fits_proto :: "NodeId \<Rightarrow> Message \<Rightarrow> bool" where
  "fits_proto from_id m \<longleftrightarrow> fits_int32 from_id \<and> (case m of
     AEReq r \<Rightarrow> fits_int32 (ae_leader_term r) \<and> fits_int32 (ae_leader_id r) \<and>
       fits_int32 (prev_log_index r) \<and> fits_int32 (prev_log_term r) \<and>
       (\<forall>e\<in>set (entries r). unat (leader_term e) < 2 ^ 32)
   | AEResp r \<Rightarrow> fits_int32 (aer_current_term r) \<and>
       (if success r then \<exists>i. matched_until r = Some i \<and> fits_int32 i else matched_until r = None)
   | RVReq r \<Rightarrow> fits_int32 (candidate_term r) \<and> fits_int32 (candidate_id r) \<and>
       fits_int32 (candidate_last_log_index r) \<and> fits_int32 (candidate_last_log_term r)
   | RVResp r \<Rightarrow> fits_int32 (rvr_current_term r) \<and>
       (vote_granted r \<longrightarrow> fits_int32 (rvr_candidate_term r)))"

text \<open>What the receiver sees: the unassigned members hold \<open>garbage\<close>.\<close>

definition garbled :: "u64 \<Rightarrow> Message \<Rightarrow> Message" where
  "garbled garbage m = (case m of
     AEReq r \<Rightarrow> AEReq (r\<lparr>leader_commit := garbage\<rparr>)
   | AEResp r \<Rightarrow> AEResp r
   | RVReq r \<Rightarrow> RVReq r
   | RVResp r \<Rightarrow> RVResp (if vote_granted r then r else r\<lparr>rvr_candidate_term := garbage\<rparr>))"

lemma decode_encode_items:
  "\<forall>e\<in>set es. unat (leader_term e) < 2 ^ 32 \<Longrightarrow> map (decode_item \<circ> encode_item) es = es"
proof (rule map_idI)
  fix e assume "\<forall>e\<in>set es. unat (leader_term e) < 2 ^ 32" "e \<in> set es"
  then have "unat (leader_term e) < 2 ^ 32" by blast
  from uint32_roundtrip[OF this] show "(decode_item \<circ> encode_item) e = e"
    by (cases e) (simp add: decode_item_def encode_item_def)
qed

lemma decode_encode:
  assumes "fits_proto from_id m"
  shows "\<exists>p. encode_message m = Inr p \<and> decode_message garbage p = Some (garbled garbage m)"
proof (cases m)
  case (AEReq r)
  then show ?thesis
    using assms decode_encode_items[of "entries r"]
    by (cases r) (simp add: fits_proto_def fits_int32_def encode_message_def decode_message_def
        garbled_def int32_roundtrip)
next
  case (AEResp r)
  then show ?thesis
    using assms
    by (cases r) (auto simp: fits_proto_def fits_int32_def encode_message_def decode_message_def
        garbled_def int32_roundtrip split: if_splits)
next
  case (RVReq r)
  then show ?thesis
    using assms
    by (cases r) (simp add: fits_proto_def fits_int32_def encode_message_def decode_message_def
        garbled_def int32_roundtrip)
next
  case (RVResp r)
  then show ?thesis
    using assms
    by (cases r) (auto simp: fits_proto_def fits_int32_def encode_message_def decode_message_def
        garbled_def int32_roundtrip split: if_splits)
qed

lemma grpc_deliver_value:
  assumes "fits_proto from_id m"
  shows "grpc_deliver garbage from_id m = Some (from_id, garbled garbage m)"
proof -
  obtain p where "encode_message m = Inr p" "decode_message garbage p = Some (garbled garbage m)"
    using decode_encode[OF assms] by blast
  moreover have "(scast (ucast from_id :: int32) :: u64) = from_id"
    using assms by (intro int32_roundtrip) (simp add: fits_proto_def fits_int32_def)
  ultimately show ?thesis
    by (simp add: grpc_deliver_def send_task_def SendAnnotatedMessage_def Let_def)
qed

interpretation grpc_channel: message_channel "grpc_deliver garbage" fits_proto for garbage
  by unfold_locales (auto simp: grpc_deliver_value garbled_def core_of_def split: Message.splits)

text \<open>C28: Messages between processes. A message whose numbers fit the proto fields arrives from its
  sender as it was sent, except that the members the decoder never assigns (the commit index of an
  \<open>AppendEntries\<close> request, the candidate term of a refused vote) hold whatever was in memory.\<close>

theorem grpc_roundtrip:
  assumes "fits_proto from_id m"
  shows "grpc_deliver garbage from_id m = Some (from_id, case m of
     AEReq r \<Rightarrow> AEReq (r\<lparr>leader_commit := garbage\<rparr>)
   | AEResp r \<Rightarrow> AEResp r
   | RVReq r \<Rightarrow> RVReq r
   | RVResp r \<Rightarrow> RVResp (if vote_granted r then r else r\<lparr>rvr_candidate_term := garbage\<rparr>))"
  using grpc_deliver_value[OF assms] by (simp only: garbled_def)

lemma grpc_roundtrip_witness:
  "grpc_deliver 77 3 (AEReq sample_request) = Some (3, AEReq (sample_request\<lparr>leader_commit := 77\<rparr>))"
proof -
  have "fits_proto 3 (AEReq sample_request)"
    by (simp add: fits_proto_def fits_int32_def sample_request_def)
  from grpc_roundtrip[OF this] show ?thesis by simp
qed

text \<open>The commit index of the leader never reaches another process: what a follower receives does
  not depend on it.\<close>

lemma leader_commit_lost:
  "grpc_deliver garbage from_id (AEReq (r\<lparr>leader_commit := c\<rparr>)) =
   grpc_deliver garbage from_id (AEReq (r\<lparr>leader_commit := d\<rparr>))"
  by (simp add: grpc_deliver_def send_task_def encode_message_def SendAnnotatedMessage_def
      decode_message_def)

text \<open>Terms wrap around on the way: a vote request for a term of 2^32 or more arrives with the term
  modulo 2^32, so a message of a new term is taken for one of an old term.\<close>

lemma grpc_truncates_terms:
  "grpc_deliver garbage from_id (RVReq (r\<lparr>candidate_term := t + 2 ^ 32\<rparr>)) =
   grpc_deliver garbage from_id (RVReq (r\<lparr>candidate_term := t\<rparr>))"
proof -
  have "(ucast (t + 2 ^ 32) :: int32) = ucast t"
    by (simp add: word_unat_eq_iff unsigned_ucast_eq take_bit_eq_mod unat_word_ariths mod_mod_cancel)
  then show ?thesis
    by (simp add: grpc_deliver_def send_task_def encode_message_def SendAnnotatedMessage_def
      decode_message_def)
qed

end
