(* ===== verification/Cluster.thy ===== *)
theory Cluster
  imports Election CodecTheorems
begin

text \<open>
  A cluster of processes: every member runs a node, and the nodes exchange messages through the
  channels to the other processes. What a node has sent so far is its field \<open>sent\<close>; a message sent to
  an address may reach the process that listens there, at most once, after any delay and in any order,
  or never (each \<open>Send\<close> starts its own task). \<open>route\<close> says which member listens at an address;
  \<open>transport\<close> is the path of a message between two processes, with the indeterminate values of the
  receiver. A run is a list of events.
\<close>

record Cluster =
  nodes :: "NodeId \<Rightarrow> Node"
  delivered :: "(NodeId \<times> nat) list"

datatype ClusterEvent =
    CTick NodeId u64
  | CDeliver NodeId nat u64
  | CCommand NodeId Command
  | CQuery NodeId LogItemId u64

type_synonym transport = "u64 \<Rightarrow> NodeId \<Rightarrow> Message \<Rightarrow> (NodeId \<times> Message) option"

definition set_node :: "NodeId \<Rightarrow> Node \<Rightarrow> Cluster \<Rightarrow> Cluster" where
  "set_node i n c = c\<lparr>nodes := (nodes c)(i := n)\<rparr>"

text \<open>
  \<open>CDeliver i k g\<close>: the \<open>k\<close>-th message that \<open>i\<close> sent arrives. Messages of a node to itself are
  already in its queues and are not delivered again.
\<close>

fun cluster_step :: "transport \<Rightarrow> (string \<Rightarrow> NodeId option) \<Rightarrow> ClusterEvent \<Rightarrow> Cluster
    \<Rightarrow> Cluster result" where
  "cluster_step tr route (CTick i k) c = bind_res (Tick k (nodes c i)) (\<lambda>n. Inr (set_node i n c))"
| "cluster_step tr route (CDeliver i k g) c =
     (if k < length (sent (nodes c i)) \<and> (i, k) \<notin> set (delivered c) then
        (case sent (nodes c i) ! k of (ch, s, m) \<Rightarrow>
           (case ch of
              TrivialMessageSender j \<Rightarrow> Inr c
            | OtherNodesMessageSender a \<Rightarrow>
                (case route a of
                   None \<Rightarrow> Inr c
                 | Some j \<Rightarrow>
                     let c = c\<lparr>delivered := (i, k) # delivered c\<rparr>
                     in case tr g s m of
                          None \<Rightarrow> Inr c
                        | Some (s', m') \<Rightarrow> Inr (set_node j (AddMessage s' m' (nodes c j)) c))))
      else Inr c)"
| "cluster_step tr route (CCommand i x) c = Inr (set_node i (snd (AddCommand x (nodes c i))) c)"
| "cluster_step tr route (CQuery i f k) c =
     Inr (set_node i (snd (GetPersistentCommands f k (nodes c i))) c)"

text \<open>The events of a run happen at members.\<close>

fun event_node :: "ClusterEvent \<Rightarrow> NodeId" where
  "event_node (CTick i k) = i"
| "event_node (CDeliver i k g) = i"
| "event_node (CCommand i x) = i"
| "event_node (CQuery i f k) = i"

section \<open>Wiring\<close>

text \<open>
  \<open>wired V route c\<close>: every member knows exactly the members, and its channel to another one leads to
  the address where that one listens.
\<close>

definition channel_to :: "(string \<Rightarrow> NodeId option) \<Rightarrow> NodeId \<Rightarrow> NodeId \<Rightarrow> IMessageSender \<Rightarrow> bool" where
  "channel_to route i j ch \<longleftrightarrow>
     (if i = j then ch = TrivialMessageSender j
      else \<exists>a. ch = OtherNodesMessageSender a \<and> route a = Some j)"

definition wired :: "NodeId set \<Rightarrow> (string \<Rightarrow> NodeId option) \<Rightarrow> Cluster \<Rightarrow> bool" where
  "wired V route c \<longleftrightarrow> finite V \<and> card V < 2 ^ 62 \<and> (\<forall>i\<in>V. my_id (nodes c i) = i \<and>
     set (map_keys (channels (nodes c i))) = V \<and>
     total_nodes (nodes c i) = of_nat (card V) \<and>
     (\<forall>j\<in>V. \<exists>ch. map_find (channels (nodes c i)) j = Some ch \<and> channel_to route i j ch)) \<and>
     (\<forall>a j. route a = Some j \<longrightarrow> j \<in> V)"

text \<open>Two channels of one node to different members are different.\<close>

lemma channel_to_inj: "channel_to route i j ch \<Longrightarrow> channel_to route i k ch \<Longrightarrow> j = k"
  by (auto simp: channel_to_def split: if_splits)

text \<open>The votes that the other members gave to \<open>i\<close>.\<close>

definition votes_for :: "NodeId set \<Rightarrow> (string \<Rightarrow> NodeId option) \<Rightarrow> Cluster \<Rightarrow> NodeId
    \<Rightarrow> (NodeId \<times> Term) set" where
  "votes_for V route c i = {(v, t). v \<in> V \<and>
     (\<exists>a. route a = Some i \<and> (t, OtherNodesMessageSender a) \<in> granted (nodes c v))}"

definition no_wraps :: "NodeId set \<Rightarrow> Cluster \<Rightarrow> bool" where
  "no_wraps V c \<longleftrightarrow> (\<forall>i\<in>V. no_wrap (nodes c i))"

definition sent_fit :: "(NodeId \<Rightarrow> Message \<Rightarrow> bool) \<Rightarrow> NodeId set \<Rightarrow> Cluster \<Rightarrow> bool" where
  "sent_fit fits V c \<longleftrightarrow> (\<forall>i\<in>V. \<forall>(ch, s, m)\<in>set (sent (nodes c i)). fits s m)"

section \<open>The invariant\<close>

definition elections_ok :: "NodeId set \<Rightarrow> (string \<Rightarrow> NodeId option) \<Rightarrow> Cluster \<Rightarrow> bool" where
  "elections_ok V route c \<longleftrightarrow>
     (\<forall>i\<in>V. vote_inv (nodes c i) \<and> tally_inv (votes_for V route c i) (nodes c i))"

lemma voted_by_more: "G \<subseteq> G' \<Longrightarrow> voted_by G n v t \<Longrightarrow> voted_by G' n v t"
  by (auto simp: voted_by_def)

lemma tally_inv_more:
  assumes "G \<subseteq> G'" and "tally_inv G n"
  shows "tally_inv G' n"
proof -
  note vb = voted_by_more[OF assms(1)]
  have "elected G' n t" if "elected G n t" for t
    using that vb by (auto simp: elected_def)
  moreover have "tally_ok G' n x" if "tally_ok G n x" for x
    using that vb by (auto simp: tally_ok_def)
  ultimately show ?thesis using assms(2) vb unfolding tally_inv_def by blast
qed

lemma history_wired:
  assumes "wired V route c" and "i \<in> V" and "history_grows (nodes c i) n"
  shows "wired V route (set_node i n c)"
  using assms by (auto simp: wired_def set_node_def history_grows_def ident_def)

lemma history_votes:
  assumes "history_grows (nodes c i) n"
  shows "votes_for V route c j \<subseteq> votes_for V route (set_node i n c) j"
proof -
  have "granted (nodes c v) \<subseteq> granted (nodes (set_node i n c) v)" for v
    using history_mono(1)[OF assms] by (simp add: set_node_def)
  then show ?thesis unfolding votes_for_def by blast
qed

lemma history_no_wraps:
  assumes "history_grows (nodes c i) n" and "no_wraps V (set_node i n c)"
  shows "no_wraps V c"
proof -
  have "no_wrap (nodes c j)" if "j \<in> V" for j
    using assms(2) that history_mono(3)[OF assms(1)]
    by (cases "j = i") (auto simp: no_wraps_def set_node_def)
  then show ?thesis by (simp add: no_wraps_def)
qed

text \<open>A step of one member that keeps its own invariants keeps those of the cluster.\<close>

lemma elections_set_node:
  assumes "elections_ok V route c" and "history_grows (nodes c i) n"
    and "vote_inv n" and "tally_inv (votes_for V route c i) n"
  shows "elections_ok V route (set_node i n c)"
proof -
  note more = tally_inv_more[OF history_votes[OF assms(2)]]
  show ?thesis
    unfolding elections_ok_def
  proof
    fix j assume "j \<in> V"
    then show "vote_inv (nodes (set_node i n c) j) \<and>
        tally_inv (votes_for V route (set_node i n c) j) (nodes (set_node i n c) j)"
      using assms more by (cases "j = i") (auto simp: elections_ok_def set_node_def)
  qed
qed

section \<open>Steps\<close>

text \<open>
  What the cluster needs of its transport: a message that fits arrives under its sender's name with
  the same votes and entries, whatever the receiver had in its memory.
\<close>

locale cluster_transport =
  fixes tr :: transport and fits :: "NodeId \<Rightarrow> Message \<Rightarrow> bool"
  assumes channel: "fits s m \<Longrightarrow> \<exists>m'. tr g s m = Some (s, m') \<and> core_of m' = core_of m"

sublocale cluster_transport \<subseteq> message_channel "tr g" fits for g
  by unfold_locales (rule channel)

definition members_ok :: "NodeId set \<Rightarrow> Cluster \<Rightarrow> bool" where
  "members_ok V c \<longleftrightarrow> (\<forall>i\<in>V. fine (ident (nodes c i)) (nodes c i))"

definition cluster_inv :: "NodeId set \<Rightarrow> (string \<Rightarrow> NodeId option) \<Rightarrow> Cluster \<Rightarrow> bool" where
  "cluster_inv V route c \<longleftrightarrow> wired V route c \<and>
     (no_wraps V c \<longrightarrow> members_ok V c \<and> elections_ok V route c)"

text \<open>A step of one member, given what it does to the member alone.\<close>

lemma inv_set_node:
  assumes "cluster_inv V route c" and "i \<in> V" and "history_grows (nodes c i) n"
    and "no_wraps V c \<Longrightarrow> fine (ident n) n"
    and "no_wraps V c \<Longrightarrow> no_wrap n \<Longrightarrow> fine (ident (nodes c i)) (nodes c i) \<Longrightarrow>
      vote_inv (nodes c i) \<Longrightarrow> tally_inv (votes_for V route c i) (nodes c i) \<Longrightarrow>
      vote_inv n \<and> tally_inv (votes_for V route c i) n"
  shows "cluster_inv V route (set_node i n c)"
proof -
  have "members_ok V (set_node i n c) \<and> elections_ok V route (set_node i n c)"
    if nw: "no_wraps V (set_node i n c)"
  proof -
    have c: "no_wraps V c" by (rule history_no_wraps[OF assms(3) nw])
    have n: "no_wrap n" using nw assms(2) by (auto simp: no_wraps_def set_node_def)
    have e: "elections_ok V route c" and m: "members_ok V c"
      using assms(1) c by (simp_all add: cluster_inv_def)
    have "members_ok V (set_node i n c)"
      using m assms(4)[OF c] by (simp add: members_ok_def set_node_def)
    then show ?thesis
      using assms(2) m assms(5)[OF c n] elections_set_node[OF e assms(3)] e
      by (simp add: elections_ok_def members_ok_def)
  qed
  then show ?thesis
    using assms(1-3) by (auto simp: cluster_inv_def history_wired)
qed

lemma same_view_history: "same_view n n' \<Longrightarrow> history_grows n n'"
  by (simp add: same_view_def history_grows_def ident_def)

lemma inv_unseen:
  assumes "cluster_inv V route c" and "i \<in> V" and "same_view (nodes c i) n"
    and "fine (ident (nodes c i)) (nodes c i) \<Longrightarrow> fine (ident n) n"
  shows "cluster_inv V route (set_node i n c)"
  by (rule inv_set_node[OF assms(1,2) same_view_history[OF assms(3)]])
     (use assms in \<open>auto simp: same_view_inv[OF assms(3)] cluster_inv_def members_ok_def\<close>)

lemma fine_step:
  assumes "fine (ident n) n" and "legal_event (map_keys (channels n)) e"
  shows "post {LengthError, BadIndex} (\<lambda>n'. fine (ident n') n') (node_step e n)"
proof -
  have "legal_event (map_keys (fst (snd (ident n)))) e" using assms(2) by (simp add: ident_def)
  from fine_node_step[OF assms(1) this] show ?thesis
    by (rule post_weaken) (auto simp: fine_def steady_def)
qed

lemma inv_tick:
  assumes "cluster_inv V route c" and "i \<in> V" and n: "Tick k (nodes c i) = Inr n"
  shows "cluster_inv V route (set_node i n c)"
proof (rule inv_set_node[OF assms(1,2)])
  let ?G = "votes_for V route c i"
  have run: "tick_times (unat k) (nodes c i) = Inr n" using n by (simp add: Tick_def)
  show "history_grows (nodes c i) n" using history_tick_times[of "nodes c i" "unat k"] run by simp
  show "fine (ident n) n" if "no_wraps V c"
    using that assms fine_step[of "nodes c i" "NTick k"] by (simp add: cluster_inv_def members_ok_def)
  assume "fine (ident (nodes c i)) (nodes c i)" "no_wrap n" "vote_inv (nodes c i)"
    "tally_inv ?G (nodes c i)"
  then have "elect ?G (nodes c i)" by (simp add: elect_def fine_def)
  then have "elect ?G n" using elect_tick_times[of ?G "nodes c i" "unat k"] run by simp
  then show "vote_inv n \<and> tally_inv ?G n" using \<open>no_wrap n\<close> by (simp add: elect_def)
qed

lemma inv_command:
  assumes "cluster_inv V route c" and "i \<in> V"
  shows "cluster_inv V route (set_node i (snd (AddCommand x (nodes c i))) c)"
    and "cluster_inv V route (set_node i (snd (GetPersistentCommands f k (nodes c i))) c)"
proof -
  show "cluster_inv V route (set_node i (snd (AddCommand x (nodes c i))) c)"
    using fine_step[of "nodes c i" "NCommand x"]
    by (intro inv_unseen[OF assms]) (simp_all add: AddCommand_def Let_def same_view_def node_simps)
  show "cluster_inv V route (set_node i (snd (GetPersistentCommands f k (nodes c i))) c)"
    using fine_step[of "nodes c i" "NQuery f k"]
    by (intro inv_unseen[OF assms])
       (simp_all add: GetPersistentCommands_def Let_def same_view_def node_simps)
qed

lemma inv_delivered [simp]: "cluster_inv V route (c\<lparr>delivered := d\<rparr>) = cluster_inv V route c"
  by (simp add: cluster_inv_def wired_def members_ok_def no_wraps_def elections_ok_def votes_for_def)

text \<open>The arrival of a message: its votes are votes that its sender gave.\<close>

lemma AddMessage_keeps:
  "history_grows n (AddMessage s m n)" "granted (AddMessage s m n) = granted n"
  "led (AddMessage s m n) = led n" "ident (AddMessage s m n) = ident n"
  by (simp_all add: AddMessage_def history_grows_def ident_def granted_def led_def
      split: Message.splits)

lemma AddMessage_votes:
  assumes "vote_inv n" and "tally_inv G n" and "s \<in> set (map_keys (channels n))"
    and "\<And>r. m = RVReq r \<Longrightarrow> s = candidate_id r"
    and "\<And>r. m = RVResp r \<Longrightarrow> vote_granted r \<Longrightarrow> (s, rvr_candidate_term r) \<in> G"
  shows "vote_inv (AddMessage s m n) \<and> tally_inv G (AddMessage s m n)"
proof -
  note same = AddMessage_keeps(2,3)[of s m n]
  have acc: "GetCurrentTerm (AddMessage s m n) = GetCurrentTerm n"
    "GetVotedFor (AddMessage s m n) = GetVotedFor n" "role (AddMessage s m n) = role n"
    "channels (AddMessage s m n) = channels n" "my_id (AddMessage s m n) = my_id n"
    "total_nodes (AddMessage s m n) = total_nodes n" "sent (AddMessage s m n) = sent n"
    "candidate_state (AddMessage s m n) = candidate_state n"
    by (simp_all add: AddMessage_def node_simps split: Message.splits)
  have vb: "voted_by G (AddMessage s m n) = voted_by G n"
    by (intro ext) (simp add: voted_by_def acc same)
  have e: "elected G (AddMessage s m n) = elected G n" "tally_ok G (AddMessage s m n) = tally_ok G n"
    by (auto simp: elected_def tally_ok_def acc vb fun_eq_iff)
  have q: "x = candidate_id r" if "(x, r) \<in> set (incoming_request_vote_requests (AddMessage s m n))"
    for x r
    using that assms(1,4) by (auto simp: AddMessage_def vote_inv_def split: Message.splits)
  have r: "tally_ok G n x" if "x \<in> set (incoming_request_vote_responses (AddMessage s m n))" for x
    using that assms(2,3,5)
    by (auto simp: AddMessage_def tally_inv_def tally_ok_def voted_by_def split: Message.splits)
  have "vote_inv (AddMessage s m n)" using assms(1) q unfolding vote_inv_def acc same by blast
  moreover have "tally_inv G (AddMessage s m n)"
    using assms(2) r unfolding tally_inv_def acc same vb e by blast
  ultimately show ?thesis by blast
qed

lemma core_of_votes:
  "core_of m' = core_of m \<Longrightarrow> m' = RVReq r \<Longrightarrow> m = RVReq r"
  "core_of m' = core_of m \<Longrightarrow> m' = RVResp q \<Longrightarrow> vote_granted q \<Longrightarrow> m = RVResp q"
  by (auto simp: core_of_def split: Message.splits if_splits)

text \<open>No step takes a message back.\<close>

definition cluster_grows :: "Cluster \<Rightarrow> Cluster \<Rightarrow> bool" where
  "cluster_grows c c' \<longleftrightarrow> (\<forall>i. history_grows (nodes c i) (nodes c' i))"

lemma grows_set_node: "history_grows (nodes c i) n \<Longrightarrow> cluster_grows c (set_node i n (c\<lparr>delivered := d\<rparr>))"
  by (simp add: cluster_grows_def set_node_def history_refl)

lemma grows_step: "on_ok (cluster_grows c) (cluster_step tr route e c)"
proof (cases e)
  case (CTick i k)
  then show ?thesis
    using history_tick_times[of "nodes c i" "unat k"] grows_set_node[of c i _ "delivered c"]
    by (cases "tick_times (unat k) (nodes c i)") (auto simp: Tick_def)
next
  case (CDeliver i k g)
  have "cluster_grows c c" "cluster_grows c (c\<lparr>delivered := d\<rparr>)" for d
    by (simp_all add: cluster_grows_def history_refl)
  then show ?thesis
    using CDeliver grows_set_node[OF AddMessage_keeps(1)]
    by (simp add: Let_def split: prod.split IMessageSender.split option.split)
next
  case (CCommand i x)
  then show ?thesis
    using grows_set_node[of c i _ "delivered c"]
    by (simp add: AddCommand_def Let_def history_grows_def ident_def)
next
  case (CQuery i f k)
  then show ?thesis
    using grows_set_node[of c i _ "delivered c"]
    by (simp add: GetPersistentCommands_def Let_def history_grows_def ident_def)
qed

interpretation cluster_run: run_relation cluster_grows
  by unfold_locales (auto simp: cluster_grows_def intro: history_refl history_trans)

lemma grows_run: "on_ok (cluster_grows c) (fold_res (cluster_step tr route) es c)"
  by (rule cluster_run.run_fold[OF grows_step])

lemma grows_guards:
  assumes "cluster_grows c c'"
  shows "no_wraps V c' \<Longrightarrow> no_wraps V c" and "sent_fit fits V c' \<Longrightarrow> sent_fit fits V c"
proof -
  have g: "history_grows (nodes c i) (nodes c' i)" for i using assms by (simp add: cluster_grows_def)
  show "no_wraps V c" if "no_wraps V c'"
    using that history_mono(3)[OF g] by (simp add: no_wraps_def)
  have "set (sent (nodes c i)) \<subseteq> set (sent (nodes c' i))" for i
    using g by (simp add: history_grows_def)
  then show "sent_fit fits V c" if "sent_fit fits V c'"
    using that unfolding sent_fit_def by blast
qed

context cluster_transport
begin

lemma inv_deliver:
  assumes inv: "cluster_inv V route c" and i: "i \<in> V" and a: "route a = Some j"
    and m: "(OtherNodesMessageSender a, s, m) \<in> set (sent (nodes c i))"
    and fit: "fits s m" and arrived: "tr g s m = Some (s', m')"
  shows "cluster_inv V route (set_node j (AddMessage s' m' (nodes c j)) c)"
proof (rule inv_set_node[OF inv])
  let ?n = "nodes c j" and ?G = "votes_for V route c j"
  have core: "s' = s" "core_of m' = core_of m" using channel[OF fit, of g] arrived by auto
  have w: "wired V route c" using inv by (simp add: cluster_inv_def)
  then show j: "j \<in> V" using a by (auto simp: wired_def)
  show "history_grows ?n (AddMessage s' m' ?n)" by (rule AddMessage_keeps)
  have keys: "set (map_keys (channels ?n)) = V" and me: "my_id (nodes c i) = i"
    using w i j by (simp_all add: wired_def)
  have sender: "s = i" "m = RVReq r \<Longrightarrow> candidate_id r = i" if "no_wraps V c" for r
  proof -
    have "vote_inv (nodes c i)" using inv i that by (simp add: cluster_inv_def elections_ok_def)
    then have "signed i (OtherNodesMessageSender a, s, m)" using m me by (simp add: vote_inv_def)
    then show "s = i" "m = RVReq r \<Longrightarrow> candidate_id r = i"
      by (auto simp: signed_def)
  qed
  show "fine (ident (AddMessage s' m' ?n)) (AddMessage s' m' ?n)" if nw: "no_wraps V c"
  proof -
    have f: "fine (ident ?n) ?n" and "fine (ident (nodes c i)) (nodes c i)"
      using inv i j nw by (simp_all add: cluster_inv_def members_ok_def)
    then have "msg_ok m" using m by (auto simp: fine_def node_ok_def queues_ok_def)
    then have "msg_ok m'" using delivered_ok[OF fit, of g] arrived by auto
    then have "legal_event (map_keys (channels ?n)) (NMessage s' m')"
      using i core sender(1)[OF nw] keys by simp
    then show ?thesis using fine_step[OF f] by fastforce
  qed
  assume nw: "no_wraps V c" and vt: "vote_inv ?n" "tally_inv ?G ?n"
  have s: "s = i" using sender(1)[OF nw] .
  show "vote_inv (AddMessage s' m' ?n) \<and> tally_inv ?G (AddMessage s' m' ?n)"
  proof (rule AddMessage_votes[OF vt])
    show "s' \<in> set (map_keys (channels ?n))" using i s core keys by simp
    show "s' = candidate_id r" if "m' = RVReq r" for r
      using core_of_votes(1)[OF core(2) that] sender(2)[OF nw] s core(1) by simp
    show "(s', rvr_candidate_term r) \<in> ?G" if "m' = RVResp r" "vote_granted r" for r
      using core_of_votes(2)[OF core(2) that] that(2) m a i s core(1)
      by (auto simp: votes_for_def granted_def)
  qed
qed

lemma inv_step:
  assumes "cluster_inv V route c" and "event_node e \<in> V" and "sent_fit fits V c"
    and "cluster_step tr route e c = Inr c'"
  shows "cluster_inv V route c'"
proof (cases e)
  case (CTick i k)
  then show ?thesis
    using assms inv_tick by (auto simp: bind_res_def split: sum.splits)
next
  case (CDeliver i k g)
  let ?d = "c\<lparr>delivered := (i, k) # delivered c\<rparr>"
  have "fits s m" if "(ch, s, m) \<in> set (sent (nodes c i))" for ch s m
    using that assms(2,3) CDeliver by (auto simp: sent_fit_def)
  moreover have "(ch, s, m) \<in> set (sent (nodes c i))"
    if "k < length (sent (nodes c i))" "sent (nodes c i) ! k = (ch, s, m)" for ch s m
    using that by (metis nth_mem)
  ultimately show ?thesis
    using assms CDeliver inv_deliver[of V route ?d i]
    by (auto simp: Let_def split: if_splits prod.splits IMessageSender.splits option.splits)
qed (use assms inv_command in auto)

lemma inv_run:
  assumes "cluster_inv V route c" and "\<forall>e\<in>set es. event_node e \<in> V" and "sent_fit fits V c'"
    and "fold_res (cluster_step tr route) es c = Inr c'"
  shows "cluster_inv V route c'"
  using assms
proof (induction es arbitrary: c)
  case Nil
  then show ?case by simp
next
  case (Cons e es)
  obtain d where d: "cluster_step tr route e c = Inr d"
    and rest: "fold_res (cluster_step tr route) es d = Inr c'"
    using Cons.prems(4) by (auto simp: bind_res_def split: sum.splits)
  have "cluster_grows c c'" using grows_run[of c tr route "e # es"] Cons.prems(4) by simp
  then have "sent_fit fits V c" using Cons.prems(3) by (rule grows_guards(2))
  then have "cluster_inv V route d" using inv_step[of V route c e d] Cons.prems d by simp
  then show ?case using Cons.IH[OF _ _ Cons.prems(3) rest] Cons.prems(2) by simp
qed

end

section \<open>Quorums\<close>

lemma quorum_half:
  assumes "finite V" and "card V < 2 ^ 62" and "Q \<subseteq> V"
    and "(of_nat (card Q) :: u64) * 2 \<ge> of_nat (card V) + 1"
  shows "card Q * 2 \<ge> card V + 1"
proof -
  have "card Q \<le> card V" using assms(1,3) by (rule card_mono)
  then have lt: "card Q * 2 < 2 ^ 64" "card V + 1 < 2 ^ 64" using assms(2) by simp_all
  have "(of_nat (card V + 1) :: u64) \<le> of_nat (card Q * 2)"
    using assms(4) by (simp add: add.commute)
  then have "unat (of_nat (card V + 1) :: u64) \<le> unat (of_nat (card Q * 2) :: u64)"
    by (simp only: word_le_nat_alt)
  moreover have "unat (of_nat (card V + 1) :: u64) = card V + 1"
    "unat (of_nat (card Q * 2) :: u64) = card Q * 2"
    using lt by (intro unat_of_nat_small; simp)+
  ultimately show ?thesis by simp
qed

text \<open>
  Two members that led the same term share a voter; that voter gave two votes in the term, which a
  member does only in a term that it leads.
\<close>

lemma elections_two_leaders:
  assumes w: "wired V route c" and e: "elections_ok V route c" and "i \<in> V" "j \<in> V" "i \<noteq> j"
    and "t \<in> led (nodes c i)" "t \<in> led (nodes c j)"
  shows "\<exists>v\<in>V. t \<in> led (nodes c v) \<and>
    (\<exists>ch ch'. ch \<noteq> ch' \<and> (t, ch) \<in> granted (nodes c v) \<and> (t, ch') \<in> granted (nodes c v))"
proof -
  have V: "finite V" "card V < 2 ^ 62" using w by (simp_all add: wired_def)
  have half: "\<exists>Q. Q \<subseteq> V \<and> card Q * 2 \<ge> card V + 1 \<and> (\<forall>v\<in>Q. voted_by (votes_for V route c k) (nodes c k) v t)"
    if k: "k \<in> V" "t \<in> led (nodes c k)" for k
  proof -
    have "elected (votes_for V route c k) (nodes c k) t"
      using e k by (auto simp: elections_ok_def tally_inv_def)
    moreover have "set (map_keys (channels (nodes c k))) = V" "total_nodes (nodes c k) = of_nat (card V)"
      using w k(1) by (simp_all add: wired_def)
    ultimately show ?thesis
      unfolding elected_def using quorum_half[OF V] by metis
  qed
  obtain P Q where P: "P \<subseteq> V" "card P * 2 \<ge> card V + 1"
      "\<forall>v\<in>P. voted_by (votes_for V route c i) (nodes c i) v t"
    and Q: "Q \<subseteq> V" "card Q * 2 \<ge> card V + 1"
      "\<forall>v\<in>Q. voted_by (votes_for V route c j) (nodes c j) v t"
    using half[of i] half[of j] assms by blast
  obtain v where v: "v \<in> P" "v \<in> Q"
    using majorities_intersect[OF V(1) P(1) Q(1) P(2) Q(2)] by blast
  define leads_to where "leads_to k v ch \<longleftrightarrow> (v = k \<and> ch = TrivialMessageSender k) \<or>
      (\<exists>a. ch = OtherNodesMessageSender a \<and> route a = Some k)" for k v ch
  have vote: "\<exists>ch. (t, ch) \<in> granted (nodes c v) \<and> leads_to k v ch"
    if "voted_by (votes_for V route c k) (nodes c k) v t" "k \<in> V" for k
    using that w by (auto simp: voted_by_def votes_for_def wired_def leads_to_def)
  obtain ch ch' where ch: "(t, ch) \<in> granted (nodes c v)" "leads_to i v ch"
    and ch': "(t, ch') \<in> granted (nodes c v)" "leads_to j v ch'"
    using vote[of i] vote[of j] P(3) Q(3) v assms(3,4) by blast
  have "ch \<noteq> ch'" using ch(2) ch'(2) assms(5) by (auto simp: leads_to_def)
  then have g: "\<exists>ch ch'. ch \<noteq> ch' \<and> (t, ch) \<in> granted (nodes c v) \<and> (t, ch') \<in> granted (nodes c v)"
    using ch ch' by blast
  have vV: "v \<in> V" using v P(1) by blast
  then have "vote_inv (nodes c v)" using e by (simp add: elections_ok_def)
  then have "t \<in> led (nodes c v)" using g unfolding vote_inv_def by blast
  then show ?thesis using g vV by blast
qed

end
