(* ===== verification/RaftRuns.thy ===== *)
theory RaftRuns
  imports Completeness Cluster
begin

text \<open>
  Runs of a cluster refine the steps of \<open>Ballots\<close>: a tick is a sequence of steps of one member, the
  arrival of a message changes what its receiver holds for processing, and the clients are not seen. So
  the invariant \<open>raft_inv\<close> holds in every run in which no term has two leaders and none wraps around.
\<close>

definition dest_of :: "(string \<Rightarrow> NodeId option) \<Rightarrow> addressing" where
  "dest_of route v ch = (case ch of TrivialMessageSender k \<Rightarrow> if v = k then Some k else None
     | OtherNodesMessageSender a \<Rightarrow> route a)"

definition views :: "Cluster \<Rightarrow> Views" where
  "views c = (\<lambda>i. log_view nothing (nodes c i))"

lemma views_set_node [simp]: "views (set_node i n c) = (views c)(i := log_view nothing n)"
  by (auto simp: views_def set_node_def)

lemma views_delivered [simp]: "views (c\<lparr>delivered := d\<rparr>) = views c"
  by (simp add: views_def)

lemma views_at: "views c i = log_view nothing (nodes c i)"
  by (simp add: views_def)

lemma led_terms_view [simp]: "led_terms (log_view Q n) = led n"
  by (simp add: led_terms_def led_ae_sent)

lemma dest_channel: "channel_to route i j ch \<Longrightarrow> dest_of route i ch = Some j"
  by (auto simp: channel_to_def dest_of_def split: if_splits)

section \<open>Ticks\<close>

lemma log_step_when: "log_step P s s' \<Longrightarrow> (P s \<Longrightarrow> P' s) \<Longrightarrow> log_step P' s s'"
  by (erule log_step.cases) (blast intro: log_step.intros)+

lemma log_step_votes_grow: "log_step P s s' \<Longrightarrow> lv_votes s \<subseteq> lv_votes s' \<and> lv_self s' = lv_self s"
  by (erule log_stepE) auto

text \<open>The abstract steps of one member are steps of the cluster.\<close>

lemma act_steps:
  assumes "log_steps P (w i) y" and i: "i \<in> V"
    and wins: "\<And>z. P z \<Longrightarrow> lv_self z = lv_self (w i) \<Longrightarrow> lv_votes (w i) \<subseteq> lv_votes z \<Longrightarrow> wins V dest (w(i := z)) i"
  shows "views_steps V dest w (w(i := y))"
proof -
  have "views_steps V dest w (w(i := y)) \<and> lv_self y = lv_self (w i) \<and> lv_votes (w i) \<subseteq> lv_votes y"
    using assms(1)
  proof (induction rule: rtranclp_induct)
    case (step y z)
    have "log_step (\<lambda>_. wins V dest (w(i := y)) i) ((w(i := y)) i) z"
      using log_step_when[OF step.hyps(2)] wins[of y] step.IH by simp
    then have "views_step V dest (w(i := y)) ((w(i := y))(i := z))" by (rule views_step.act[OF i])
    then have "views_steps V dest w (w(i := z))"
      using step.IH unfolding fun_upd_upd by (blast intro: rtranclp.rtrancl_into_rtrancl)
    then show ?case using step.IH log_step_votes_grow[OF step.hyps(2)] by (simp only:) blast
  qed simp
  then show ?thesis by simp
qed

text \<open>Votes received are votes of the members.\<close>

lemma voted_wins:
  assumes w: "wired V route c" and i: "i \<in> V" and voted: "voted (votes_for V route c i) (nodes c i) z"
    and z: "lv_self z = lv_self (views c i)" "lv_votes (views c i) \<subseteq> lv_votes z"
  shows "wins V (dest_of route) ((views c)(i := z)) i"
proof -
  have V: "finite V" "card V < 2 ^ 62" "set (map_keys (channels (nodes c i))) = V"
    "total_nodes (nodes c i) = of_nat (card V)" "my_id (nodes c i) = i"
    using w i by (simp_all add: wired_def)
  obtain W where W: "W \<subseteq> V" "of_nat (card W) * 2 \<ge> (of_nat (card V) :: u64) + 1"
    "\<forall>v\<in>W. (v, lv_term z) \<in> votes_for V route c i \<or> v = i \<and> (lv_term z, lv_self z) \<in> lv_votes z"
    using voted V by (auto simp: voted_def)
  have "\<exists>ch. dest_of route v ch = Some i \<and> (lv_term z, ch) \<in> lv_votes (((views c)(i := z)) v)" if v: "v \<in> W" for v
  proof (cases "(v, lv_term z) \<in> votes_for V route c i")
    case True
    then obtain a where "route a = Some i" "(lv_term z, OtherNodesMessageSender a) \<in> granted (nodes c v)"
      by (auto simp: votes_for_def)
    then show ?thesis using z(2) by (intro exI[of _ "OtherNodesMessageSender a"]) (auto simp: dest_of_def views_at)
  next
    case False
    then have "v = i" "(lv_term z, lv_self z) \<in> lv_votes z" using W(3) v by auto
    then show ?thesis using z(1) V(5) by (intro exI[of _ "lv_self z"]) (simp add: dest_of_def views_at)
  qed
  moreover have "majority V W" using W(1) quorum_half[OF V(1,2) W(1,2)] by (simp add: majority_def)
  ultimately show ?thesis unfolding wins_def by (intro exI[of _ W]) simp
qed

lemma sim_tick:
  assumes c: "cluster_inv V route c" and i: "i \<in> V" and n: "Tick k (nodes c i) = Inr n"
    and nw: "no_wraps V c" "no_wrap n"
  shows "views_steps V (dest_of route) (views c) (views (set_node i n c))"
proof -
  let ?G = "votes_for V route c i"
  have w: "wired V route c" and m: "members_ok V c" "elections_ok V route c" using c nw by (simp_all add: cluster_inv_def)
  then have "elect ?G (nodes c i)" using i by (simp add: elect_def members_ok_def elections_ok_def fine_def)
  then have "lives (voted ?G (nodes c i)) nothing (nodes c i) n" "node_ok (nodes c i)"
    using lives_tick_times[of ?G "nodes c i" "unat k"] n by (simp_all add: Tick_def elect_def)
  then have "log_steps (voted ?G (nodes c i)) (views c i) (log_view nothing n)"
    using nw(2) by (simp add: lives_def views_at)
  then show ?thesis unfolding views_set_node by (rule act_steps[OF _ i voted_wins[OF w i]])
qed

section \<open>Other events\<close>

lemma sim_unseen:
  assumes "same_logs (nodes c i) n"
  shows "views_steps V dest (views c) (views (set_node i n c))"
proof -
  have "log_view nothing n = log_view nothing (nodes c i)"
    using assms by (intro log_view_eqI) (simp_all add: same_logs_def)
  then have "views (set_node i n c) = views c" by (auto simp: views_def set_node_def)
  then show ?thesis by simp
qed

text \<open>A message arrives: its receiver holds a request that a member sent.\<close>

lemma sim_arrive:
  assumes w: "wired V route c" and j: "j \<in> V" and i: "i \<in> V" and vi: "vote_inv (nodes c i)"
    and m: "(ch, s, m) \<in> set (sent (nodes c i))" and core: "core_of m' = core_of m"
  shows "views_steps V (dest_of route) (views c) (views (set_node j (AddMessage s m' (nodes c j)) c))"
proof -
  let ?n = "AddMessage s m' (nodes c j)" and ?s = "views c j"
  have sent: "sent ?n = sent (nodes c j)" by (simp add: AddMessage_def split: Message.split)
  have acc: "GetLog ?n = GetLog (nodes c j)" "GetCurrentTerm ?n = GetCurrentTerm (nodes c j)"
    "role ?n = role (nodes c j)" "my_id ?n = my_id (nodes c j)"
    by (simp_all add: AddMessage_def node_simps split: Message.split)
  have view: "log_view nothing ?n = ?s\<lparr>lv_held := lv_held (log_view nothing ?n), lv_polls := lv_polls (log_view nothing ?n)\<rparr>"
    by (simp add: log_view_def same_sent[OF sent] acc views_def)
  have "s = i" using vi m w i by (auto simp: vote_inv_def signed_def wired_def)
  have held: "\<exists>i\<in>V. \<exists>r'\<in>lv_sent (views c i). same_piece r r'"
    if "r \<in> lv_held (log_view nothing ?n) - lv_held ?s" for r
  proof -
    have r: "m' = AEReq r" using that by (auto simp: AddMessage_def views_at split: Message.splits)
    obtain q where q: "m = AEReq q" "same_piece r q"
      using core r by (auto simp: core_of_def same_piece_def split: Message.splits if_splits)
        (metis AppendEntriesRequest.select_convs AppendEntriesRequest.surjective AppendEntriesRequest.update_convs)
    then have "q \<in> lv_sent (views c i)" using m by (auto simp: ae_sent_def views_at)
    then show ?thesis using i q(2) by blast
  qed
  have polls: "poll_asked V (dest_of route) (views c) j ch q"
    if "(ch, q) \<in> lv_polls (log_view nothing ?n) - lv_polls ?s" for ch q
  proof -
    have q: "m' = RVReq q" "map_find (channels (nodes c j)) s = Some ch"
      using that by (auto simp: AddMessage_def polls_of_def views_at split: Message.splits)
    then have "m = RVReq q" using core_of_votes(1)[OF core] by simp
    then have "q \<in> lv_asks (views c i)" using m by (auto simp: rv_sent_def views_at)
    moreover have "channel_to route j i ch" using w i j q(2) \<open>s = i\<close> by (fastforce simp: wired_def)
    ultimately show ?thesis using i dest_channel unfolding poll_asked_def by blast
  qed
  have "views_step V (dest_of route) (views c) ((views c)(j := log_view nothing ?n))"
    by (subst view, rule views_step.arrive[OF j]) (use held polls in \<open>auto simp del: log_view_fields\<close>)
  then show ?thesis unfolding views_set_node by blast
qed

context cluster_transport
begin

lemma sim_step:
  assumes inv: "cluster_inv V route c" and e: "event_node e \<in> V" and fit: "sent_fit fits V c"
    and step: "cluster_step tr route e c = Inr c'" and nw: "no_wraps V c'"
  shows "views_steps V (dest_of route) (views c) (views c')"
proof -
  have "cluster_grows c c'" using grows_step[of c tr route e] step by simp
  then have nwc: "no_wraps V c" using nw by (rule grows_guards(1))
  have w: "wired V route c" "elections_ok V route c" using inv nwc by (simp_all add: cluster_inv_def)
  show ?thesis
  proof (cases e)
    case (CTick i k)
    then obtain n where n: "Tick k (nodes c i) = Inr n" "c' = set_node i n c"
      using step by (auto simp: bind_res_def split: sum.splits)
    then have "no_wrap n" using nw e CTick by (auto simp: no_wraps_def set_node_def)
    then show ?thesis using sim_tick[OF inv _ n(1) nwc] e CTick n(2) by simp
  next
    case (CDeliver i k g)
    let ?d = "c\<lparr>delivered := (i, k) # delivered c\<rparr>"
    have "views_steps V (dest_of route) (views c) (views (set_node j (AddMessage s' m' (nodes c j)) ?d))"
      if "k < length (sent (nodes c i))" "sent (nodes c i) ! k = (ch, s, m)" "route a = Some j"
        "tr g s m = Some (s', m')" for ch s m s' m' a j
    proof -
      have mem: "(ch, s, m) \<in> set (sent (nodes c i))" using that(1,2) by (metis nth_mem)
      have i: "i \<in> V" and j: "j \<in> V" using e CDeliver w(1) that(3) by (auto simp: wired_def)
      have "fits s m" using fit i mem by (auto simp: sent_fit_def)
      then have "s' = s" "core_of m' = core_of m" using channel[of s m g] that(4) by auto
      moreover have "vote_inv (nodes c i)" using w(2) i by (simp add: elections_ok_def)
      ultimately show ?thesis using sim_arrive[OF w(1) j i _ mem] by simp
    qed
    then show ?thesis
      using step CDeliver
      by (auto simp: Let_def simp del: views_set_node views_at
          split: if_splits prod.splits IMessageSender.splits option.splits)
  next
    case (CCommand i x)
    then show ?thesis
      using step by (auto intro!: sim_unseen simp: same_logs_def AddCommand_def Let_def node_simps ident_def
          simp del: views_set_node)
  next
    case (CQuery i f k)
    then show ?thesis
      using step by (auto intro!: sim_unseen simp: same_logs_def GetPersistentCommands_def Let_def node_simps
          ident_def simp del: views_set_node)
  qed
qed

lemma sim_run:
  assumes "cluster_inv V route c" and "\<forall>e\<in>set es. event_node e \<in> V" and "sent_fit fits V c'"
    and "fold_res (cluster_step tr route) es c = Inr c'" and "no_wraps V c'"
  shows "views_steps V (dest_of route) (views c) (views c')"
  using assms
proof (induction es arbitrary: c)
  case Nil
  then show ?case by simp
next
  case (Cons e es)
  obtain d where d: "cluster_step tr route e c = Inr d"
    and rest: "fold_res (cluster_step tr route) es d = Inr c'"
    using Cons.prems(4) by (auto simp: bind_res_def split: sum.splits)
  have "cluster_grows c c'" "cluster_grows d c'"
    using grows_run[of c tr route "e # es"] grows_run[of d tr route es] Cons.prems(4) rest by simp_all
  then have fit: "sent_fit fits V c" and nw: "no_wraps V d" using Cons.prems(3,5) grows_guards by blast+
  have e: "event_node e \<in> V" using Cons.prems(2) by simp
  have "views_steps V (dest_of route) (views d) (views c')"
    using Cons.IH[OF inv_step[OF Cons.prems(1) e fit d] _ Cons.prems(3) rest Cons.prems(5)] Cons.prems(2) by simp
  then show ?case using sim_step[OF Cons.prems(1) e fit d nw] by (rule rtranclp_trans[rotated])
qed

end

section \<open>The invariant of a run\<close>

text \<open>No term is led by two members.\<close>

definition lone_leaders :: "NodeId set \<Rightarrow> Cluster \<Rightarrow> bool" where
  "lone_leaders V c \<longleftrightarrow> (\<forall>i\<in>V. \<forall>j\<in>V. i \<noteq> j \<longrightarrow> led (nodes c i) \<inter> led (nodes c j) = {})"

lemma lone_views: "lone_leaders V c \<Longrightarrow> lone V (views c)"
  by (auto simp: lone_leaders_def lone_def others_led_def disjoint_iff views_at)

text \<open>At the start every log holds the sentinel alone.\<close>

lemma raft_initial:
  assumes "\<And>i. i \<in> V \<Longrightarrow> GetLog (nodes c i) = initial_log \<and> role (nodes c i) = kFollower \<and>
    sent (nodes c i) = [] \<and> incoming_append_entries_requests (nodes c i) = [] \<and>
    incoming_request_vote_requests (nodes c i) = [] \<and> my_id (nodes c i) = i"
  shows "raft_inv V (dest_of route) ((\<lambda>t. [])(0 := initial_log)) (views c)"
proof -
  let ?L = "(\<lambda>t. [])(0 := initial_log)"
  have L: "agrees ?L initial_log" by (simp add: agrees_def initial_log_def)
  have "replica ?L (views c i) \<and> member_ok V (dest_of route) ?L (views c) i" if "i \<in> V" for i
    using assms[OF that] L
    by (simp add: replica_def led_terms_def ae_sent_def member_ok_def rv_sent_def granted_def acked_def polls_of_def
        dest_of_def initial_log_def led_def views_at)
  moreover have "term_logs_ok ?L T" for T using L by (simp add: term_logs_ok_def agrees_def initial_log_def)
  ultimately show ?thesis by (simp add: raft_inv_def)
qed

text \<open>What the invariant gives for the nodes.\<close>

lemma cluster_match:
  assumes "raft_inv V dest L (views c)" and "i \<in> V" and "j \<in> V"
    and "k < length (GetLog (nodes c i))" and "k < length (GetLog (nodes c j))"
    and "leader_term (GetLog (nodes c i) ! k) = leader_term (GetLog (nodes c j) ! k)"
  shows "take (Suc k) (GetLog (nodes c i)) = take (Suc k) (GetLog (nodes c j))"
  using raft_match[OF assms(1-3)] assms(4-6) by (simp add: views_at)

lemma cluster_leader:
  assumes "raft_inv V dest L (views c)" and "i \<in> V" and "j \<in> V" and "role (nodes c i) = kLeader"
    and "k < length (GetLog (nodes c j))" and "leader_term (GetLog (nodes c j) ! k) = GetCurrentTerm (nodes c i)"
  shows "k < length (GetLog (nodes c i)) \<and> take (Suc k) (GetLog (nodes c j)) = take (Suc k) (GetLog (nodes c i))"
  using raft_leader[OF assms(1-3)] assms(4-6) by (simp add: views_at)

text \<open>
  A majority has acknowledged the index \<open>k\<close> in the term \<open>t\<close>; the acknowledgements of a member are read from
  the messages it sent.
\<close>

definition majority_acked :: "NodeId set \<Rightarrow> Cluster \<Rightarrow> Term \<Rightarrow> nat \<Rightarrow> bool" where
  "majority_acked V c t k \<longleftrightarrow> (\<exists>A. majority V A \<and> (\<forall>v\<in>A. (t, k) \<in> acked (nodes c v)))"

lemma cluster_complete:
  assumes "raft_inv V dest L (views c)" and "finite V" and "majority_acked V c t k"
    and "i \<in> V" and "role (nodes c i) = kLeader" and "t \<le> GetCurrentTerm (nodes c i)"
    and "j \<in> V" and "k < length (GetLog (nodes c j))" and "leader_term (GetLog (nodes c j) ! k) = t"
  shows "k < length (GetLog (nodes c i)) \<and> take (Suc k) (GetLog (nodes c i)) = take (Suc k) (GetLog (nodes c j))"
proof -
  obtain A where A: "majority V A" "\<forall>v\<in>A. (t, k) \<in> lv_acks (views c v)"
    using assms(3) by (auto simp: majority_acked_def views_at)
  show ?thesis
    using raft_complete[OF assms(1,2) A assms(4) _ _ assms(7)] assms(5,6,8,9)
    by (simp add: views_at has_entry_def)
qed

text \<open>Two entries at one index that majorities acknowledged in their own terms are the same.\<close>

lemma cluster_agree:
  assumes "raft_inv V dest L (views c)" and "finite V" and "i \<in> V" and "j \<in> V"
    and "k < length (GetLog (nodes c i))" and "k < length (GetLog (nodes c j))"
    and "majority_acked V c (leader_term (GetLog (nodes c i) ! k)) k"
    and "majority_acked V c (leader_term (GetLog (nodes c j) ! k)) k"
  shows "take (Suc k) (GetLog (nodes c i)) = take (Suc k) (GetLog (nodes c j))"
proof -
  obtain A B where A: "majority V A" "\<forall>v\<in>A. (leader_term (lv_log (views c i) ! k), k) \<in> lv_acks (views c v)"
    and B: "majority V B" "\<forall>v\<in>B. (leader_term (lv_log (views c j) ! k), k) \<in> lv_acks (views c v)"
    using assms(7,8) by (auto simp: majority_acked_def views_at)
  show ?thesis
    using raft_agree[OF assms(1-4) _ _ A B] assms(5,6) by (simp add: views_at)
qed

end
