(* ===== verification/Acknowledged.thy ===== *)
theory Acknowledged
  imports RaftRuns
begin

text \<open>
  What a leader counts. \<open>match_index\<close> of a leader holds, for each member, an index that this member has
  acknowledged in some term; \<open>ack_of A n s\<close> are the acknowledgements of \<open>s\<close>, those of the node itself
  read from its own history. \<open>carries\<close> is a step that takes over no response but those the node sends
  to itself; every method is one, except for the handler of a response.
\<close>

section \<open>The invariant\<close>

definition ack_of :: "(NodeId \<Rightarrow> (Term \<times> nat) set) \<Rightarrow> Node \<Rightarrow> NodeId \<Rightarrow> (Term \<times> nat) set" where
  "ack_of A n s = (if s = my_id n then acked n else A s)"

definition resp_ok :: "(NodeId \<Rightarrow> (Term \<times> nat) set) \<Rightarrow> Node \<Rightarrow> NodeId \<times> AppendEntriesResponse \<Rightarrow> bool" where
  "resp_ok A n x \<longleftrightarrow> fst x \<in> set (map_keys (channels n)) \<and> acks_of (snd x) \<subseteq> ack_of A n (fst x)"

definition match_ok :: "(NodeId \<Rightarrow> (Term \<times> nat) set) \<Rightarrow> Node \<Rightarrow> NodeId \<times> LogItemId \<Rightarrow> bool" where
  "match_ok A n x \<longleftrightarrow> fst x \<in> set (map_keys (channels n)) \<and> (snd x \<noteq> 0 \<longrightarrow>
     (\<exists>t. (no_wrap n \<longrightarrow> t \<le> GetCurrentTerm n) \<and> (t, unat (snd x)) \<in> ack_of A n (fst x)))"

definition matches :: "Node \<Rightarrow> (NodeId \<times> LogItemId) set" where
  "matches n = (case leader_state n of None \<Rightarrow> {} | Some ls \<Rightarrow> set (match_index ls))"

definition match_inv :: "(NodeId \<Rightarrow> (Term \<times> nat) set) \<Rightarrow> Node \<Rightarrow> bool" where
  "match_inv A n \<longleftrightarrow> my_id n \<in> set (map_keys (channels n)) \<and>
     (\<forall>x\<in>set (incoming_append_entries_responses n). resp_ok A n x) \<and> (\<forall>x\<in>matches n. match_ok A n x)"

definition carries :: "Node \<Rightarrow> Node \<Rightarrow> bool" where
  "carries n n' \<longleftrightarrow> history_grows n n' \<and> (no_wrap n' \<longrightarrow> GetCurrentTerm n \<le> GetCurrentTerm n') \<and>
     (\<forall>x\<in>set (incoming_append_entries_responses n'). x \<in> set (incoming_append_entries_responses n) \<or>
        fst x = my_id n \<and> acks_of (snd x) \<subseteq> acked n') \<and>
     (\<forall>x\<in>matches n'. x \<in> matches n \<or> fst x \<in> set (map_keys (channels n)) \<and> snd x = 0)"

lemma history_acked: "history_grows n n' \<Longrightarrow> acked n \<subseteq> acked n'"
  by (auto simp: history_grows_def acked_def)

lemma carries_refl: "carries n n"
  by (simp add: carries_def history_refl)

lemma carries_trans: "carries a b \<Longrightarrow> carries b c \<Longrightarrow> carries a c"
proof -
  assume ab: "carries a b" and bc: "carries b c"
  have h: "history_grows a b" "history_grows b c" using ab bc by (simp_all add: carries_def)
  have "GetCurrentTerm a \<le> GetCurrentTerm c" if "no_wrap c"
    using ab bc that history_mono(3)[OF h(2) that] order_trans unfolding carries_def by blast
  moreover have id: "my_id b = my_id a" "channels b = channels a" using h(1) by (simp_all add: history_grows_def ident_def)
  have "x \<in> set (incoming_append_entries_responses a) \<or> fst x = my_id a \<and> acks_of (snd x) \<subseteq> acked c"
    if x: "x \<in> set (incoming_append_entries_responses c)" for x
  proof (cases "x \<in> set (incoming_append_entries_responses b)")
    case True
    then show ?thesis using ab history_acked[OF h(2)] by (auto simp: carries_def)
  qed (use bc x id in \<open>auto simp: carries_def\<close>)
  moreover have "x \<in> matches a \<or> fst x \<in> set (map_keys (channels a)) \<and> snd x = 0" if "x \<in> matches c" for x
    using ab bc that id unfolding carries_def by metis
  ultimately show "carries a c"
    using history_trans[OF h] by (simp only: carries_def) blast
qed

interpretation carries_run: run_relation carries
  by unfold_locales (rule carries_refl, rule carries_trans)

lemma ack_of_mono: "history_grows n n' \<Longrightarrow> ack_of A n s \<subseteq> ack_of A n' s"
  using history_acked[of n n'] by (auto simp: ack_of_def history_grows_def ident_def)

lemma resp_ok_mono:
  assumes "history_grows n n'" and "resp_ok A n x"
  shows "resp_ok A n' x"
  using ack_of_mono[OF assms(1), of A "fst x"] assms by (auto simp: resp_ok_def history_grows_def ident_def)

lemma match_ok_mono:
  assumes "history_grows n n'" and "no_wrap n' \<longrightarrow> GetCurrentTerm n \<le> GetCurrentTerm n'" and "match_ok A n x"
  shows "match_ok A n' x"
proof -
  have "t \<le> GetCurrentTerm n'" if "no_wrap n'" "no_wrap n \<longrightarrow> t \<le> GetCurrentTerm n" for t
    using that assms(2) history_mono(3)[OF assms(1) that(1)] order_trans by blast
  then show ?thesis
    using assms(3) ack_of_mono[OF assms(1), of A "fst x"] assms(1)
    unfolding match_ok_def history_grows_def ident_def by auto
qed

lemma match_inv_carries:
  assumes "carries n n'" and "match_inv A n"
  shows "match_inv A n'"
proof -
  note c = assms(1)[unfolded carries_def]
  have h: "history_grows n n'" and t: "no_wrap n' \<longrightarrow> GetCurrentTerm n \<le> GetCurrentTerm n'" using c by simp_all
  have id: "my_id n' = my_id n" "channels n' = channels n" using h by (simp_all add: history_grows_def ident_def)
  have "resp_ok A n' x" if "x \<in> set (incoming_append_entries_responses n')" for x
  proof (cases "x \<in> set (incoming_append_entries_responses n)")
    case True
    then show ?thesis using assms(2) by (intro resp_ok_mono[OF h]) (simp add: match_inv_def)
  next
    case False
    then show ?thesis using c that assms(2) by (auto simp: resp_ok_def ack_of_def id match_inv_def)
  qed
  moreover have "match_ok A n' x" if "x \<in> matches n'" for x
  proof (cases "x \<in> matches n")
    case True
    then show ?thesis using assms(2) by (intro match_ok_mono[OF h t]) (simp add: match_inv_def)
  next
    case False
    then show ?thesis using c that by (auto simp: match_ok_def id)
  qed
  ultimately show ?thesis using assms(2) by (simp add: match_inv_def id)
qed

section \<open>Methods\<close>

named_theorems hauls \<open>methods that carry the acknowledgements along\<close>

lemma carriesI:
  assumes "advances n n'" and "incoming_append_entries_responses n' = incoming_append_entries_responses n"
    and "matches n' \<subseteq> matches n"
  shows "carries n n'"
  using assms by (auto simp: carries_def advances_def evolves_history term_up_def)

lemma carries_setters [hauls]:
  "carries n (set_log l n)" "carries n (set_voted_for v n)" "carries n (set_commit_index i n)"
  "carries n (ResetElectionTimer n)" "carries n (BecomeFollower n)"
  "carries n (snd (DidElectionTimeoutExpire n))"
  "carries n (n\<lparr>candidate_state := cs\<rparr>)" "carries n (n\<lparr>command_results := rs\<rparr>)"
  "carries n (n\<lparr>items_to_response := rs'\<rparr>)" "carries n (n\<lparr>incoming_commands := cmds\<rparr>)"
  by (rule carriesI, rule moves, (simp add: node_simps ResetElectionTimer_def BecomeFollower_def matches_def
      DidElectionTimeoutExpire_def split: prod.splits; fail)+)+

lemma carries_adopt [hauls]:
  "carries n (if GetCurrentTerm n < t then BecomeFollower (set_current_term t n) else n)"
  by (rule carriesI[OF advances_adopt])
    (simp_all add: node_simps ResetElectionTimer_def BecomeFollower_def matches_def)

lemma carries_send [hauls]: "carries n (channel_send c (my_id n) m n)"
proof -
  have "acks_of r \<subseteq> acked (channel_send c (my_id n) m n)" if "m = AEResp r" for r
    using that by (simp add: sent_sets)
  moreover have "matches (channel_send c (my_id n) m n) = matches n" by (simp add: matches_def)
  ultimately show ?thesis
    by (auto simp: carries_def history_channel_send channel_send_queues GetCurrentTerm_def split: Message.splits if_splits)
qed

lemma carries_set_command_value [hauls]: "on_ok (carries n) (set_command_value p v n)"
  by (auto simp: set_command_value_def post_bind intro!: on_okI hauls)

lemma carries_redirect [hauls]: "on_ok (carries n) (redirect_commands l n)"
  unfolding redirect_commands_def Let_def
  by (rule carries_run.run_after[OF carries_setters(10)]) (rule carries_run.run_fold, auto intro: hauls)

lemma carries_HandleAppendEntriesRequest:
  "on_ok (\<lambda>(r, n'). carries n n') (HandleAppendEntriesRequest req n)"
proof -
  define n1 where "n1 = ResetElectionTimer (if GetCurrentTerm n < ae_leader_term req
      then BecomeFollower (set_current_term (ae_leader_term req) n) else n)"
  have n1: "carries n n1"
    unfolding n1_def by (rule carries_run.run_trans[OF carries_adopt]) (rule hauls)
  define n2 where "n2 = (if GetRole n1 \<noteq> kLeader then redirect_commands (ae_leader_id req) n1
      else Inr n1)"
  have n2: "on_ok (carries n) n2"
    using carries_run.run_after[OF n1 carries_redirect] n1 by (simp add: n2_def)
  have app: "on_ok (\<lambda>_. True) (append_entries prev pos es log)" for prev pos es log
    by (rule on_okI) (rule TrueI)
  have fin: "carries n (if c then set_commit_index i (set_log l m) else set_log l m)"
    if "carries n m" for m l c i
    using that by (auto intro: hauls carries_run.run_trans[OF carries_run.run_trans[OF that]]
        carries_run.run_trans)
  show ?thesis
    unfolding HandleAppendEntriesRequest_def Let_def n1_def[symmetric] n2_def[symmetric]
    using n1 fin by (auto simp: read_at_def intro!: post_bindI[OF n2] post_bindI[OF app])
qed

lemma carries_handle_ae_req [hauls]: "on_ok (carries n) (handle_ae_req m n)"
  unfolding handle_ae_req_def
  by (cases m) (auto simp: map_at_def split: option.splits
      intro!: carries_run.run_bind_value carries_HandleAppendEntriesRequest hauls)

lemma carries_HandleRequestVoteRequest:
  "on_ok (\<lambda>(r, n'). carries n n') (HandleRequestVoteRequest req n)"
proof -
  define n1 where "n1 = (if GetCurrentTerm n < candidate_term req
      then BecomeFollower (set_current_term (candidate_term req) n) else n)"
  have n1: "carries n n1" unfolding n1_def by (rule hauls)
  have "carries n (set_voted_for v n1)" for v
    by (rule carries_run.run_trans[OF n1]) (rule hauls)
  then show ?thesis
    unfolding HandleRequestVoteRequest_def Let_def n1_def[symmetric]
    using n1 by (auto simp: post_bind intro!: on_okI)
qed

lemma carries_handle_rv_req [hauls]: "on_ok (carries n) (handle_rv_req m n)"
  unfolding handle_rv_req_def
  by (cases m) (auto simp: map_at_def split: option.splits
      intro!: carries_run.run_bind_value carries_HandleRequestVoteRequest hauls)

lemma carries_SendAppendEntriesToSomeone [hauls]:
  "on_ok (carries n) (SendAppendEntriesToSomeone k hb n)"
proof -
  have read: "carries n b" if "read_next_index k n = Inr (v, b)" for v b
    using that by (intro carriesI)
      (auto simp: read_next_index_def matches_def Let_def split: option.splits prod.splits intro: moves)
  then show ?thesis
    by (intro on_okI)
       (auto simp: SendAppendEntriesToSomeone_def bind_res_eq_Inr Let_def split: if_splits
         intro: carries_run.run_trans hauls carries_refl)
qed

lemma carries_SendAppendEntriesToAll [hauls]: "on_ok (carries n) (SendAppendEntriesToAll hb n)"
  unfolding SendAppendEntriesToAll_def
  by (rule carries_run.run_fold) (auto intro: hauls)

text \<open>A new leader starts from zero.\<close>

lemma set_map_insert: "set (map_insert k v m) \<subseteq> insert (k, v) (set m)"
  by (induction k v m rule: map_insert.induct) auto

lemma zero_matches: "set (fold (\<lambda>i. map_insert i 0) ids m) \<subseteq> set m \<union> set ids \<times> {0}"
proof (induction ids arbitrary: m)
  case (Cons i ids)
  then show ?case using set_map_insert[of i 0 m] by fastforce
qed simp

lemma carries_BecomeLeader [hauls]: "on_ok (carries n) (BecomeLeader n)"
proof -
  have "carries n ((set_voted_for None n)\<lparr>candidate_state := None, leader_state := Some \<lparr>next_index = nx,
      match_index = fold (\<lambda>i. map_insert i 0) (map_keys (channels n)) []\<rparr>, role := kLeader\<rparr>)" for nx
    using zero_matches[of "map_keys (channels n)" "[]"]
    by (auto simp: carries_def history_grows_def ident_def node_simps matches_def)
  moreover have "channels (set_voted_for None n) = channels n" by (simp add: node_simps)
  ultimately show ?thesis
    unfolding BecomeLeader_def Let_def by (auto intro!: carries_run.run_after[OF _ carries_SendAppendEntriesToAll])
qed

lemma carries_HandleRequestVoteResponse [hauls]:
  "on_ok (carries n) (HandleRequestVoteResponse r k n)"
proof -
  define n1 where "n1 = (if GetCurrentTerm n < rvr_current_term r
      then BecomeFollower (set_current_term (rvr_current_term r) n) else n)"
  have n1: "carries n n1" unfolding n1_def by (rule hauls)
  have "on_ok (carries n) (BecomeLeader (n1\<lparr>candidate_state := cs\<rparr>))" for cs
    by (rule carries_run.run_after[OF carries_run.run_trans[OF n1 carries_setters(7)]]) (rule hauls)
  moreover have "carries n (n1\<lparr>candidate_state := cs\<rparr>)" for cs
    by (rule carries_run.run_trans[OF n1 carries_setters(7)])
  ultimately show ?thesis
    unfolding HandleRequestVoteResponse_def n1_def[symmetric]
    using n1 by (auto simp: Let_def split: option.splits)
qed

lemma carries_CommitIfPossible [hauls]: "on_ok (carries n) (CommitIfPossible n)"
proof -
  have set: "on_ok (carries m) (bind_res (set_command_value p v m) (\<lambda>n.
      Inr (n\<lparr>items_to_response := f n\<rparr>)))" for p v f m
    by (rule carries_run.run_bind[OF carries_set_command_value]) (simp add: carries_setters)
  have "on_ok (carries m) (respond_item i m)" for i m
    using set[where m = m] by (simp add: respond_item_def carries_refl split: option.splits)
  then have loop: "on_ok (carries m) (fold_res respond_item is m)" for "is" m
    by (rule carries_run.run_fold)
  have commit: "on_ok (carries n) (bind_res (fold_res respond_item is n) (\<lambda>n. Inr (set_commit_index i n)))"
    for i "is" by (rule carries_run.run_bind[OF loop]) (simp add: carries_setters)
  show ?thesis
    unfolding CommitIfPossible_def Let_def
    by (rule post_bindI[where P = "\<lambda>_. True"], rule on_okI, rule TrueI)
       (simp add: carries_refl commit split: option.split del: upt_Suc)
qed

lemma carries_AddNewCommandsToLog [hauls]: "on_ok (carries n) (AddNewCommandsToLog n)"
proof -
  have "on_ok (carries m) (append_command c m)" for c m
    by (auto simp: append_command_def push_back_def Let_def store_response_def drop_promise_def matches_def
        carries_def history_grows_def ident_def node_simps
        split: prod.splits option.splits promise_state.splits)
  then show ?thesis
    unfolding AddNewCommandsToLog_def Let_def
    by (intro carries_run.run_after[OF carries_setters(10) carries_run.run_fold])
qed

lemma carries_queries [hauls]: "on_ok (carries n) (HandleGetPersistentCommandRequests n)"
proof -
  have "on_ok (carries m) (answer_query q m)" for q m
    by (auto simp: answer_query_def post_bind set_query_value_def carries_def history_grows_def ident_def matches_def
        node_simps split: prod.splits intro!: on_okI simp del: upt_Suc)
  moreover have "carries n (n\<lparr>get_persistent_commands_reqs := []\<rparr>)"
    by (simp add: carries_def history_grows_def ident_def matches_def node_simps)
  ultimately show ?thesis
    unfolding HandleGetPersistentCommandRequests_def Let_def
    by (intro carries_run.run_after[OF _ carries_run.run_fold])
qed

text \<open>A candidacy raises the term unless it wraps around.\<close>

lemma candidate_shape:
  assumes "BecomeCandidate n = Inr m"
  shows "\<exists>r. candidate_term r = GetCurrentTerm n + 1 \<and> m = (posted (map (\<lambda>(k, c). (c, RVReq r)) (channels n))
    (campaigning n))\<lparr>role := kCandidate, candidate_state := Some \<lparr>votes = []\<rparr>, leader_state := None\<rparr>"
proof -
  have start: "ResetElectionTimer (set_voted_for (Some (my_id (set_current_term (GetCurrentTerm n + 1) n)))
      (set_current_term (GetCurrentTerm n + 1) n)) = campaigning n"
    by (simp add: campaigning_def set_current_term_def)
  show ?thesis
    using assms unfolding BecomeCandidate_def Let_def start
    by (auto simp: SendRequestVoteToAll_def Let_def bind_res_eq_Inr fold_post)
      (metis RequestVoteRequest.select_convs(1))
qed

lemma carries_BecomeCandidate:
  assumes "my_id n \<in> set (map_keys (channels n))"
  shows "on_ok (carries n) (BecomeCandidate n)"
proof (rule on_okI)
  fix m assume m: "BecomeCandidate n = Inr m"
  obtain k c rest where first: "channels n = (k, c) # rest" using assms by (cases "channels n") (auto simp: map_keys_def)
  obtain r where r: "candidate_term r = GetCurrentTerm n + 1"
    "m = (posted (map (\<lambda>(k, c). (c, RVReq r)) (channels n)) (campaigning n))
      \<lparr>role := kCandidate, candidate_state := Some \<lparr>votes = []\<rparr>, leader_state := None\<rparr>"
    using candidate_shape[OF m] by blast
  have "(c, my_id n, RVReq r) \<in> set (sent m)" by (simp add: r(2) first sent_posted[simplified posted_Cons] sent_posted post_one_def)
  then have "GetCurrentTerm n + 1 \<noteq> 0" if "no_wrap m" using that r(1) by (fastforce simp: no_wrap_def)
  then have "GetCurrentTerm n \<le> GetCurrentTerm n + 1" if "no_wrap m"
    using that unatSuc[of "GetCurrentTerm n"] by (simp add: word_le_nat_alt add.commute)
  moreover have "GetCurrentTerm m = GetCurrentTerm n + 1"
    by (simp add: r(2)) (simp add: node_simps campaigning_def ResetElectionTimer_def)
  moreover have "history_grows n m" using evolves_BecomeCandidate[of n] m by (simp add: evolves_history)
  moreover have "incoming_append_entries_responses m = incoming_append_entries_responses n"
    by (simp add: r(2) queue_asks campaigning_def ResetElectionTimer_def node_simps)
  ultimately show "carries n m" by (simp add: carries_def matches_def r(2))
qed

section \<open>The handler of a response\<close>

lemma match_HandleAppendEntriesResponse:
  assumes inv: "match_inv A n" and resp: "resp_ok A n (s, r)"
  shows "on_ok (\<lambda>n'. match_inv A n' \<and> history_grows n n') (HandleAppendEntriesResponse r s n)"
proof -
  define m where "m = (if GetCurrentTerm n < aer_current_term r
      then BecomeFollower (set_current_term (aer_current_term r) n) else n)"
  have c: "carries n m" unfolding m_def by (rule carries_adopt)
  then have h: "history_grows n m" by (simp add: carries_def)
  have m: "match_inv A m" by (rule match_inv_carries[OF c inv])
  have r: "resp_ok A m (s, r)" by (rule resp_ok_mono[OF h resp])
  have late: "aer_current_term r \<le> GetCurrentTerm m"
    unfolding m_def by (auto simp: BecomeFollower_def ResetElectionTimer_def node_simps)
  have state: "match_inv A (m\<lparr>leader_state := Some ls'\<rparr>) \<and> history_grows n (m\<lparr>leader_state := Some ls'\<rparr>)"
    if "\<forall>x\<in>set (match_index ls'). match_ok A m x" for ls'
  proof -
    have same: "GetCurrentTerm (m\<lparr>leader_state := l\<rparr>) = GetCurrentTerm m" "no_wrap (m\<lparr>leader_state := l\<rparr>) = no_wrap m"
      "acked (m\<lparr>leader_state := l\<rparr>) = acked m" for l
      by (simp_all add: node_simps no_wrap_def acked_def)
    then have "match_ok A (m\<lparr>leader_state := l\<rparr>) = match_ok A m" "resp_ok A (m\<lparr>leader_state := l\<rparr>) = resp_ok A m" for l
      by (simp_all add: fun_eq_iff match_ok_def resp_ok_def ack_of_def)
    then show ?thesis using m that h by (simp add: match_inv_def matches_def history_grows_def ident_def)
  qed
  have old: "\<forall>x\<in>set (match_index ls). match_ok A m x" if "leader_state m = Some ls" for ls
    using m that by (simp add: match_inv_def matches_def)
  have new: "\<forall>x\<in>set (map_insert s (max (fst (map_subscript 0 s (match_index ls))) u) (match_index ls)). match_ok A m x"
    if "leader_state m = Some ls" "success r" "matched_until r = Some u" for ls u
  proof -
    let ?v = "max (fst (map_subscript 0 s (match_index ls))) u"
    have "match_ok A m (s, ?v)"
    proof (cases "?v = u")
      case True
      have "(aer_current_term r, unat u) \<in> acks_of r" using that by (simp add: acks_of_def)
      then show ?thesis using r late True by (auto simp: match_ok_def resp_ok_def)
    next
      case False
      then have "?v = fst (map_subscript 0 s (match_index ls))" "?v \<noteq> 0" by (auto simp: max_def split: if_splits)
      then have "map_find (match_index ls) s = Some ?v" by (auto simp: map_subscript_value split: option.splits)
      then have "(s, ?v) \<in> set (match_index ls)" by (auto simp: map_find_def dest: map_of_SomeD)
      then show ?thesis using old[OF that(1)] by blast
    qed
    then show ?thesis using old[OF that(1)] set_map_insert by fast
  qed
  show ?thesis
    unfolding HandleAppendEntriesResponse_def m_def[symmetric]
    using m h state old new by (auto simp: Let_def split: option.splits)
qed

lemma match_HandleIncomingMessages:
  assumes "match_inv A n"
  shows "on_ok (match_inv A) (HandleIncomingMessages n)"
proof -
  let ?rs = "incoming_append_entries_responses n"
  have e: "carries n (emptied n)"
    by (simp add: carries_def emptied_def history_grows_def ident_def node_simps matches_def)
  have loop: "on_ok (\<lambda>n'. match_inv A n' \<and> history_grows n n')
      (fold_res (\<lambda>(s, r). HandleAppendEntriesResponse r s) ?rs m)"
    if "match_inv A m \<and> history_grows n m" for m
  proof (rule post_fold[where P = "\<lambda>m. match_inv A m \<and> history_grows n m", OF that])
    fix x m assume x: "x \<in> set ?rs" and m: "match_inv A m \<and> history_grows n m"
    obtain s r where sr: "x = (s, r)" by (cases x)
    have "resp_ok A m (s, r)" using assms x m by (auto simp: match_inv_def sr intro: resp_ok_mono)
    then have "on_ok (\<lambda>n'. match_inv A n' \<and> history_grows m n') (HandleAppendEntriesResponse r s m)"
      using m by (intro match_HandleAppendEntriesResponse) simp_all
    then show "on_ok (\<lambda>m. match_inv A m \<and> history_grows n m) ((case x of (s, r) \<Rightarrow> HandleAppendEntriesResponse r s) m)"
      using m by (simp add: sr) (erule post_weaken, blast intro: history_trans)
  qed
  have 1: "on_ok (carries n) (bind_res (fold_res handle_ae_req (incoming_append_entries_requests n) (emptied n))
      (fold_res handle_rv_req (incoming_request_vote_requests n)))"
    by (rule carries_run.run_after[OF e], rule carries_run.run_bind) (auto intro!: carries_run.run_fold hauls)
  have 2: "on_ok (match_inv A) (fold_res (\<lambda>(s, r). HandleRequestVoteResponse r s) xs m)" if "match_inv A m" for xs m
  proof -
    have "on_ok (carries m) (fold_res (\<lambda>(s, r). HandleRequestVoteResponse r s) xs m)"
      by (rule carries_run.run_fold) (auto intro: hauls)
    then show ?thesis using that by (auto elim!: post_weaken intro: match_inv_carries)
  qed
  show ?thesis
    unfolding HandleIncomingMessages_def Let_def emptied_def[symmetric] bind_res_assoc[symmetric]
  proof (rule post_bindI[OF post_bindI[OF 1]])
    fix m assume c: "carries n m"
    then have "match_inv A m" by (rule match_inv_carries[OF _ assms])
    moreover have "history_grows n m" using c by (simp add: carries_def)
    ultimately show "on_ok (match_inv A) (fold_res (\<lambda>(s, r). HandleAppendEntriesResponse r s) ?rs m)"
      using post_weaken[OF loop[of m]] by blast
  qed (rule 2)
qed

section \<open>Ticks\<close>

lemma match_after:
  assumes "on_ok (carries n) m" and "match_inv A n"
  shows "on_ok (match_inv A) m"
  using assms by (auto elim!: post_weaken intro: match_inv_carries)

lemma match_tick_once:
  assumes "match_inv A n"
  shows "on_ok (match_inv A) (tick_once n)"
proof -
  let ?n = "n\<lparr>tick_number := tick_number n + 1\<rparr>"
  have c: "carries n ?n" by (simp add: carries_def history_grows_def ident_def matches_def node_simps)
  have follower: "on_ok (match_inv A) (TickFollower m)" if "match_inv A m" for m
    unfolding TickFollower_def
  proof (rule post_bindI[OF match_HandleIncomingMessages[OF that]])
    fix x assume x: "match_inv A x"
    obtain e y where d: "DidElectionTimeoutExpire x = (e, y)" by fastforce
    then have y: "match_inv A y" using match_inv_carries[OF carries_setters(6) x] by simp
    then have "on_ok (match_inv A) (BecomeCandidate y)"
      by (intro match_after[OF carries_BecomeCandidate]) (simp_all add: match_inv_def)
    then show "on_ok (match_inv A) (let (expired, n) = DidElectionTimeoutExpire x
        in if expired then BecomeCandidate n else Inr n)"
      using y by (simp add: d)
  qed
  have leader: "on_ok (match_inv A) (TickLeader m)" if "match_inv A m" for m
    unfolding TickLeader_def
  proof (rule post_bindI[OF match_after[OF carries_CommitIfPossible that]],
      rule post_bindI[OF match_HandleIncomingMessages], assumption)
    fix x assume x: "match_inv A x"
    have "on_ok (carries x) (bind_res (SendAppendEntriesToAll True x) AddNewCommandsToLog)"
      by (rule carries_run.run_bind) (auto intro: hauls)
    then show "on_ok (match_inv A) (if GetRole x = kLeader
        then bind_res (SendAppendEntriesToAll True x) AddNewCommandsToLog else Inr x)"
      using x match_after by auto
  qed
  show ?thesis
    unfolding tick_once_def Let_def
  proof (rule post_bindI[OF match_after[OF carries_queries match_inv_carries[OF c assms]]])
    fix m assume "match_inv A m"
    then show "on_ok (match_inv A) (case role m of kFollower \<Rightarrow> TickFollower m | kCandidate \<Rightarrow> TickCandidate m
        | kLeader \<Rightarrow> TickLeader m)"
      using follower leader by (cases "role m") (simp_all add: TickCandidate_def)
  qed
qed

lemma match_tick_times: "match_inv A n \<Longrightarrow> on_ok (match_inv A) (tick_times k n)"
proof (induction k arbitrary: n)
  case (Suc k)
  then show ?case by (simp, intro post_bindI[OF match_tick_once[OF Suc.prems]])
qed simp

section \<open>Clusters\<close>

definition matches_inv :: "NodeId set \<Rightarrow> Cluster \<Rightarrow> bool" where
  "matches_inv V c \<longleftrightarrow> (no_wraps V c \<longrightarrow> (\<forall>i\<in>V. match_inv (\<lambda>v. acked (nodes c v)) (nodes c i)))"

lemma match_inv_more:
  assumes "\<And>v. A v \<subseteq> A' v" and "match_inv A n"
  shows "match_inv A' n"
proof -
  have a: "ack_of A n s \<subseteq> ack_of A' n s" for s using assms(1) by (auto simp: ack_of_def)
  have "resp_ok A' n x" if "resp_ok A n x" for x using that a[of "fst x"] by (auto simp: resp_ok_def)
  moreover have "match_ok A' n x" if "match_ok A n x" for x using that a[of "fst x"] by (auto simp: match_ok_def)
  ultimately show ?thesis using assms(2) by (simp add: match_inv_def)
qed

lemma match_set_node:
  assumes inv: "matches_inv V c" and i: "i \<in> V" and h: "history_grows (nodes c i) n"
    and step: "no_wraps V c \<Longrightarrow> match_inv (\<lambda>v. acked (nodes c v)) (nodes c i) \<Longrightarrow> match_inv (\<lambda>v. acked (nodes c v)) n"
  shows "matches_inv V (set_node i n c)"
  unfolding matches_inv_def
proof (intro impI ballI)
  fix j assume nw: "no_wraps V (set_node i n c)" and j: "j \<in> V"
  have c: "no_wraps V c" by (rule history_no_wraps[OF h nw])
  have "match_inv (\<lambda>v. acked (nodes c v)) (nodes (set_node i n c) j)"
    using inv c i j step by (cases "j = i") (simp_all add: matches_inv_def set_node_def)
  then show "match_inv (\<lambda>v. acked (nodes (set_node i n c) v)) (nodes (set_node i n c) j)"
    using history_acked[OF h] by (rule_tac match_inv_more) (auto simp: set_node_def)
qed

lemma match_carried:
  "matches_inv V c \<Longrightarrow> i \<in> V \<Longrightarrow> carries (nodes c i) n \<Longrightarrow> matches_inv V (set_node i n c)"
  by (rule match_set_node) (simp_all add: match_inv_carries, simp add: carries_def)

lemma match_delivered [simp]: "matches_inv V (c\<lparr>delivered := d\<rparr>) = matches_inv V c"
  by (simp add: matches_inv_def no_wraps_def)

lemma match_arrive:
  assumes inv: "matches_inv V c" and c: "cluster_inv V route c" and i: "i \<in> V" and j: "j \<in> V"
    and m: "(ch, s, m) \<in> set (sent (nodes c i))" and core: "core_of m' = core_of m"
  shows "matches_inv V (set_node j (AddMessage s m' (nodes c j)) c)"
proof (rule match_set_node[OF inv j AddMessage_keeps(1)])
  let ?n = "AddMessage s m' (nodes c j)" and ?A = "\<lambda>v. acked (nodes c v)"
  assume nw: "no_wraps V c" and old: "match_inv ?A (nodes c j)"
  have w: "wired V route c" "vote_inv (nodes c i)" using c i nw by (simp_all add: cluster_inv_def elections_ok_def)
  then have s: "s = i" using m i by (auto simp: vote_inv_def signed_def wired_def)
  have ids: "my_id (nodes c j) = j" "set (map_keys (channels (nodes c j))) = V" using w(1) j by (simp_all add: wired_def)
  have sent: "sent ?n = sent (nodes c j)" by (simp add: AddMessage_def split: Message.split)
  have acc: "GetCurrentTerm ?n = GetCurrentTerm (nodes c j)" "my_id ?n = my_id (nodes c j)"
    "channels ?n = channels (nodes c j)" "matches ?n = matches (nodes c j)"
    by (simp_all add: AddMessage_def node_simps matches_def split: Message.split)
  have same: "resp_ok ?A ?n = resp_ok ?A (nodes c j)" "match_ok ?A ?n = match_ok ?A (nodes c j)"
    by (simp_all add: fun_eq_iff resp_ok_def match_ok_def ack_of_def acc same_sent[OF sent])
  have "resp_ok ?A (nodes c j) x" if x: "x \<in> set (incoming_append_entries_responses ?n)" for x
  proof (cases "x \<in> set (incoming_append_entries_responses (nodes c j))")
    case True
    then show ?thesis using old by (simp add: match_inv_def)
  next
    case False
    then obtain r where r: "m' = AEResp r" "x = (s, r)" using x by (cases m') (auto simp: AddMessage_def)
    then have "m = AEResp r" using core by (auto simp: core_of_def split: Message.splits)
    then have "acks_of r \<subseteq> acked (nodes c i)" using m by (auto simp: acked_def)
    then show ?thesis using r(2) s i ids by (auto simp: resp_ok_def ack_of_def)
  qed
  then show "match_inv ?A ?n" using old unfolding match_inv_def acc same by blast
qed

context cluster_transport
begin

lemma match_step:
  assumes inv: "matches_inv V c" and c: "cluster_inv V route c" and e: "event_node e \<in> V"
    and fit: "sent_fit fits V c" and step: "cluster_step tr route e c = Inr c'"
  shows "matches_inv V c'"
proof (cases e)
  case (CTick i k)
  then obtain n where n: "Tick k (nodes c i) = Inr n" "c' = set_node i n c"
    using step by (auto simp: bind_res_def split: sum.splits)
  then have run: "tick_times (unat k) (nodes c i) = Inr n" by (simp add: Tick_def)
  have "history_grows (nodes c i) n" using history_tick_times[of "nodes c i" "unat k"] run by simp
  moreover have "match_inv A n" if "match_inv A (nodes c i)" for A
    using match_tick_times[OF that, of "unat k"] run by simp
  ultimately show ?thesis unfolding n(2) using e CTick by (intro match_set_node[OF inv]) simp_all
next
  case (CDeliver i k g)
  let ?d = "c\<lparr>delivered := (i, k) # delivered c\<rparr>"
  have i: "i \<in> V" using e CDeliver by simp
  have "matches_inv V (set_node j (AddMessage s' m' (nodes c j)) ?d)"
    if "k < length (sent (nodes c i))" "sent (nodes c i) ! k = (ch, s, m)" "route a = Some j"
      "tr g s m = Some (s', m')" for ch s m s' m' a j
  proof -
    have mem: "(ch, s, m) \<in> set (sent (nodes c i))" using that(1,2) by (metis nth_mem)
    have j: "j \<in> V" using c that(3) by (auto simp: cluster_inv_def wired_def)
    have "fits s m" using fit i mem by (auto simp: sent_fit_def)
    then have "s' = s" "core_of m' = core_of m" using channel[of s m g] that(4) by auto
    then show ?thesis using match_arrive[of V ?d route i j ch s m m'] inv c i j mem by simp
  qed
  then show ?thesis
    using inv step CDeliver
    by (auto simp: Let_def split: if_splits prod.splits IMessageSender.splits option.splits)
next
  case (CCommand i x)
  then show ?thesis
    using inv e step by (auto intro!: match_carried simp: carries_def history_grows_def ident_def matches_def
        AddCommand_def Let_def node_simps)
next
  case (CQuery i f k)
  then show ?thesis
    using inv e step by (auto intro!: match_carried simp: carries_def history_grows_def ident_def matches_def
        GetPersistentCommands_def Let_def node_simps)
qed

lemma match_run:
  assumes "matches_inv V c" and "cluster_inv V route c" and "\<forall>e\<in>set es. event_node e \<in> V"
    and "sent_fit fits V c'" and "fold_res (cluster_step tr route) es c = Inr c'"
  shows "matches_inv V c'"
  using assms
proof (induction es arbitrary: c)
  case (Cons e es)
  obtain d where d: "cluster_step tr route e c = Inr d"
    and rest: "fold_res (cluster_step tr route) es d = Inr c'"
    using Cons.prems(5) by (auto simp: bind_res_def split: sum.splits)
  have "cluster_grows c c'" using grows_run[of c tr route "e # es"] Cons.prems(5) by simp
  then have fit: "sent_fit fits V c" using Cons.prems(4) by (rule grows_guards(2))
  have e: "event_node e \<in> V" using Cons.prems(3) by simp
  show ?case
    using Cons.IH[OF match_step[OF Cons.prems(1,2) e fit d] inv_step[OF Cons.prems(2) e fit d] _ Cons.prems(4) rest]
      Cons.prems(3) by simp
qed simp

end

section \<open>The commit step\<close>

lemma acked_down:
  assumes "(t, k) \<in> acked n" and "k' \<le> k"
  shows "(t, k') \<in> acked n"
proof -
  obtain r where r: "(t, k) \<in> acks_of r" "r \<in> {r. \<exists>ch s. (ch, s, AEResp r) \<in> set (sent n)}"
    using assms(1) unfolding acked_def by blast
  have "(t, k') \<in> acks_of r" using r(1) assms(2) by (auto simp: acks_of_def intro: order_trans)
  then show ?thesis using r(2) unfolding acked_def by blast
qed

text \<open>Some member had acknowledged the index in an earlier term.\<close>

definition stale_ack :: "NodeId set \<Rightarrow> Cluster \<Rightarrow> Term \<Rightarrow> nat \<Rightarrow> bool" where
  "stale_ack V c t k \<longleftrightarrow> (\<exists>v\<in>V. \<exists>u<t. (u, k) \<in> acked (nodes c v))"

lemma reached_acked:
  assumes inv: "matches_inv V c" and nw: "no_wraps V c" and w: "wired V route c" and i: "i \<in> V"
    and ok: "leader_ok (nodes c i)" and k: "0 < k" "k < 2 ^ 64" and r: "reached (nodes c i) k"
  shows "majority_acked V c (GetCurrentTerm (nodes c i)) k \<or> stale_ack V c (GetCurrentTerm (nodes c i)) k"
proof -
  let ?n = "nodes c i"
  obtain ls where ls: "leader_state ?n = Some ls"
    "count_matched (of_nat k) (match_index ls) * 2 \<ge> total_nodes ?n + 1"
    using r by (auto simp: reached_def split: option.splits)
  let ?F = "filter (\<lambda>(v, u). of_nat k \<le> u) (match_index ls)"
  let ?Q = "fst ` set ?F"
  have V: "finite V" "card V < 2 ^ 62" "set (map_keys (channels ?n)) = V" "total_nodes ?n = of_nat (card V)"
    "my_id ?n = i" using w i by (simp_all add: wired_def)
  have m: "match_inv (\<lambda>v. acked (nodes c v)) ?n" using inv nw i by (simp add: matches_inv_def)
  have "distinct (map fst (match_index ls))" using ok ls(1) map_ok_distinct[of "match_index ls"] by (simp add: leader_ok_def map_keys_def)
  then have "distinct (map fst ?F)" by (rule distinct_map_filter)
  then have "card ?Q = length ?F" by (metis distinct_card length_map set_map)
  then have "(of_nat (card ?Q) :: u64) * 2 \<ge> of_nat (card V) + 1"
    using ls(2) V(4) by (simp add: count_matched_def)
  moreover have at: "match_ok (\<lambda>v. acked (nodes c v)) ?n x" if "x \<in> set ?F" for x
    using m ls(1) that by (auto simp: match_inv_def matches_def)
  then have "?Q \<subseteq> V" using V(3) by (fastforce simp: match_ok_def)
  ultimately have Q: "majority V ?Q" using quorum_half[OF V(1,2)] by (simp add: majority_def)
  have acks: "\<exists>t \<le> GetCurrentTerm ?n. (t, k) \<in> acked (nodes c v)" if v: "v \<in> ?Q" for v
  proof -
    obtain u where u: "(v, u) \<in> set ?F" "of_nat k \<le> u" using v by auto
    then have "k \<le> unat u" using k(2) by (simp add: word_le_nat_alt unat_of_nat_small)
    moreover have "u \<noteq> 0" using calculation k(1) by auto
    then obtain t where "t \<le> GetCurrentTerm ?n" "(t, unat u) \<in> acked (nodes c v)"
      using at[OF u(1)] nw i V(5) by (auto simp: match_ok_def no_wraps_def ack_of_def split: if_splits)
    ultimately show ?thesis using acked_down by blast
  qed
  have own: "(GetCurrentTerm ?n, k) \<in> acked (nodes c v)" if fresh: "v \<in> ?Q" "\<not> stale_ack V c (GetCurrentTerm ?n) k" for v
  proof -
    obtain t where t: "t \<le> GetCurrentTerm ?n" "(t, k) \<in> acked (nodes c v)" using acks[OF fresh(1)] by blast
    have "v \<in> V" using Q fresh(1) unfolding majority_def by blast
    then have "\<not> t < GetCurrentTerm ?n" using fresh(2) t(2) unfolding stale_ack_def by blast
    then have "t = GetCurrentTerm ?n" using t(1) by (metis order_le_less)
    then show ?thesis using t(2) by simp
  qed
  show ?thesis
  proof (cases "stale_ack V c (GetCurrentTerm ?n) k")
    case False
    then show ?thesis using Q own unfolding majority_acked_def by blast
  qed simp
qed

lemma commit_reached:
  assumes "CommitIfPossible n = Inr n'" and "GetCommitIndex n' \<noteq> GetCommitIndex n" and "log_ok (GetLog n)"
  shows "unat (GetCommitIndex n') < length (GetLog n) \<and> reached n (unat (GetCommitIndex n'))"
proof -
  let ?is = "[unat (GetCommitIndex n + 1)..<Suc (unat (GetLastLogIndex n))]"
  obtain x where x: "fold_res (commit_candidate n) ?is None = Inr x"
    using assms(1) unfolding CommitIfPossible_def Let_def by (auto simp: bind_res_eq_Inr simp del: upt_Suc)
  have ls: "leader_state n \<noteq> None"
  proof
    assume "leader_state n = None"
    then have "?is = []" using x by (cases ?is) (auto simp: commit_candidate_def simp del: upt_Suc)
    then have "n' = n" using assms(1) by (simp add: CommitIfPossible_def)
    then show False using assms(2) by simp
  qed
  note search = commit_search_value[OF ls, of ?is None]
  have ne: "filter (reached n) ?is \<noteq> []"
  proof
    assume "filter (reached n) ?is = []"
    then have "n' = n" using assms(1) search by (simp add: CommitIfPossible_def del: upt_Suc)
    then show False using assms(2) by simp
  qed
  define i where "i = last (filter (reached n) ?is)"
  have "i \<in> set (filter (reached n) ?is)" using last_in_set[OF ne] by (simp only: i_def)
  then have i: "i < Suc (unat (GetLastLogIndex n))" "reached n i" by (simp_all del: upt_Suc)
  then have len: "i < length (GetLog n)" using GetLastLogIndex_nat[OF assms(3)] assms(3) by (auto simp: log_ok_def)
  have found: "fold_res (commit_candidate n) ?is None = Inr (Some (of_nat i))" using search ne by (simp only: if_False i_def)
  obtain m where "n' = set_commit_index (of_nat i) m"
    using assms(1) unfolding CommitIfPossible_def Let_def found bind_res_simps option.case
    by (auto simp: bind_res_eq_Inr simp del: upt_Suc)
  then have "GetCommitIndex n' = of_nat i" by (simp add: node_simps)
  moreover have "i < 2 ^ 64" using len assms(3) by (simp add: log_ok_def max_log_size_def)
  ultimately have "unat (GetCommitIndex n') = i" by (simp add: unat_of_nat_small)
  then show ?thesis using i(2) len by simp
qed

end
