(* ===== verification/Process.thy ===== *)
theory Process
  imports TickSafe Streams
begin

text \<open>
  The \<open>main\<close> functions: start of a worker process (\<open>hw2/src/worker/worker.cpp\<close>: flags, channels to the
  peers, the consensus node) with its loop over standard input, and the command-line client
  (\<open>hw2/src/client/cli.cpp\<close>). The rest of \<open>main\<close> of the worker, with its servers and
  threads, is in \<open>WorkerMain\<close>.
  The loop over the peers counts ports on 16 bits and need not end, so it is a partial function: \<open>None\<close>
  is a start that never gets past it.
\<close>

section \<open>Addresses\<close>

text \<open>\<open>host + ":" + std::to_string(port)\<close>\<close>

definition address :: "string \<Rightarrow> nat \<Rightarrow> string" where
  "address host port = host @ '':'' @ decimal_digits port"

section \<open>Start of a worker\<close>

text \<open>
  \<open>for (uint16_t other_port = min_port; other_port <= max_port; ++other_port)\<close>; the address of a
  peer uses \<open>other_port + 10\<close>, an \<open>int\<close>.
\<close>

partial_function (option) peer_loop ::
    "string \<Rightarrow> u16 \<Rightarrow> u16 \<Rightarrow> u16 \<Rightarrow> (NodeId, IMessageSender) std_map
     \<Rightarrow> (NodeId, IMessageSender) std_map option" where
  "peer_loop host port max_port other m =
     (if other \<le> max_port then
        peer_loop host port max_port (other + 1)
          (if port = other then m
           else map_insert (ucast other)
                  (OtherNodesMessageSender (address host (unat other + 10))) m)
      else Some m)"

text \<open>The checks of the flags, in order; each failure prints a message and exits with 1.\<close>

definition check_flags :: "u16 \<Rightarrow> u16 \<Rightarrow> u16 \<Rightarrow> string option" where
  "check_flags port min_port max_port =
     (if port = 0 \<or> max_port = 0 \<or> min_port = 0 then Some ''port is not set''
      else if \<not> (min_port \<le> port \<and> port \<le> max_port) then
        Some ''condition !(min_port <= port && port <= max_port) is not satisfied''
      else
        let nodes_count = int (unat max_port) - int (unat min_port) + 1 in
        if \<not> (nodes_count = 1 \<or> nodes_count = 3 \<or> nodes_count = 5) then
          Some (''Unexpected number of nodes ('' @ decimal_digits (nat nodes_count) @ '')'')
        else None)"

text \<open>
  \<open>main\<close> up to the servers: \<open>Inl\<close> is the message of an early exit. \<open>rnd\<close> are the draws of the engine
  seeded with the port, \<open>clk\<close> the readings of the steady clock.
\<close>

definition start_worker ::
    "string \<Rightarrow> u16 \<Rightarrow> u16 \<Rightarrow> u16 \<Rightarrow> (nat \<Rightarrow> int) \<Rightarrow> (nat \<Rightarrow> int) \<Rightarrow> (string + Node) option" where
  "start_worker host port min_port max_port rnd clk =
     (case check_flags port min_port max_port of
        Some e \<Rightarrow> Some (Inl e)
      | None \<Rightarrow>
          (case peer_loop host port max_port min_port [] of
             None \<Rightarrow> None
           | Some chans \<Rightarrow>
               Some (Inr (make_Node (ucast port) chans (make_UniformTimer 7000 15000 rnd clk)))))"

text \<open>
  The loop over standard input: the words that \<open>std::cin >> command\<close> reads. \<open>None\<close> is a loop that does
  not end: at the end of the input every further \<open>>>\<close> fails and leaves \<open>command\<close> empty.
\<close>

datatype MainAction = Dump | ShutdownCommunication | ShutdownKv | StopConsensus

fun input_loop :: "string list \<Rightarrow> MainAction list option" where
  "input_loop [] = None"
| "input_loop (w # ws) =
     (if w = ''dump'' then map_option (Cons Dump) (input_loop ws)
      else if w = ''stop'' then Some [ShutdownCommunication, ShutdownKv, StopConsensus]
      else input_loop ws)"

section \<open>The client\<close>

datatype ClientRequest =
    ReadRequest string
  | WriteRequest string string

text \<open>\<open>Inl\<close> is the message of an exit with 1; otherwise one request goes to the address.\<close>

definition client_main ::
    "string \<Rightarrow> u16 \<Rightarrow> string \<Rightarrow> string \<Rightarrow> string \<Rightarrow> string + string \<times> ClientRequest" where
  "client_main host port key v operation =
     (if port = 0 then Inl ''port is not set''
      else
        let addr = address host (unat port) in
        if operation = ''read'' then
          (if key = [] then Inl ''Key is not set'' else Inr (addr, ReadRequest key))
        else if operation = ''write'' then
          (if key = [] then Inl ''Key is not set''
           else if v = [] then Inl ''Value is not set''
           else Inr (addr, WriteRequest key v))
        else Inl (''Unknown operation: '' @ operation))"

section \<open>The loop over the peers\<close>

text \<open>The peers of ports \<open>[a..<b]\<close>, added to \<open>m\<close>.\<close>

definition add_peers :: "string \<Rightarrow> u16 \<Rightarrow> nat list \<Rightarrow> (NodeId, IMessageSender) std_map
    \<Rightarrow> (NodeId, IMessageSender) std_map" where
  "add_peers host port ps m = fold (\<lambda>p m. if unat port = p then m
     else map_insert (of_nat p) (OtherNodesMessageSender (address host (p + 10))) m) ps m"

lemma peer_loop_value:
  assumes "unat max_port < 2 ^ 16 - 1" and "unat other \<le> Suc (unat max_port)"
  shows "peer_loop host port max_port other m =
    Some (add_peers host port [unat other..<Suc (unat max_port)] m)"
  using assms
proof (induction "Suc (unat max_port) - unat other" arbitrary: other m)
  case 0
  then have "\<not> other \<le> max_port" by (simp add: word_le_nat_alt)
  then show ?case using 0 by (subst peer_loop.simps) (simp add: add_peers_def)
next
  case (Suc d)
  then have le: "other \<le> max_port" by (simp add: word_le_nat_alt)
  then have next1: "unat (other + 1) = Suc (unat other)"
    using Suc.prems by (simp add: unat_word_ariths word_le_nat_alt)
  have "[unat other..<Suc (unat max_port)] = unat other # [Suc (unat other)..<Suc (unat max_port)]"
    using le by (simp add: upt_conv_Cons word_le_nat_alt)
  moreover have "(ucast other :: u64) = of_nat (unat other)"
    by (simp add: of_nat_unat)
  moreover have "(port = other) = (unat port = unat other)" by (simp add: word_unat_eq_iff)
  ultimately show ?case
    using Suc.hyps(1)[of "other + 1"] Suc.hyps(2) Suc.prems le next1
    by (subst peer_loop.simps) (simp add: add_peers_def)
qed

text \<open>With the largest port the condition of the loop is always true.\<close>

lemma peer_loop_diverges: "peer_loop host port (- 1) other m = None"
proof -
  have "max_port \<noteq> - 1" if "peer_loop host port max_port other m = Some y" for max_port y
    using that
  proof (induction rule: peer_loop.raw_induct[rotated, consumes 1])
    case (1 f host port max_port other m y)
    then show ?case by (auto split: if_splits)
  qed
  then show ?thesis by fastforce
qed

lemma port_inj: "p < 2 ^ 16 \<Longrightarrow> q < 2 ^ 16 \<Longrightarrow> (of_nat p :: u64) = of_nat q \<longleftrightarrow> p = q"
proof -
  assume "p < 2 ^ 16" "q < 2 ^ 16"
  then have "p < 2 ^ 64" "q < 2 ^ 64" by simp_all
  then show ?thesis by (metis unat_of_nat_small)
qed

lemma add_peers_find:
  assumes "\<forall>p\<in>set ps. p < 2 ^ 16" and "q < 2 ^ 16"
  shows "map_find (add_peers host port ps m) (of_nat q) =
    (if q \<in> set ps \<and> unat port \<noteq> q then Some (OtherNodesMessageSender (address host (q + 10)))
     else map_find m (of_nat q))"
  using assms
proof (induction ps arbitrary: m)
  case Nil
  then show ?case by (simp add: add_peers_def)
next
  case (Cons p ps)
  have "(of_nat q :: u64) = of_nat p \<longleftrightarrow> q = p"
    using Cons.prems by (intro port_inj) simp_all
  then show ?case using Cons.IH Cons.prems by (auto simp: add_peers_def)
qed

lemma add_peers_keys: "set (map_keys (add_peers host port ps m)) =
  set (map_keys m) \<union> of_nat ` {p\<in>set ps. unat port \<noteq> p}"
  by (induction ps arbitrary: m) (auto simp: add_peers_def map_keys_insert)

lemma add_peers_ok: "map_ok m \<Longrightarrow> map_ok (add_peers host port ps m)"
  by (induction ps arbitrary: m) (auto simp: add_peers_def)

lemma map_ok_length: "map_ok m \<Longrightarrow> length m = card (set (map_keys m))"
  using distinct_card[OF map_ok_distinct, of m] by (simp only: map_keys_def length_map)

lemma nat_count: "int b - int a + 1 \<in> {1, 3, 5} \<Longrightarrow> Suc b - a \<in> {1, 3, 5 :: nat}"
  by auto

section \<open>The started node\<close>

definition worker_node ::
    "string \<Rightarrow> u16 \<Rightarrow> u16 \<Rightarrow> u16 \<Rightarrow> (nat \<Rightarrow> int) \<Rightarrow> (nat \<Rightarrow> int) \<Rightarrow> Node" where
  "worker_node host port min_port max_port rnd clk =
     make_Node (ucast port) (add_peers host port [unat min_port..<Suc (unat max_port)] [])
       (make_UniformTimer 7000 15000 rnd clk)"

lemma flags_ok:
  assumes "check_flags port min_port max_port = None"
  shows "unat min_port \<le> unat port" "unat port \<le> unat max_port"
    "Suc (unat max_port) - unat min_port \<in> {1, 3, 5}"
proof -
  have conv: "uint w = int (unat w)" for w :: u16 by simp
  show "unat min_port \<le> unat port" "unat port \<le> unat max_port"
    using assms by (auto simp: check_flags_def Let_def word_le_nat_alt split: if_splits)
  have "uint max_port - uint min_port + 1 \<in> {1, 3, 5}"
    using assms by (auto simp: check_flags_def Let_def split: if_splits)
  then show "Suc (unat max_port) - unat min_port \<in> {1, 3, 5}"
    unfolding conv by (rule nat_count)
qed

lemma start_worker_value:
  assumes "check_flags port min_port max_port = None" and "unat max_port < 2 ^ 16 - 1"
  shows "start_worker host port min_port max_port rnd clk =
    Some (Inr (worker_node host port min_port max_port rnd clk))"
  using assms flags_ok[OF assms(1)] peer_loop_value[of max_port min_port host port "[]"]
  by (simp add: start_worker_def worker_node_def)

lemma ports_inj: "b < 2 ^ 16 \<Longrightarrow> inj_on (of_nat :: nat \<Rightarrow> u64) {a..b}"
  by (intro inj_onI) (simp add: port_inj)

lemma worker_node_fine:
  "fine (ident (worker_node host port min_port max_port rnd clk))
     (worker_node host port min_port max_port rnd clk)"
  unfolding worker_node_def by (rule fine_make_Node[OF add_peers_ok]) simp

lemma worker_node_acc:
  "my_id (worker_node host port min_port max_port rnd clk) = ucast port"
  "sent (worker_node host port min_port max_port rnd clk) = []"
  "role (worker_node host port min_port max_port rnd clk) = kFollower"
  "candidate_state (worker_node host port min_port max_port rnd clk) = None"
  "incoming_request_vote_requests (worker_node host port min_port max_port rnd clk) = []"
  "incoming_request_vote_responses (worker_node host port min_port max_port rnd clk) = []"
  "channels (worker_node host port min_port max_port rnd clk) =
     map_insert (of_nat (unat port)) (TrivialMessageSender (ucast port))
       (add_peers host port [unat min_port..<Suc (unat max_port)] [])"
  "total_nodes (worker_node host port min_port max_port rnd clk) =
     of_nat (length (channels (worker_node host port min_port max_port rnd clk)))"
  by (simp_all add: worker_node_def make_Node_def Let_def of_nat_unat)

lemma worker_node_members:
  assumes "unat min_port \<le> unat port" "unat port \<le> unat max_port"
  shows "set (map_keys (channels (worker_node host port min_port max_port rnd clk))) =
      of_nat ` {unat min_port..unat max_port}"
    and "total_nodes (worker_node host port min_port max_port rnd clk) =
      of_nat (Suc (unat max_port) - unat min_port)"
proof -
  let ?n = "worker_node host port min_port max_port rnd clk"
  have "insert (unat port) {p \<in> set [unat min_port..<Suc (unat max_port)]. unat port \<noteq> p} =
      {unat min_port..unat max_port}" using assms by auto
  then show keys: "set (map_keys (channels ?n)) = of_nat ` {unat min_port..unat max_port}"
    unfolding worker_node_acc(7) map_keys_insert add_peers_keys image_insert[symmetric] map_keys_Nil
      list.set(1) Un_empty_left by (rule arg_cong)
  have "map_ok (channels ?n)" unfolding worker_node_acc(7) by (simp add: add_peers_ok)
  moreover have "inj_on (of_nat :: nat \<Rightarrow> u64) {unat min_port..unat max_port}"
    using unsigned_less[of max_port] by (intro ports_inj) simp
  ultimately have "length (channels ?n) = Suc (unat max_port) - unat min_port"
    using map_ok_length[of "channels ?n"] keys by (simp add: card_image)
  then show "total_nodes ?n = of_nat (Suc (unat max_port) - unat min_port)"
    unfolding worker_node_acc(8) by (rule arg_cong)
qed

lemma worker_node_channels:
  assumes "q \<in> {unat min_port..unat max_port}"
  shows "map_find (channels (worker_node host port min_port max_port rnd clk)) (of_nat q) =
    Some (if q = unat port then TrivialMessageSender (ucast port)
          else OtherNodesMessageSender (address host (q + 10)))"
proof (cases "q = unat port")
  case True
  then show ?thesis by (simp add: worker_node_acc(7) del: of_nat_unat)
next
  case False
  have bound: "unat max_port < 2 ^ 16" "unat port < 2 ^ 16"
    using unsigned_less[of max_port] unsigned_less[of port] by simp_all
  then have small: "q < 2 ^ 16" "\<forall>p\<in>set [unat min_port..<Suc (unat max_port)]. p < 2 ^ 16"
    using assms by auto
  have "(of_nat q :: u64) \<noteq> of_nat (unat port)"
    using False port_inj[OF small(1) bound(2)] by simp
  then show ?thesis
    using assms False add_peers_find[OF small(2,1), of host port "[]"]
    by (simp add: worker_node_acc(7) less_Suc_eq_le del: of_nat_unat upt_Suc)
qed

section \<open>Properties\<close>

text \<open>C29: A worker whose flags pass the checks, with a largest port below 65535, starts: the loop over
  the peers ends, the node's id is its port, its members are exactly the ports of the range (one, three
  or five of them), the channel of every other port leads to that port plus 10, and the node satisfies
  the invariants of a fresh node.\<close>

theorem worker_starts:
  assumes "check_flags port min_port max_port = None" and "unat max_port < 2 ^ 16 - 1"
  shows "\<exists>n. start_worker host port min_port max_port rnd clk = Some (Inr n) \<and> fine (ident n) n \<and>
    my_id n = ucast port \<and> set (map_keys (channels n)) = of_nat ` {unat min_port..unat max_port} \<and>
    total_nodes n = of_nat (Suc (unat max_port) - unat min_port) \<and> total_nodes n \<in> {1, 3, 5} \<and>
    (\<forall>q\<in>{unat min_port..unat max_port}. q \<noteq> unat port \<longrightarrow>
       map_find (channels n) (of_nat q) = Some (OtherNodesMessageSender (address host (q + 10))))"
proof -
  let ?n = "worker_node host port min_port max_port rnd clk"
  note f = flags_ok[OF assms(1)]
  have "total_nodes ?n \<in> {1, 3, 5}" using f(3) unfolding worker_node_members(2)[OF f(1,2)] by auto
  then show ?thesis
    using worker_node_members[OF f(1,2)] worker_node_channels[of _ min_port max_port host port]
    by (intro exI[of _ ?n])
       (simp add: start_worker_value[OF assms] worker_node_fine worker_node_acc(1))
qed

lemma worker_starts_witness:
  "\<exists>n. start_worker ''h'' 5001 5000 5002 (\<lambda>_. 7000) int = Some (Inr n) \<and> total_nodes n = 3 \<and>
    map_find (channels n) 5000 = Some (OtherNodesMessageSender (address ''h'' 5010))"
proof -
  have "check_flags 5001 5000 5002 = None" by (simp add: check_flags_def Let_def)
  from worker_starts[OF this, of "''h''" "\<lambda>_. 7000" int] obtain n where
    "start_worker ''h'' 5001 5000 5002 (\<lambda>_. 7000) int = Some (Inr n)" "total_nodes n = 3"
    "\<forall>q\<in>{5000..5002}. q \<noteq> 5001 \<longrightarrow>
       map_find (channels n) (of_nat q) = Some (OtherNodesMessageSender (address ''h'' (q + 10)))"
    by auto
  then show ?thesis by (intro exI[of _ n]) (auto dest: bspec[of _ _ 5000])
qed

text \<open>C31: With the largest port 65535 a worker whose flags pass the checks never starts: the 16-bit loop
  variable wraps around and the loop over the peers does not end.\<close>

theorem worker_start_hangs:
  assumes "check_flags port min_port 65535 = None"
  shows "start_worker host port min_port 65535 rnd clk = None"
proof -
  have top: "(65535 :: u16) = - 1" by simp
  have "peer_loop host port 65535 min_port [] = None"
    unfolding top by (rule peer_loop_diverges)
  then show ?thesis using assms by (simp add: start_worker_def)
qed

lemma worker_start_hangs_witness:
  "start_worker ''h'' 65534 65533 65535 (\<lambda>_. 7000) int = None"
  by (rule worker_start_hangs) (simp add: check_flags_def Let_def)

end
