(* ===== verification/Deployment.thy ===== *)
theory Deployment
  imports Acknowledged Process
begin

text \<open>
  The deployed cluster: the workers that \<open>start_worker\<close> creates for a range of ports, connected by the
  gRPC transport of \<open>Codec\<close>. A worker listens for its peers on its port plus 10; the addresses are
  strings, so the route of a message is found by the address.
\<close>

section \<open>Addresses\<close>

lemma address_inj: "address host p = address host q \<longleftrightarrow> p = q"
  by (auto simp: address_def) (metis digits_value_decimal)

text \<open>The member that listens at an address, in the range of ports of the cluster.\<close>

definition worker_route :: "string \<Rightarrow> u16 \<Rightarrow> u16 \<Rightarrow> string \<Rightarrow> NodeId option" where
  "worker_route host min_port max_port a =
     map_option of_nat (List.find (\<lambda>p. a = address host (p + 10))
       [unat min_port..<Suc (unat max_port)])"

definition worker_ids :: "u16 \<Rightarrow> u16 \<Rightarrow> NodeId set" where
  "worker_ids min_port max_port = of_nat ` {unat min_port..unat max_port}"

text \<open>The cluster right after every worker has started.\<close>

definition started :: "string \<Rightarrow> u16 \<Rightarrow> u16 \<Rightarrow> Cluster \<Rightarrow> bool" where
  "started host min_port max_port c \<longleftrightarrow> delivered c = [] \<and>
     (\<forall>port. min_port \<le> port \<and> port \<le> max_port \<longrightarrow> (\<exists>rnd clk.
        start_worker host port min_port max_port rnd clk = Some (Inr (nodes c (ucast port)))))"

lemma worker_route_port:
  assumes "p \<in> {unat min_port..unat max_port}"
  shows "worker_route host min_port max_port (address host (p + 10)) = Some (of_nat p)"
proof -
  have "List.find (\<lambda>q. p = q) xs = Some p" if "p \<in> set xs" for xs
    using that by (induction xs) auto
  then show ?thesis using assms by (simp add: worker_route_def address_inj del: upt_Suc)
qed

lemma worker_route_member:
  "worker_route host min_port max_port a = Some j \<Longrightarrow> j \<in> worker_ids min_port max_port"
  by (auto simp: worker_route_def worker_ids_def find_Some_iff simp del: upt_Suc)

lemma check_flags_range:
  assumes "check_flags p min_port max_port = None" and "min_port \<le> q" "q \<le> max_port"
  shows "check_flags q min_port max_port = None"
proof -
  have "min_port \<noteq> 0" using assms(1) by (auto simp: check_flags_def split: if_splits)
  then have "q \<noteq> 0" using assms(2) by auto
  then show ?thesis using assms by (auto simp: check_flags_def Let_def split: if_splits)
qed

lemma started_node:
  assumes "started host min_port max_port c" and "check_flags p min_port max_port = None"
    and "unat max_port < 2 ^ 16 - 1" and "i \<in> worker_ids min_port max_port"
  shows "\<exists>port rnd clk. i = of_nat (unat port) \<and> unat port \<in> {unat min_port..unat max_port} \<and>
    nodes c i = worker_node host port min_port max_port rnd clk"
proof -
  obtain q where q: "i = of_nat q" "q \<in> {unat min_port..unat max_port}"
    using assms(4) by (auto simp: worker_ids_def)
  define port where "port = (of_nat q :: u16)"
  have "q < 2 ^ 16" using q(2) assms(3) by simp
  then have port: "unat port = q" by (simp add: port_def unat_of_nat take_bit_nat_eq_self)
  then have range: "min_port \<le> port" "port \<le> max_port" using q(2) by (simp_all add: word_le_nat_alt)
  have "ucast port = i" using q(1) port by (metis of_nat_unat)
  then obtain rnd clk where
    "start_worker host port min_port max_port rnd clk = Some (Inr (nodes c i))"
    using assms(1) range by (auto simp: started_def)
  then have "nodes c i = worker_node host port min_port max_port rnd clk"
    using start_worker_value[OF check_flags_range[OF assms(2) range] assms(3)] by simp
  then show ?thesis using q port by blast
qed

lemma started_inv:
  assumes "started host min_port max_port c" and flags: "check_flags p min_port max_port = None"
    and "unat max_port < 2 ^ 16 - 1"
  shows "cluster_inv (worker_ids min_port max_port) (worker_route host min_port max_port) c"
proof -
  let ?V = "worker_ids min_port max_port" and ?route = "worker_route host min_port max_port"
  have card: "card ?V = Suc (unat max_port) - unat min_port"
    using assms(3) ports_inj[of "unat max_port" "unat min_port"]
    by (simp add: worker_ids_def card_image)
  have member: "my_id n = i \<and> set (map_keys (channels n)) = ?V \<and> total_nodes n = of_nat (card ?V) \<and>
      (\<forall>j\<in>?V. \<exists>ch. map_find (channels n) j = Some ch \<and> channel_to ?route i j ch) \<and>
      fine (ident n) n \<and> vote_inv n \<and> tally_inv G n"
    if i: "i \<in> ?V" and n: "n = nodes c i" for i n G
  proof -
    obtain port rnd clk where port: "i = of_nat (unat port)" "unat port \<in> {unat min_port..unat max_port}"
      and node: "n = worker_node host port min_port max_port rnd clk"
      using started_node[OF assms(1,2,3) i] n by blast
    have range: "unat min_port \<le> unat port" "unat port \<le> unat max_port" using port(2) by simp_all
    have "\<exists>ch. map_find (channels n) (of_nat q) = Some ch \<and> channel_to ?route i (of_nat q) ch"
      if q: "q \<in> {unat min_port..unat max_port}" for q
    proof -
      have "(i = of_nat q) = (q = unat port)"
        using port_inj[of "unat port" q] port q assms(3) by auto
      then show ?thesis
        using worker_node_channels[OF q, of host port rnd clk] worker_route_port[OF q, of host] port(1)
        by (auto simp: node channel_to_def)
    qed
    moreover have "vote_inv n" "tally_inv G n"
      by (simp_all add: node vote_inv_def tally_inv_def granted_def led_def worker_node_acc(1-6))
    ultimately show ?thesis
      using worker_node_members[OF range, of host rnd clk] port(1) card
      by (auto simp: node worker_ids_def worker_node_acc(1) worker_node_fine)
  qed
  have small: "card ?V < 2 ^ 62" using card flags_ok(3)[OF flags] by auto
  have fin: "finite ?V" by (simp add: worker_ids_def)
  have parts: "my_id (nodes c i) = i" "set (map_keys (channels (nodes c i))) = ?V"
    "total_nodes (nodes c i) = of_nat (card ?V)"
    "\<forall>j\<in>?V. \<exists>ch. map_find (channels (nodes c i)) j = Some ch \<and> channel_to ?route i j ch"
    "fine (ident (nodes c i)) (nodes c i)" "vote_inv (nodes c i)" "tally_inv G (nodes c i)"
    if "i \<in> ?V" for i G
    using member[OF that refl, of G] by simp_all
  have "wired ?V ?route c"
    using parts(1-4) fin small worker_route_member by (simp add: wired_def)
  then show ?thesis
    using parts(5-7) by (simp add: cluster_inv_def members_ok_def elections_ok_def)
qed

section \<open>Elections\<close>

interpretation grpc: cluster_transport grpc_deliver fits_proto
  by unfold_locales (rule grpc_channel.delivered)

text \<open>Runs of a started cluster.\<close>

definition run_workers :: "string \<Rightarrow> u16 \<Rightarrow> u16 \<Rightarrow> ClusterEvent list \<Rightarrow> Cluster \<Rightarrow> Cluster result" where
  "run_workers host min_port max_port es c =
     fold_res (cluster_step grpc_deliver (worker_route host min_port max_port)) es c"

lemma started_run_inv:
  assumes "started host min_port max_port c0" and "check_flags p min_port max_port = None"
    and "unat max_port < 2 ^ 16 - 1"
    and "\<forall>e\<in>set es. event_node e \<in> worker_ids min_port max_port"
    and "run_workers host min_port max_port es c0 = Inr c"
    and "sent_fit fits_proto (worker_ids min_port max_port) c"
  shows "cluster_inv (worker_ids min_port max_port) (worker_route host min_port max_port) c"
  using grpc.inv_run[OF started_inv[OF assms(1-3)] assms(4,6)] assms(5) by (simp add: run_workers_def)

lemma cluster_step_fault:
  assumes "cluster_inv V route c" and "no_wraps V c" and "event_node e \<in> V"
    and "cluster_step tr route e c = Inl f"
  shows "f \<in> {LengthError, BadIndex}"
proof (cases e)
  case (CTick i k)
  have "fine (ident (nodes c i)) (nodes c i)"
    using assms(1-3) CTick by (simp add: cluster_inv_def members_ok_def)
  then have "post {LengthError, BadIndex} (\<lambda>n'. fine (ident n') n') (node_step (NTick k) (nodes c i))"
    by (rule fine_step) simp
  moreover have "Tick k (nodes c i) = Inl f"
    using assms(4) CTick by (auto simp: bind_res_def split: sum.splits)
  ultimately show ?thesis by simp
next
  case (CDeliver i k g)
  then show ?thesis
    using assms(4) by (simp add: Let_def split: if_splits prod.splits IMessageSender.splits option.splits)
qed (use assms(4) in simp_all)

end
