(* ===== verification/ClusterTheorems.thy ===== *)
theory ClusterTheorems
  imports Deployment NodeEval
begin

text \<open>
  The properties of a cluster of workers that exchange gRPC messages: safety of every run, the voting
  discipline, elections, log matching. The concrete runs are those of three workers on the ports 5000, 5001 and 5002,
  evaluated in the kernel.
\<close>

section \<open>A cluster of three workers\<close>

text \<open>
  The clock of a worker stands still for a number of readings and then jumps past the first deadline:
  the timers of the three workers expire once, after \<open>a\<close>, \<open>b\<close> and \<open>c\<close> readings.
\<close>

definition sample_clock :: "nat \<Rightarrow> nat \<Rightarrow> nat \<Rightarrow> NodeId \<Rightarrow> nat \<Rightarrow> int" where
  "sample_clock a b c i k =
     (if k < (if i = 5000 then a else if i = 5001 then b else c) then 0 else 10000)"

definition fresh_workers :: "nat \<Rightarrow> nat \<Rightarrow> nat \<Rightarrow> Cluster" where
  "fresh_workers a b c = \<lparr>nodes = (\<lambda>i. worker_node ''h'' (ucast i) 5000 5002 (\<lambda>_. 7000)
     (sample_clock a b c i)), delivered = []\<rparr>"

text \<open>5000 and 5002 time out at their first tick, 5001 much later.\<close>

definition sample_cluster :: Cluster where
  "sample_cluster = fresh_workers 1 100 1"

lemma worker_nodes_value:
  "worker_node ''h'' 5000 5000 5002 rnd clk = make_Node 5000
     [(5001, OtherNodesMessageSender (address ''h'' 5011)), (5002, OtherNodesMessageSender (address ''h'' 5012))]
     (make_UniformTimer 7000 15000 rnd clk)"
  "worker_node ''h'' 5001 5000 5002 rnd clk = make_Node 5001
     [(5000, OtherNodesMessageSender (address ''h'' 5010)), (5002, OtherNodesMessageSender (address ''h'' 5012))]
     (make_UniformTimer 7000 15000 rnd clk)"
  "worker_node ''h'' 5002 5000 5002 rnd clk = make_Node 5002
     [(5000, OtherNodesMessageSender (address ''h'' 5010)), (5001, OtherNodesMessageSender (address ''h'' 5011))]
     (make_UniformTimer 7000 15000 rnd clk)"
  by (simp_all add: worker_node_def add_peers_def upt_conv_Cons)

lemma route_value:
  "worker_route ''h'' 5000 5002 (address ''h'' 5010) = Some 5000"
  "worker_route ''h'' 5000 5002 (address ''h'' 5011) = Some 5001"
  "worker_route ''h'' 5000 5002 (address ''h'' 5012) = Some 5002"
  by (simp_all add: worker_route_def address_inj upt_conv_Cons)

lemmas cluster_eval = run_workers_def sample_cluster_def fresh_workers_def sample_clock_def set_node_def
  worker_nodes_value route_value grpc_deliver_def send_task_def encode_message_def encode_item_def
  SendAnnotatedMessage_def decode_message_def decode_item_def

lemma sample_ids: "worker_ids 5000 5002 = {5000, 5001, 5002}"
proof -
  have "{5000..5002} = {5000, 5001, 5002 :: nat}" by auto
  then show ?thesis by (simp add: worker_ids_def)
qed

lemma sample_flags: "5000 \<le> port \<Longrightarrow> port \<le> 5002 \<Longrightarrow> check_flags port 5000 5002 = None"
  by (auto simp: check_flags_def Let_def)

lemma clocks_started:
  "started ''h'' 5000 5002 \<lparr>nodes = (\<lambda>i. worker_node ''h'' (ucast i) 5000 5002 (\<lambda>_. 7000) (clk i)), delivered = []\<rparr>"
proof -
  have "ucast (ucast p :: u64) = p" for p :: u16
    by (simp add: ucast_up_ucast_id is_up_def source_size_def target_size_def word_size)
  then show ?thesis using start_worker_value[OF sample_flags] by (auto simp: started_def)
qed

lemma fresh_started: "started ''h'' 5000 5002 (fresh_workers a b c)"
  unfolding fresh_workers_def by (rule clocks_started)

lemma sample_started: "started ''h'' 5000 5002 sample_cluster"
  unfolding sample_cluster_def by (rule fresh_started)

text \<open>Histories as executable tests.\<close>

lemma history_eval:
  "t \<in> led n \<longleftrightarrow> list_ex (\<lambda>(ch, s, m). case m of AEReq r \<Rightarrow> ae_leader_term r = t | _ \<Rightarrow> False) (sent n)"
  "no_wrap n \<longleftrightarrow> list_all (\<lambda>(ch, s, m). case m of RVReq r \<Rightarrow> candidate_term r \<noteq> 0 | _ \<Rightarrow> True) (sent n)"
  "(t, c) \<in> granted n \<longleftrightarrow> list_ex (\<lambda>(ch, s, m). case m of
     RVResp r \<Rightarrow> ch = c \<and> vote_granted r \<and> rvr_candidate_term r = t | _ \<Rightarrow> False) (sent n)"
  by (fastforce simp: led_def no_wrap_def granted_def list_ex_iff list_all_iff split: Message.splits)+

text \<open>
  Worker 5000 is elected by 5001, and votes as the leader for 5002, which is elected in the same term.
\<close>

definition double_vote_run :: "ClusterEvent list" where
  "double_vote_run = [CTick 5000 2, CDeliver 5000 1 0, CTick 5001 1, CDeliver 5001 0 0, CTick 5000 1,
     CTick 5002 2, CDeliver 5002 0 0, CTick 5000 1, CDeliver 5000 8 0, CTick 5002 1]"

lemma double_vote_run_value:
  "\<exists>c. run_workers ''h'' 5000 5002 double_vote_run sample_cluster = Inr c \<and>
    (\<forall>i\<in>{5000, 5001, 5002}. no_wrap (nodes c i)) \<and> 1 \<in> led (nodes c 5000) \<and> 1 \<in> led (nodes c 5002) \<and>
    (1, TrivialMessageSender 5000) \<in> granted (nodes c 5000) \<and>
    (1, OtherNodesMessageSender (address ''h'' 5012)) \<in> granted (nodes c 5000) \<and>
    sent_fit fits_proto {5000, 5001, 5002} c \<and> role (nodes c 5000) = kLeader \<and>
    role (nodes c 5002) = kLeader \<and> GetCurrentTerm (nodes c 5000) = 1 \<and> GetCurrentTerm (nodes c 5002) = 1"
  by (simp add: double_vote_run_def cluster_eval eval_defs tick_times_one history_eval
      sent_fit_def fits_proto_def fits_int32_def cong: eval_cong)

text \<open>Both leaders take a command and replicate it to 5001 and to themselves.\<close>

definition divergence_run :: "ClusterEvent list" where
  "divergence_run = [CCommand 5000 ''x'', CCommand 5002 ''y'', CTick 5000 2, CTick 5002 2,
     CDeliver 5000 18 0, CTick 5001 1, CDeliver 5002 13 0, CTick 5001 1,
     CDeliver 5001 1 0, CDeliver 5001 2 0, CTick 5000 3, CTick 5002 3]"

text \<open>Only 5000 is elected; it takes a command, and its first copy reaches 5001 with a commit index of
  \<open>g\<close> in the memory of the receiver.\<close>

definition election_run :: "ClusterEvent list" where
  "election_run = [CTick 5000 2, CDeliver 5000 1 0, CTick 5001 1, CDeliver 5001 0 0, CTick 5000 1]"

definition garbage_run :: "u64 \<Rightarrow> ClusterEvent list" where
  "garbage_run g = [CCommand 5000 ''x'', CTick 5000 2, CDeliver 5000 13 g, CTick 5001 1]"

text \<open>
  5001 holds the entry of the deposed leader 5000 and is elected by 5002, which has an empty log; two of
  its heartbeats are under way to 5002 before the first refusal is back.
\<close>

definition overtaking_run :: "ClusterEvent list" where
  "overtaking_run = election_run @ garbage_run 0 @ [CTick 5001 2, CDeliver 5001 4 0, CTick 5002 1,
     CDeliver 5002 0 0, CTick 5001 2, CDeliver 5001 8 0, CDeliver 5001 12 0, CTick 5002 1,
     CDeliver 5002 1 0, CDeliver 5002 2 0]"

section \<open>Properties\<close>

text \<open>C12: Runs of the deployed cluster. As long as the numbers in the messages fit the proto fields and
  no term wraps around, every worker keeps its invariants whatever messages are lost, delayed or
  reordered, and a further event can only end in one of two faults: a log beyond the size of a vector
  or an index outside the log.\<close>

theorem workers_run_safe:
  assumes "started host min_port max_port c0" and "check_flags p min_port max_port = None"
    and "unat max_port < 2 ^ 16 - 1"
    and "\<forall>e\<in>set es. event_node e \<in> worker_ids min_port max_port"
    and "run_workers host min_port max_port es c0 = Inr c"
    and "sent_fit fits_proto (worker_ids min_port max_port) c"
    and "no_wraps (worker_ids min_port max_port) c" and "i \<in> worker_ids min_port max_port"
  shows "fine (ident (nodes c i)) (nodes c i) \<and> my_id (nodes c i) = i \<and>
    set (map_keys (channels (nodes c i))) = worker_ids min_port max_port \<and>
    (event_node e = i \<longrightarrow> cluster_step grpc_deliver (worker_route host min_port max_port) e c = Inl f \<longrightarrow>
       f = LengthError \<or> f = BadIndex)"
proof -
  note inv = started_run_inv[OF assms(1-6)]
  then have "fine (ident (nodes c i)) (nodes c i) \<and> my_id (nodes c i) = i \<and>
      set (map_keys (channels (nodes c i))) = worker_ids min_port max_port"
    using assms(7,8) by (simp add: cluster_inv_def members_ok_def wired_def)
  moreover have "f = LengthError \<or> f = BadIndex" if "event_node e = i"
    "cluster_step grpc_deliver (worker_route host min_port max_port) e c = Inl f"
    using cluster_step_fault[OF inv assms(7) _ that(2)] that(1) assms(8) by simp
  ultimately show ?thesis by blast
qed

lemma workers_run_safe_witness:
  "\<exists>c. run_workers ''h'' 5000 5002 double_vote_run sample_cluster = Inr c \<and>
     fine (ident (nodes c 5001)) (nodes c 5001)"
proof -
  obtain c where c: "run_workers ''h'' 5000 5002 double_vote_run sample_cluster = Inr c"
    "sent_fit fits_proto (worker_ids 5000 5002) c" "no_wraps (worker_ids 5000 5002) c"
    using double_vote_run_value by (auto simp: sample_ids no_wraps_def)
  have "\<forall>e\<in>set double_vote_run. event_node e \<in> worker_ids 5000 5002"
    by (simp add: double_vote_run_def sample_ids)
  from workers_run_safe[OF sample_started sample_flags[of 5000] _ this c, of 5001] show ?thesis
    using c(1) by (simp add: sample_ids)
qed

text \<open>The voting discipline. A worker gives votes to two different candidates of one term only in a
  term in which it acted as the leader.\<close>

lemma one_vote_unless_leader:
  assumes "started host min_port max_port c0" and "check_flags p min_port max_port = None"
    and "unat max_port < 2 ^ 16 - 1"
    and "\<forall>e\<in>set es. event_node e \<in> worker_ids min_port max_port"
    and "run_workers host min_port max_port es c0 = Inr c"
    and "sent_fit fits_proto (worker_ids min_port max_port) c"
    and "no_wraps (worker_ids min_port max_port) c" and "i \<in> worker_ids min_port max_port"
    and "(t, ch) \<in> granted (nodes c i)" and "(t, ch') \<in> granted (nodes c i)" and "ch \<noteq> ch'"
  shows "t \<in> led (nodes c i)"
proof -
  have "vote_inv (nodes c i)"
    using started_run_inv[OF assms(1-6)] assms(7,8) by (simp add: cluster_inv_def elections_ok_def)
  then show ?thesis using assms(9-11) unfolding vote_inv_def by blast
qed

lemma one_vote_unless_leader_witness:
  "\<exists>c. run_workers ''h'' 5000 5002 double_vote_run sample_cluster = Inr c \<and> 1 \<in> led (nodes c 5000)"
proof -
  obtain c where c: "run_workers ''h'' 5000 5002 double_vote_run sample_cluster = Inr c"
    "sent_fit fits_proto (worker_ids 5000 5002) c" "no_wraps (worker_ids 5000 5002) c"
    and votes: "(1, TrivialMessageSender 5000) \<in> granted (nodes c 5000)"
      "(1, OtherNodesMessageSender (address ''h'' 5012)) \<in> granted (nodes c 5000)"
    using double_vote_run_value by (auto simp: sample_ids no_wraps_def)
  have "\<forall>e\<in>set double_vote_run. event_node e \<in> worker_ids 5000 5002"
    by (simp add: double_vote_run_def sample_ids)
  from one_vote_unless_leader[OF sample_started sample_flags[of 5000] _ this c _ votes]
  show ?thesis using c(1) by (simp add: sample_ids)
qed

text \<open>C13: Elections. If two workers led the same term, some worker voted twice in that term, and did so
  as a leader of it: without the reset of \<open>voted_for\<close> in \<open>BecomeLeader\<close> there is at most one leader
  per term.\<close>

theorem two_leaders_need_double_vote:
  assumes "started host min_port max_port c0" and "check_flags p min_port max_port = None"
    and "unat max_port < 2 ^ 16 - 1"
    and "\<forall>e\<in>set es. event_node e \<in> worker_ids min_port max_port"
    and "run_workers host min_port max_port es c0 = Inr c"
    and "sent_fit fits_proto (worker_ids min_port max_port) c"
    and "no_wraps (worker_ids min_port max_port) c"
    and "i \<in> worker_ids min_port max_port" and "j \<in> worker_ids min_port max_port" and "i \<noteq> j"
    and "t \<in> led (nodes c i)" and "t \<in> led (nodes c j)"
  shows "\<exists>v\<in>worker_ids min_port max_port. t \<in> led (nodes c v) \<and>
    (\<exists>ch ch'. ch \<noteq> ch' \<and> (t, ch) \<in> granted (nodes c v) \<and> (t, ch') \<in> granted (nodes c v))"
proof (rule elections_two_leaders[OF _ _ assms(8-12)])
  note inv = started_run_inv[OF assms(1-6)]
  show "wired (worker_ids min_port max_port) (worker_route host min_port max_port) c"
    using inv by (simp add: cluster_inv_def)
  show "elections_ok (worker_ids min_port max_port) (worker_route host min_port max_port) c"
    using inv assms(7) by (simp add: cluster_inv_def)
qed

lemma two_leaders_need_double_vote_witness:
  "\<exists>c. run_workers ''h'' 5000 5002 double_vote_run sample_cluster = Inr c \<and>
     1 \<in> led (nodes c 5000) \<and> 1 \<in> led (nodes c 5002) \<and> (\<exists>v\<in>{5000, 5001, 5002}. \<exists>ch ch'.
       ch \<noteq> ch' \<and> (1, ch) \<in> granted (nodes c v) \<and> (1, ch') \<in> granted (nodes c v))"
proof -
  obtain c where c: "run_workers ''h'' 5000 5002 double_vote_run sample_cluster = Inr c"
    "sent_fit fits_proto (worker_ids 5000 5002) c" "no_wraps (worker_ids 5000 5002) c"
    and led: "1 \<in> led (nodes c 5000)" "1 \<in> led (nodes c 5002)"
    using double_vote_run_value by (auto simp: sample_ids no_wraps_def)
  have "\<forall>e\<in>set double_vote_run. event_node e \<in> worker_ids 5000 5002"
    by (simp add: double_vote_run_def sample_ids)
  from two_leaders_need_double_vote[OF sample_started sample_flags[of 5000] _ this c _ _ _ led]
  have "\<exists>v\<in>worker_ids 5000 5002. \<exists>ch ch'. ch \<noteq> ch' \<and> (1, ch) \<in> granted (nodes c v) \<and>
      (1, ch') \<in> granted (nodes c v)" by (auto simp: sample_ids)
  then show ?thesis using c(1) led unfolding sample_ids by blast
qed

text \<open>C20: Two leaders of one term lose an acknowledged command. From the start of three workers there is
  a run in which workers 5000 and 5002 both lead term 1 and both commit an entry at index 1, of the same
  term but with different commands.\<close>

theorem leaders_commit_differently:
  "started ''h'' 5000 5002 sample_cluster \<and> (\<exists>c.
    run_workers ''h'' 5000 5002 (double_vote_run @ divergence_run) sample_cluster = Inr c \<and>
    role (nodes c 5000) = kLeader \<and> role (nodes c 5002) = kLeader \<and>
    GetCurrentTerm (nodes c 5000) = GetCurrentTerm (nodes c 5002) \<and>
    GetCommitIndex (nodes c 5000) = 1 \<and> GetCommitIndex (nodes c 5002) = 1 \<and>
    GetLog (nodes c 5000) ! 1 = LogItem ''x'' 1 \<and> GetLog (nodes c 5002) ! 1 = LogItem ''y'' 1)"
  by (rule conjI[OF sample_started]) (simp add: double_vote_run_def divergence_run_def cluster_eval eval_defs
      tick_times_one cong: eval_cong)

text \<open>C21: A follower commits what its leader has not. The commit index that a worker decodes is
  whatever its memory held; here it is 1, and worker 5001 commits the entry that only the leader 5000
  and 5001 itself have seen, before the leader knows of the copy.\<close>

theorem follower_commits_uncommitted:
  "started ''h'' 5000 5002 sample_cluster \<and> (\<exists>c.
    run_workers ''h'' 5000 5002 (election_run @ garbage_run 1) sample_cluster = Inr c \<and>
    role (nodes c 5000) = kLeader \<and> GetCommitIndex (nodes c 5000) = 0 \<and>
    role (nodes c 5001) = kFollower \<and> GetCommitIndex (nodes c 5001) = 1)"
  by (rule conjI[OF sample_started]) (simp add: election_run_def garbage_run_def cluster_eval eval_defs
      tick_times_one cong: eval_cong)

text \<open>C22: Two refusals end a leader. When a follower refuses two heartbeats of a leader that were under
  way at the same time, \<open>next_index\<close> of that follower goes down twice, to 0, and the next tick of the
  leader reads its log at index -1. The messages are those of a started cluster; none is lost or
  repeated.\<close>

theorem two_refusals_crash_leader:
  "started ''h'' 5000 5002 (fresh_workers 1 6 100) \<and> (\<exists>c.
    run_workers ''h'' 5000 5002 overtaking_run (fresh_workers 1 6 100) = Inr c \<and>
    role (nodes c 5001) = kLeader \<and> length (GetLog (nodes c 5001)) = 2 \<and>
    cluster_step grpc_deliver (worker_route ''h'' 5000 5002) (CTick 5001 1) c = Inl BadIndex)"
  by (rule conjI[OF fresh_started]) (simp add: overtaking_run_def election_run_def garbage_run_def
      cluster_eval eval_defs tick_times_one cong: eval_cong)

section \<open>Log matching\<close>

text \<open>Some member gave two votes in one term.\<close>

definition double_vote :: "NodeId set \<Rightarrow> Cluster \<Rightarrow> bool" where
  "double_vote V c \<longleftrightarrow> (\<exists>v\<in>V. \<exists>t ch ch'. ch \<noteq> ch' \<and>
     (t, ch) \<in> granted (nodes c v) \<and> (t, ch') \<in> granted (nodes c v))"

lemma worker_ids_finite: "finite (worker_ids min_port max_port)"
  by (simp add: worker_ids_def)

lemma started_lone:
  assumes "started host min_port max_port c0" and "check_flags p min_port max_port = None"
    and "unat max_port < 2 ^ 16 - 1"
    and "\<forall>e\<in>set es. event_node e \<in> worker_ids min_port max_port"
    and "run_workers host min_port max_port es c0 = Inr c"
    and "sent_fit fits_proto (worker_ids min_port max_port) c"
    and "no_wraps (worker_ids min_port max_port) c" and "\<not> double_vote (worker_ids min_port max_port) c"
  shows "lone_leaders (worker_ids min_port max_port) c"
proof -
  have "wired (worker_ids min_port max_port) (worker_route host min_port max_port) c"
    "elections_ok (worker_ids min_port max_port) (worker_route host min_port max_port) c"
    using started_run_inv[OF assms(1-6)] assms(7) by (simp_all add: cluster_inv_def)
  then show ?thesis
    using elections_two_leaders assms(8) unfolding lone_leaders_def double_vote_def by blast
qed

lemma started_logs:
  assumes "started host min_port max_port c0" and "check_flags p min_port max_port = None"
    and "unat max_port < 2 ^ 16 - 1"
    and "\<forall>e\<in>set es. event_node e \<in> worker_ids min_port max_port"
    and "run_workers host min_port max_port es c0 = Inr c"
    and "sent_fit fits_proto (worker_ids min_port max_port) c"
    and "no_wraps (worker_ids min_port max_port) c" and "\<not> double_vote (worker_ids min_port max_port) c"
  shows "\<exists>L. raft_inv (worker_ids min_port max_port) (dest_of (worker_route host min_port max_port)) L (views c)"
proof -
  let ?V = "worker_ids min_port max_port"
  let ?route = "worker_route host min_port max_port"
  have inv: "cluster_inv ?V ?route c0" by (rule started_inv[OF assms(1-3)])
  then have ids: "my_id (nodes c0 i) = i" if "i \<in> ?V" for i using that by (simp add: cluster_inv_def wired_def)
  have "GetLog (nodes c0 i) = initial_log \<and> role (nodes c0 i) = kFollower \<and> sent (nodes c0 i) = [] \<and>
      incoming_append_entries_requests (nodes c0 i) = [] \<and>
      incoming_request_vote_requests (nodes c0 i) = [] \<and> my_id (nodes c0 i) = i" if "i \<in> ?V" for i
    using started_node[OF assms(1-3) that] ids[OF that]
    by (auto simp: worker_node_def make_Node_def Let_def node_simps)
  then have start: "raft_inv ?V (dest_of ?route) ((\<lambda>t. [])(0 := initial_log)) (views c0)" by (rule raft_initial)
  have steps: "views_steps ?V (dest_of ?route) (views c0) (views c)"
    using grpc.sim_run[OF inv assms(4,6) _ assms(7)] assms(5) by (simp add: run_workers_def)
  show ?thesis using raft_steps[OF steps start lone_views[OF started_lone[OF assms]]] by blast
qed

text \<open>C14: Log matching. In every run of the started workers, two logs that hold an entry of the same
  term at the same index are equal up to there, unless some worker voted twice in a term.\<close>

theorem logs_match:
  assumes "started host min_port max_port c0" and "check_flags p min_port max_port = None"
    and "unat max_port < 2 ^ 16 - 1"
    and "\<forall>e\<in>set es. event_node e \<in> worker_ids min_port max_port"
    and "run_workers host min_port max_port es c0 = Inr c"
    and "sent_fit fits_proto (worker_ids min_port max_port) c"
    and "no_wraps (worker_ids min_port max_port) c"
    and "i \<in> worker_ids min_port max_port" and "j \<in> worker_ids min_port max_port"
    and "k < length (GetLog (nodes c i))" and "k < length (GetLog (nodes c j))"
    and "leader_term (GetLog (nodes c i) ! k) = leader_term (GetLog (nodes c j) ! k)"
  shows "take (Suc k) (GetLog (nodes c i)) = take (Suc k) (GetLog (nodes c j)) \<or>
    double_vote (worker_ids min_port max_port) c"
  using started_logs[OF assms(1-7)] cluster_match[OF _ assms(8-12)] by blast

text \<open>The run of one election and one command, without a double vote.\<close>

lemma election_run_value:
  "\<exists>c. run_workers ''h'' 5000 5002 (election_run @ garbage_run 0) sample_cluster = Inr c \<and>
    (\<forall>i\<in>{5000, 5001, 5002}. no_wrap (nodes c i)) \<and> sent_fit fits_proto {5000, 5001, 5002} c \<and>
    (\<forall>v\<in>{5000, 5001, 5002}. \<forall>t ch ch'. (t, ch) \<in> granted (nodes c v) \<longrightarrow>
       (t, ch') \<in> granted (nodes c v) \<longrightarrow> ch = ch') \<and>
    role (nodes c 5000) = kLeader \<and> GetCurrentTerm (nodes c 5000) = 1 \<and>
    GetLog (nodes c 5000) = initial_log @ [LogItem ''x'' 1] \<and>
    GetLog (nodes c 5001) = initial_log @ [LogItem ''x'' 1]"
  by (simp add: election_run_def garbage_run_def cluster_eval eval_defs tick_times_one history_eval
      sent_fit_def fits_proto_def fits_int32_def cong: eval_cong)

lemma election_run_single:
  "\<exists>c. run_workers ''h'' 5000 5002 (election_run @ garbage_run 0) sample_cluster = Inr c \<and>
    no_wraps (worker_ids 5000 5002) c \<and> sent_fit fits_proto (worker_ids 5000 5002) c \<and>
    \<not> double_vote (worker_ids 5000 5002) c \<and>
    role (nodes c 5000) = kLeader \<and> GetCurrentTerm (nodes c 5000) = 1 \<and>
    GetLog (nodes c 5000) = initial_log @ [LogItem ''x'' 1] \<and>
    GetLog (nodes c 5001) = initial_log @ [LogItem ''x'' 1]"
proof -
  obtain c where c: "run_workers ''h'' 5000 5002 (election_run @ garbage_run 0) sample_cluster = Inr c"
    "\<forall>i\<in>worker_ids 5000 5002. no_wrap (nodes c i)" "sent_fit fits_proto (worker_ids 5000 5002) c"
    "\<forall>v\<in>worker_ids 5000 5002. \<forall>t ch ch'. (t, ch) \<in> granted (nodes c v) \<longrightarrow>
       (t, ch') \<in> granted (nodes c v) \<longrightarrow> ch = ch'"
    "role (nodes c 5000) = kLeader" "GetCurrentTerm (nodes c 5000) = 1"
    "GetLog (nodes c 5000) = initial_log @ [LogItem ''x'' 1]"
    "GetLog (nodes c 5001) = initial_log @ [LogItem ''x'' 1]"
    using election_run_value unfolding sample_ids by blast
  have "\<not> double_vote (worker_ids 5000 5002) c" using c(4) unfolding double_vote_def by blast
  then show ?thesis using c by (intro exI[of _ c]) (simp add: no_wraps_def)
qed

lemma election_run_events: "\<forall>e\<in>set (election_run @ garbage_run g). event_node e \<in> worker_ids 5000 5002"
  by (simp add: election_run_def garbage_run_def sample_ids)

lemma logs_match_witness:
  "\<exists>c. run_workers ''h'' 5000 5002 (election_run @ garbage_run 0) sample_cluster = Inr c \<and>
    length (GetLog (nodes c 5001)) = 2 \<and>
    take 2 (GetLog (nodes c 5000)) = take 2 (GetLog (nodes c 5001))"
proof -
  obtain c where c: "run_workers ''h'' 5000 5002 (election_run @ garbage_run 0) sample_cluster = Inr c"
    "sent_fit fits_proto (worker_ids 5000 5002) c" "no_wraps (worker_ids 5000 5002) c"
    and once: "\<not> double_vote (worker_ids 5000 5002) c"
    and logs: "GetLog (nodes c 5000) = initial_log @ [LogItem ''x'' 1]"
      "GetLog (nodes c 5001) = initial_log @ [LogItem ''x'' 1]"
    using election_run_single by blast
  from logs_match[OF sample_started sample_flags[of 5000] _ election_run_events c, of 5000 5001 1]
  show ?thesis
    using c(1) once by (auto simp: sample_ids logs initial_log_def numeral_2_eq_2)
qed

text \<open>The leader holds its term. Whatever entry of its term a leader's peers have in their logs, the
  leader has at the same index, with everything before it, unless some worker voted twice in a term.\<close>

lemma leader_holds_its_term:
  assumes "started host min_port max_port c0" and "check_flags p min_port max_port = None"
    and "unat max_port < 2 ^ 16 - 1"
    and "\<forall>e\<in>set es. event_node e \<in> worker_ids min_port max_port"
    and "run_workers host min_port max_port es c0 = Inr c"
    and "sent_fit fits_proto (worker_ids min_port max_port) c"
    and "no_wraps (worker_ids min_port max_port) c"
    and "i \<in> worker_ids min_port max_port" and "j \<in> worker_ids min_port max_port"
    and "role (nodes c i) = kLeader" and "k < length (GetLog (nodes c j))"
    and "leader_term (GetLog (nodes c j) ! k) = GetCurrentTerm (nodes c i)"
  shows "k < length (GetLog (nodes c i)) \<and>
      take (Suc k) (GetLog (nodes c j)) = take (Suc k) (GetLog (nodes c i)) \<or>
    double_vote (worker_ids min_port max_port) c"
  using started_logs[OF assms(1-7)] cluster_leader[OF _ assms(8-12)] by blast

lemma leader_holds_its_term_witness:
  "\<exists>c. run_workers ''h'' 5000 5002 (election_run @ garbage_run 0) sample_cluster = Inr c \<and>
    role (nodes c 5000) = kLeader \<and> leader_term (GetLog (nodes c 5001) ! 1) = 1 \<and>
    1 < length (GetLog (nodes c 5000))"
proof -
  obtain c where c: "run_workers ''h'' 5000 5002 (election_run @ garbage_run 0) sample_cluster = Inr c"
    "sent_fit fits_proto (worker_ids 5000 5002) c" "no_wraps (worker_ids 5000 5002) c"
    and once: "\<not> double_vote (worker_ids 5000 5002) c"
    and lead: "role (nodes c 5000) = kLeader" "GetCurrentTerm (nodes c 5000) = 1"
    and logs: "GetLog (nodes c 5001) = initial_log @ [LogItem ''x'' 1]"
    using election_run_single by blast
  have item: "1 < length (GetLog (nodes c 5001))" "leader_term (GetLog (nodes c 5001) ! 1) = GetCurrentTerm (nodes c 5000)"
    using lead(2) by (simp_all add: logs initial_log_def)
  have "5000 \<in> worker_ids 5000 5002" "5001 \<in> worker_ids 5000 5002" by (simp_all add: sample_ids)
  from leader_holds_its_term[OF sample_started sample_flags[of 5000] _ election_run_events c this lead(1) item]
  have "1 < length (GetLog (nodes c 5000))" using once by simp
  then show ?thesis using c(1) lead item by (intro exI[of _ c]) simp
qed

section \<open>Acknowledged entries\<close>

text \<open>C15: Leader completeness. An entry that a majority acknowledged in the term of the entry is in the
  log of every leader of this or a later term, with everything before it, unless some worker voted twice
  in a term.\<close>

theorem leaders_have_acknowledged:
  assumes "started host min_port max_port c0" and "check_flags p min_port max_port = None"
    and "unat max_port < 2 ^ 16 - 1"
    and "\<forall>e\<in>set es. event_node e \<in> worker_ids min_port max_port"
    and "run_workers host min_port max_port es c0 = Inr c"
    and "sent_fit fits_proto (worker_ids min_port max_port) c"
    and "no_wraps (worker_ids min_port max_port) c"
    and "majority_acked (worker_ids min_port max_port) c t k"
    and "i \<in> worker_ids min_port max_port" and "role (nodes c i) = kLeader" and "t \<le> GetCurrentTerm (nodes c i)"
    and "j \<in> worker_ids min_port max_port" and "k < length (GetLog (nodes c j))"
    and "leader_term (GetLog (nodes c j) ! k) = t"
  shows "k < length (GetLog (nodes c i)) \<and>
      take (Suc k) (GetLog (nodes c i)) = take (Suc k) (GetLog (nodes c j)) \<or>
    double_vote (worker_ids min_port max_port) c"
  using started_logs[OF assms(1-7)] cluster_complete[OF _ worker_ids_finite assms(8-14)] by blast

text \<open>C17: What majorities acknowledged does not diverge. If majorities acknowledged the index \<open>k\<close> in
  the terms that two logs hold there, the logs are equal up to \<open>k\<close>, unless some worker voted twice in a
  term.\<close>

theorem acknowledged_agree:
  assumes "started host min_port max_port c0" and "check_flags p min_port max_port = None"
    and "unat max_port < 2 ^ 16 - 1"
    and "\<forall>e\<in>set es. event_node e \<in> worker_ids min_port max_port"
    and "run_workers host min_port max_port es c0 = Inr c"
    and "sent_fit fits_proto (worker_ids min_port max_port) c"
    and "no_wraps (worker_ids min_port max_port) c"
    and "i \<in> worker_ids min_port max_port" and "j \<in> worker_ids min_port max_port"
    and "k < length (GetLog (nodes c i))" and "k < length (GetLog (nodes c j))"
    and "majority_acked (worker_ids min_port max_port) c (leader_term (GetLog (nodes c i) ! k)) k"
    and "majority_acked (worker_ids min_port max_port) c (leader_term (GetLog (nodes c j) ! k)) k"
  shows "take (Suc k) (GetLog (nodes c i)) = take (Suc k) (GetLog (nodes c j)) \<or>
    double_vote (worker_ids min_port max_port) c"
  using started_logs[OF assms(1-7)] cluster_agree[OF _ worker_ids_finite assms(8-13)] by blast

text \<open>
  Worker 5000 is elected, its entry is acknowledged by 5001 and by itself; then 5001 is elected for term 2
  with the vote of 5002.
\<close>

definition handover_run :: "ClusterEvent list" where
  "handover_run = election_run @ garbage_run 0 @ [CTick 5000 1, CTick 5001 2, CDeliver 5001 4 0, CTick 5002 1,
     CDeliver 5002 0 0, CTick 5001 2]"

lemma acked_eval:
  "(t, k) \<in> acked n \<longleftrightarrow> list_ex (\<lambda>(ch, s, m). case m of AEResp r \<Rightarrow> success r \<and> aer_current_term r = t \<and>
     (case matched_until r of Some u \<Rightarrow> k \<le> unat u | None \<Rightarrow> False) | _ \<Rightarrow> False) (sent n)"
  by (fastforce simp: acked_def acks_of_def list_ex_iff split: Message.splits option.splits)

lemma handover_run_value:
  "\<exists>c. run_workers ''h'' 5000 5002 handover_run (fresh_workers 1 6 100) = Inr c \<and>
    (\<forall>i\<in>{5000, 5001, 5002}. no_wrap (nodes c i)) \<and> sent_fit fits_proto {5000, 5001, 5002} c \<and>
    (\<forall>v\<in>{5000, 5001, 5002}. \<forall>t ch ch'. (t, ch) \<in> granted (nodes c v) \<longrightarrow>
       (t, ch') \<in> granted (nodes c v) \<longrightarrow> ch = ch') \<and>
    (\<forall>v\<in>{5000, 5001}. (1, 1) \<in> acked (nodes c v)) \<and>
    role (nodes c 5001) = kLeader \<and> GetCurrentTerm (nodes c 5001) = 2 \<and>
    (\<forall>v\<in>{5000, 5001}. GetLog (nodes c v) = initial_log @ [LogItem ''x'' 1])"
  by (simp add: handover_run_def election_run_def garbage_run_def cluster_eval eval_defs tick_times_one history_eval
      acked_eval sent_fit_def fits_proto_def fits_int32_def cong: eval_cong)

lemma handover_run_single:
  "\<exists>c. run_workers ''h'' 5000 5002 handover_run (fresh_workers 1 6 100) = Inr c \<and>
    sent_fit fits_proto (worker_ids 5000 5002) c \<and> no_wraps (worker_ids 5000 5002) c \<and>
    \<not> double_vote (worker_ids 5000 5002) c \<and> majority_acked (worker_ids 5000 5002) c 1 1 \<and>
    role (nodes c 5001) = kLeader \<and> GetCurrentTerm (nodes c 5001) = 2 \<and>
    (\<forall>v\<in>{5000, 5001}. GetLog (nodes c v) = initial_log @ [LogItem ''x'' 1])"
proof -
  have "majority_acked {5000, 5001, 5002} c 1 1" if "\<forall>v\<in>{5000, 5001}. (1, 1) \<in> acked (nodes c v)" for c
    unfolding majority_acked_def using that by (intro exI[of _ "{5000, 5001}"]) (simp add: majority_def)
  then show ?thesis
    using handover_run_value unfolding sample_ids no_wraps_def double_vote_def by blast
qed

lemma handover_run_events: "\<forall>e\<in>set handover_run. event_node e \<in> worker_ids 5000 5002"
  by (simp add: handover_run_def election_run_def garbage_run_def sample_ids)

lemma leaders_have_acknowledged_witness:
  "\<exists>c. run_workers ''h'' 5000 5002 handover_run (fresh_workers 1 6 100) = Inr c \<and>
    role (nodes c 5001) = kLeader \<and> GetCurrentTerm (nodes c 5001) = 2 \<and>
    take 2 (GetLog (nodes c 5001)) = take 2 (GetLog (nodes c 5000)) \<and>
    GetLog (nodes c 5000) = initial_log @ [LogItem ''x'' 1]"
proof -
  obtain c where c: "run_workers ''h'' 5000 5002 handover_run (fresh_workers 1 6 100) = Inr c"
    "sent_fit fits_proto (worker_ids 5000 5002) c" "no_wraps (worker_ids 5000 5002) c"
    and once: "\<not> double_vote (worker_ids 5000 5002) c" and acks: "majority_acked (worker_ids 5000 5002) c 1 1"
    and lead: "role (nodes c 5001) = kLeader" "GetCurrentTerm (nodes c 5001) = 2"
    and log: "GetLog (nodes c 5000) = initial_log @ [LogItem ''x'' 1]"
    using handover_run_single by blast
  have hyps: "1 \<le> GetCurrentTerm (nodes c 5001)" "1 < length (GetLog (nodes c 5000))"
    "leader_term (GetLog (nodes c 5000) ! 1) = 1" using lead(2) by (simp_all add: log initial_log_def)
  have ids: "5000 \<in> worker_ids 5000 5002" "5001 \<in> worker_ids 5000 5002" by (simp_all add: sample_ids)
  have "take (Suc 1) (GetLog (nodes c 5001)) = take (Suc 1) (GetLog (nodes c 5000))"
    using leaders_have_acknowledged[OF fresh_started sample_flags[of 5000] _ handover_run_events c acks ids(2)
        lead(1) hyps(1) ids(1) hyps(2,3)] once by simp
  then show ?thesis using c(1) lead log by (intro exI[of _ c]) (simp add: numeral_2_eq_2)
qed

lemma acknowledged_agree_witness:
  "\<exists>c. run_workers ''h'' 5000 5002 handover_run (fresh_workers 1 6 100) = Inr c \<and>
    majority_acked (worker_ids 5000 5002) c 1 1 \<and>
    take 2 (GetLog (nodes c 5001)) = take 2 (GetLog (nodes c 5000))"
proof -
  obtain c where c: "run_workers ''h'' 5000 5002 handover_run (fresh_workers 1 6 100) = Inr c"
    "sent_fit fits_proto (worker_ids 5000 5002) c" "no_wraps (worker_ids 5000 5002) c"
    and once: "\<not> double_vote (worker_ids 5000 5002) c" and acks: "majority_acked (worker_ids 5000 5002) c 1 1"
    and logs: "\<forall>v\<in>{5000, 5001}. GetLog (nodes c v) = initial_log @ [LogItem ''x'' 1]"
    using handover_run_single by blast
  have at: "1 < length (GetLog (nodes c v)) \<and> leader_term (GetLog (nodes c v) ! 1) = 1" if "v \<in> {5000, 5001}" for v
    using logs that by (auto simp: initial_log_def)
  have "take (Suc 1) (GetLog (nodes c 5001)) = take (Suc 1) (GetLog (nodes c 5000))"
    using acknowledged_agree[OF fresh_started sample_flags[of 5000] _ handover_run_events c, of 5001 5000 1]
      once acks at by (simp add: sample_ids)
  then show ?thesis using c(1) acks by (intro exI[of _ c]) (simp add: numeral_2_eq_2)
qed

text \<open>C19: Replication as nine steps. A tick of a node is a sequence of the steps of \<open>log_step\<close>: its
  log changes only by appending new commands as a leader or by merging a received request whose previous
  entry it holds, it leads only with the votes of a majority, it sends only requests cut from its log as a
  leader, acknowledges only what its log holds, and votes only for logs that are not behind its own.\<close>

theorem tick_is_log_steps:
  assumes "Tick k n = Inr n'" and "elect G n" and "no_wrap n'"
  shows "log_steps (voted G n) (log_view nothing n) (log_view nothing n')"
  using lives_tick_times[of G n "unat k"] assms by (simp add: Tick_def lives_def elect_def)

lemma tick_is_log_steps_witness:
  "\<exists>n'. Tick 2 (nodes sample_cluster 5000) = Inr n' \<and> role n' = kCandidate \<and>
    log_steps (voted {} (nodes sample_cluster 5000)) (log_view nothing (nodes sample_cluster 5000)) (log_view nothing n')"
proof -
  have "\<exists>n'. Tick 2 (nodes sample_cluster 5000) = Inr n' \<and> role n' = kCandidate \<and> no_wrap n'"
    by (simp add: cluster_eval eval_defs tick_times_one history_eval cong: eval_cong)
  moreover have "elect {} (nodes sample_cluster 5000)"
    using worker_node_fine[of "''h''" 5000 5000 5002]
    by (simp add: sample_cluster_def fresh_workers_def fine_def elect_def vote_inv_def tally_inv_def
        granted_def led_def worker_node_acc(1-6))
  ultimately show ?thesis using tick_is_log_steps by blast
qed

end
