(* ===== verification/LostCommand.thy ===== *)
theory LostCommand
  imports ClusterTheorems
begin

text \<open>
  A run of three workers in which a committed command is lost although nobody votes twice. A leader of
  term 3 counts the copies of an entry of term 1 (\<open>CommitIfPossible\<close> does not ask for an entry of its own
  term), answers its client, and is replaced by a leader whose log holds an entry of term 2 in its place.
  The run is evaluated in five parts, the state after each part being a constant.
\<close>

text \<open>The clock of a worker jumps past its deadline at the given readings.\<close>

definition jumps :: "nat list \<Rightarrow> nat \<Rightarrow> int" where
  "jumps xs k = 10000 * int (length (filter (\<lambda>x. x \<le> k) xs))"

definition jump_times :: "NodeId \<Rightarrow> nat list" where
  "jump_times i = (if i = 5000 then [1, 12] else if i = 5001 then [] else [1, 4, 15])"

definition staggered_workers :: Cluster where
  "staggered_workers = \<lparr>nodes = (\<lambda>i. worker_node ''h'' (ucast i) 5000 5002 (\<lambda>_. 7000) (jumps (jump_times i))),
     delivered = []\<rparr>"

text \<open>5000 is elected for term 1 and takes a command, which it copies to nobody; 5002 times out.\<close>

definition first_part :: "ClusterEvent list" where
  "first_part = [CTick 5000 2, CDeliver 5000 1 0, CTick 5001 1, CDeliver 5001 0 0, CTick 5000 1,
     CCommand 5000 ''x'', CTick 5000 1, CTick 5002 3]"

text \<open>5002 is elected for term 2 and takes a command; 5000 hears of the term and times out.\<close>

definition second_part :: "ClusterEvent list" where
  "second_part = [CDeliver 5002 5 0, CTick 5001 1, CDeliver 5001 1 0, CTick 5002 1, CCommand 5002 ''y'',
     CTick 5002 1, CDeliver 5002 4 0, CTick 5000 3]"

text \<open>5000 is elected for term 3.\<close>

definition third_part :: "ClusterEvent list" where
  "third_part = [CDeliver 5000 14 0, CTick 5001 1, CDeliver 5001 2 0, CTick 5000 1]"

text \<open>It copies its entry of term 1 to 5001 and commits it.\<close>

definition fourth_part :: "ClusterEvent list" where
  "fourth_part = [CTick 5000 1, CDeliver 5000 18 0, CTick 5001 1, CDeliver 5001 3 0, CTick 5000 1,
     CDeliver 5000 22 0, CTick 5001 1, CDeliver 5001 4 0, CTick 5000 2]"

text \<open>5002 is elected for term 4 by 5001, whose last entry is older, and commits its entry of term 2.\<close>

definition fifth_part :: "ClusterEvent list" where
  "fifth_part = [CDeliver 5000 15 0, CTick 5002 3, CDeliver 5002 18 0, CTick 5001 1, CDeliver 5001 5 0,
     CTick 5002 2, CDeliver 5002 22 0, CTick 5001 1, CDeliver 5001 6 0, CTick 5002 1, CDeliver 5002 26 0,
     CTick 5001 1, CDeliver 5001 7 0, CTick 5002 2]"

definition lost_run :: "ClusterEvent list" where
  "lost_run = first_part @ second_part @ third_part @ fourth_part @ fifth_part"

section \<open>Evaluation\<close>

definition after_part :: "ClusterEvent list \<Rightarrow> Cluster result \<Rightarrow> Cluster result" where
  "after_part es r = bind_res r (run_workers ''h'' 5000 5002 es)"

definition after1 :: "Cluster result" where "after1 = after_part first_part (Inr staggered_workers)"
definition after2 :: "Cluster result" where "after2 = after_part second_part after1"
definition after3 :: "Cluster result" where "after3 = after_part third_part after2"
definition after4 :: "Cluster result" where "after4 = after_part fourth_part after3"
definition after5 :: "Cluster result" where "after5 = after_part fifth_part after4"

lemma after_part_append: "after_part (xs @ ys) r = after_part ys (after_part xs r)"
  by (cases r) (simp_all add: after_part_def run_workers_def[abs_def] fold_res_append)

lemma run_after5: "run_workers ''h'' 5000 5002 lost_run staggered_workers = after5"
proof -
  have "run_workers ''h'' 5000 5002 lost_run staggered_workers = after_part lost_run (Inr staggered_workers)"
    by (simp add: after_part_def)
  then show ?thesis
    by (simp add: lost_run_def after_part_append after5_def after4_def after3_def after2_def after1_def)
qed

lemmas part_eval = after_part_def first_part_def second_part_def third_part_def fourth_part_def fifth_part_def
  staggered_workers_def jumps_def jump_times_def cluster_eval eval_defs tick_times_one

declare part_eval [simp] eval_cong [cong]

lemmas after1_value = after1_def[simplified]
lemmas after2_value = after2_def[unfolded after1_value, simplified]
lemmas after3_value = after3_def[unfolded after2_value, simplified]
lemmas after4_value = after4_def[unfolded after3_value, simplified]
lemmas after5_value = after5_def[unfolded after4_value, simplified]

declare part_eval [simp del] eval_cong [cong del]

lemma lost_run_value:
  "\<exists>c. run_workers ''h'' 5000 5002 lost_run staggered_workers = Inr c \<and>
    (\<forall>v\<in>{5000, 5001, 5002}. \<forall>t ch ch'. (t, ch) \<in> granted (nodes c v) \<longrightarrow>
       (t, ch') \<in> granted (nodes c v) \<longrightarrow> ch = ch') \<and>
    role (nodes c 5000) = kLeader \<and> role (nodes c 5002) = kLeader \<and>
    GetCurrentTerm (nodes c 5000) = 3 \<and> GetCurrentTerm (nodes c 5002) = 4 \<and>
    GetCommitIndex (nodes c 5000) = 1 \<and> GetCommitIndex (nodes c 5002) = 1 \<and>
    GetLog (nodes c 5000) ! 1 = LogItem ''x'' 1 \<and> GetLog (nodes c 5002) ! 1 = LogItem ''y'' 2 \<and>
    command_results (nodes c 5000) 0 = Ready (AddCommandResult None) \<and>
    command_results (nodes c 5002) 0 = Ready (AddCommandResult None)"
  unfolding run_after5 after5_value by (simp add: history_eval part_eval cong: eval_cong)

section \<open>The property\<close>

text \<open>C18: A committed command is lost without a double vote. In a run of three started workers in which no
  worker votes twice in a term, worker 5000 as the leader of term 3 commits the entry 1 of term 1 and
  answers its client that the command is persistent; later worker 5002 leads term 4, commits another
  command as entry 1 and answers its client as well.\<close>

theorem committed_command_lost:
  "started ''h'' 5000 5002 staggered_workers \<and> (\<exists>c.
    run_workers ''h'' 5000 5002 lost_run staggered_workers = Inr c \<and>
    \<not> double_vote (worker_ids 5000 5002) c \<and>
    role (nodes c 5000) = kLeader \<and> role (nodes c 5002) = kLeader \<and>
    GetCurrentTerm (nodes c 5000) = 3 \<and> GetCurrentTerm (nodes c 5002) = 4 \<and>
    GetCommitIndex (nodes c 5000) = 1 \<and> GetCommitIndex (nodes c 5002) = 1 \<and>
    GetLog (nodes c 5000) ! 1 = LogItem ''x'' 1 \<and> GetLog (nodes c 5002) ! 1 = LogItem ''y'' 2 \<and>
    command_results (nodes c 5000) 0 = Ready (AddCommandResult None) \<and>
    command_results (nodes c 5002) 0 = Ready (AddCommandResult None))"
proof
  show "started ''h'' 5000 5002 staggered_workers"
    unfolding staggered_workers_def by (rule clocks_started)
qed (use lost_run_value in \<open>unfold double_vote_def sample_ids, blast\<close>)

end
