(* ===== verification/Durability.thy ===== *)
theory Durability
  imports ClusterTheorems
begin

text \<open>
  What a leader commits stays. The commit step of a leader counts acknowledgements; a majority of them is
  of its own term unless one is stale (\<open>HandleAppendEntriesResponse\<close> does not look at the term of a
  response). With leader completeness: an entry of its own term that a leader commits is in the log of
  every later leader, with everything before it.
\<close>

section \<open>Runs in two parts\<close>

lemma double_vote_grows:
  assumes "cluster_grows c c'" and "double_vote V c"
  shows "double_vote V c'"
proof -
  have "granted (nodes c v) \<subseteq> granted (nodes c' v)" for v
    using assms(1) history_mono(1) by (simp add: cluster_grows_def)
  then show ?thesis using assms(2) unfolding double_vote_def by blast
qed

lemma majority_acked_grows:
  assumes "cluster_grows c c'" and "majority_acked V c t k"
  shows "majority_acked V c' t k"
proof -
  have "acked (nodes c v) \<subseteq> acked (nodes c' v)" for v
    using assms(1) history_acked by (simp add: cluster_grows_def)
  then show ?thesis using assms(2) unfolding majority_acked_def by blast
qed

lemma run_workers_grows: "run_workers host min_port max_port es c = Inr c' \<Longrightarrow> cluster_grows c c'"
  using grows_run[of c grpc_deliver "worker_route host min_port max_port" es] by (simp add: run_workers_def)

lemma started_matches:
  assumes "started host min_port max_port c0" and "check_flags p min_port max_port = None"
    and "unat max_port < 2 ^ 16 - 1"
    and "\<forall>e\<in>set es. event_node e \<in> worker_ids min_port max_port"
    and "run_workers host min_port max_port es c0 = Inr c"
    and "sent_fit fits_proto (worker_ids min_port max_port) c"
  shows "matches_inv (worker_ids min_port max_port) c"
proof -
  let ?V = "worker_ids min_port max_port"
  have inv: "cluster_inv ?V (worker_route host min_port max_port) c0" by (rule started_inv[OF assms(1-3)])
  have "match_inv A (nodes c0 i)" if i: "i \<in> ?V" for A i
  proof -
    have "my_id (nodes c0 i) = i" "set (map_keys (channels (nodes c0 i))) = ?V"
      using inv i by (simp_all add: cluster_inv_def wired_def)
    moreover have "incoming_append_entries_responses (nodes c0 i) = [] \<and> leader_state (nodes c0 i) = None"
      using started_node[OF assms(1-3) i] by (auto simp: worker_node_def make_Node_def Let_def)
    ultimately show ?thesis using i by (simp add: match_inv_def matches_def)
  qed
  then have "matches_inv ?V c0" by (simp add: matches_inv_def)
  then show ?thesis
    using grpc.match_run[OF _ inv assms(4,6)] assms(5) by (simp add: run_workers_def)
qed

section \<open>The commit step\<close>

text \<open>What the commit step of a leader moves the commit index to, a majority has acknowledged.\<close>

lemma commit_acknowledged:
  assumes inv: "cluster_inv V route c" and m: "matches_inv V c" and nw: "no_wraps V c" and i: "i \<in> V"
    and commit: "CommitIfPossible (nodes c i) = Inr n" "GetCommitIndex n \<noteq> GetCommitIndex (nodes c i)"
    and k: "k = unat (GetCommitIndex n)" "0 < k"
  shows "k < length (GetLog (nodes c i))"
    "majority_acked V c (GetCurrentTerm (nodes c i)) k \<or> stale_ack V c (GetCurrentTerm (nodes c i)) k"
proof -
  have ok: "node_ok (nodes c i)" and w: "wired V route c"
    using inv nw i by (simp_all add: cluster_inv_def members_ok_def fine_def)
  then have r: "k < length (GetLog (nodes c i))" "reached (nodes c i) k"
    using commit_reached[OF commit] k(1) by (simp_all add: node_ok_def)
  then show "k < length (GetLog (nodes c i))" by simp
  have "k < 2 ^ 64" using unsigned_less[of "GetCommitIndex n"] by (simp add: k(1))
  then show "majority_acked V c (GetCurrentTerm (nodes c i)) k \<or> stale_ack V c (GetCurrentTerm (nodes c i)) k"
    using ok by (intro reached_acked[OF m nw w i _ k(2) _ r(2)]) (simp_all add: node_ok_def)
qed

text \<open>C16: Durability. If the commit step of a leader moves the commit index to an entry of its own term,
  then every leader of this or a later term, at any later point of the run, has this entry and everything
  before it, unless some worker voted twice in a term or the leader had a stale acknowledgement of the index to
  count.\<close>

theorem commits_are_kept:
  assumes "started host min_port max_port c0" and "check_flags p min_port max_port = None"
    and "unat max_port < 2 ^ 16 - 1"
    and "\<forall>e\<in>set (es @ es'). event_node e \<in> worker_ids min_port max_port"
    and "run_workers host min_port max_port es c0 = Inr c"
    and "run_workers host min_port max_port es' c = Inr c'"
    and "sent_fit fits_proto (worker_ids min_port max_port) c'"
    and "no_wraps (worker_ids min_port max_port) c'"
    and "i \<in> worker_ids min_port max_port" and "role (nodes c i) = kLeader"
    and "CommitIfPossible (nodes c i) = Inr n" and "GetCommitIndex n \<noteq> GetCommitIndex (nodes c i)"
    and "k = unat (GetCommitIndex n)" and "0 < k"
    and "leader_term (GetLog (nodes c i) ! k) = GetCurrentTerm (nodes c i)"
    and "j \<in> worker_ids min_port max_port" and "role (nodes c' j) = kLeader"
    and "GetCurrentTerm (nodes c i) \<le> GetCurrentTerm (nodes c' j)"
  shows "k < length (GetLog (nodes c' j)) \<and>
      take (Suc k) (GetLog (nodes c' j)) = take (Suc k) (GetLog (nodes c i)) \<or>
    double_vote (worker_ids min_port max_port) c' \<or>
    stale_ack (worker_ids min_port max_port) c (GetCurrentTerm (nodes c i)) k"
proof (cases "double_vote (worker_ids min_port max_port) c' \<or>
    stale_ack (worker_ids min_port max_port) c (GetCurrentTerm (nodes c i)) k")
  case False
  let ?V = "worker_ids min_port max_port" and ?route = "worker_route host min_port max_port"
  have events: "\<forall>e\<in>set es. event_node e \<in> ?V" "\<forall>e\<in>set es'. event_node e \<in> ?V" using assms(4) by auto
  have g: "cluster_grows c c'" by (rule run_workers_grows[OF assms(6)])
  note fit = grows_guards(2)[OF g assms(7)] and nw = grows_guards(1)[OF g assms(8)]
  note run = assms(1-3) events(1) assms(5) fit
  note inv = started_run_inv[OF run]
  have once: "\<not> double_vote ?V c" using False double_vote_grows[OF g] by blast
  obtain L where L: "raft_inv ?V (dest_of ?route) L (views c)"
    using started_logs[OF run nw once] by blast
  have whole: "run_workers host min_port max_port (es @ es') c0 = Inr c'"
    using assms(5,6) by (simp add: run_workers_def fold_res_append)
  have steps: "views_steps ?V (dest_of ?route) (views c) (views c')"
    using grpc.sim_run[OF inv events(2) assms(7) _ assms(8)] assms(6) by (simp add: run_workers_def)
  have "lone_leaders ?V c'"
    using started_lone[OF assms(1-4) whole assms(7,8)] False by blast
  then obtain L' where L': "extends L L'" "raft_inv ?V (dest_of ?route) L' (views c')"
    using raft_steps[OF steps L lone_views] by blast
  note commit = commit_acknowledged[OF inv started_matches[OF run] nw assms(9,11-14)]
  then have "majority_acked ?V c' (GetCurrentTerm (nodes c i)) k" using False majority_acked_grows[OF g] by blast
  then obtain A where "majority ?V A" "\<forall>v\<in>A. (lv_term (views c i), k) \<in> lv_acks (views c' v)"
    by (auto simp: majority_acked_def views_at)
  note kept = raft_durable[OF L L'(2,1) worker_ids_finite assms(9) _ _ this assms(16)]
  show ?thesis
    using kept commit(1) assms(10,15,17,18) by (simp add: views_at has_entry_def)
qed blast

text \<open>
  The first part of the run: 5000 is elected, its entry is acknowledged by 5001 and by itself, and both
  responses arrive. The second part: 5001 is elected for term 2 with the vote of 5002.
\<close>

definition acknowledged_run :: "ClusterEvent list" where
  "acknowledged_run = election_run @ garbage_run 0 @ [CTick 5000 1, CDeliver 5001 1 0, CTick 5000 1]"

definition succession_run :: "ClusterEvent list" where
  "succession_run = [CTick 5001 2, CDeliver 5001 4 0, CTick 5002 1, CDeliver 5002 0 0, CTick 5001 2]"

lemma durable_runs_value:
  "\<exists>c c' n. run_workers ''h'' 5000 5002 acknowledged_run (fresh_workers 1 6 100) = Inr c \<and>
    run_workers ''h'' 5000 5002 succession_run c = Inr c' \<and>
    (\<forall>i\<in>{5000, 5001, 5002}. no_wrap (nodes c' i)) \<and> sent_fit fits_proto {5000, 5001, 5002} c' \<and>
    (\<forall>v\<in>{5000, 5001, 5002}. \<forall>t ch ch'. (t, ch) \<in> granted (nodes c' v) \<longrightarrow>
       (t, ch') \<in> granted (nodes c' v) \<longrightarrow> ch = ch') \<and>
    (\<forall>v\<in>{5000, 5001, 5002}. (0, 1) \<notin> acked (nodes c v)) \<and>
    role (nodes c 5000) = kLeader \<and> GetCurrentTerm (nodes c 5000) = 1 \<and> GetCommitIndex (nodes c 5000) = 0 \<and>
    CommitIfPossible (nodes c 5000) = Inr n \<and> GetCommitIndex n = 1 \<and>
    GetLog (nodes c 5000) = initial_log @ [LogItem ''x'' 1] \<and>
    role (nodes c' 5001) = kLeader \<and> GetCurrentTerm (nodes c' 5001) = 2"
  by (simp add: acknowledged_run_def succession_run_def election_run_def garbage_run_def cluster_eval eval_defs
      tick_times_one history_eval acked_eval sent_fit_def fits_proto_def fits_int32_def cong: eval_cong)

lemma commits_are_kept_witness:
  "\<exists>c c'. run_workers ''h'' 5000 5002 acknowledged_run (fresh_workers 1 6 100) = Inr c \<and>
    run_workers ''h'' 5000 5002 succession_run c = Inr c' \<and>
    role (nodes c' 5001) = kLeader \<and> GetCurrentTerm (nodes c' 5001) = 2 \<and>
    take 2 (GetLog (nodes c' 5001)) = initial_log @ [LogItem ''x'' 1]"
proof -
  obtain c c' n where run: "run_workers ''h'' 5000 5002 acknowledged_run (fresh_workers 1 6 100) = Inr c"
    "run_workers ''h'' 5000 5002 succession_run c = Inr c'" "sent_fit fits_proto (worker_ids 5000 5002) c'"
    "no_wraps (worker_ids 5000 5002) c'"
    and once: "\<not> double_vote (worker_ids 5000 5002) c'" and fresh: "\<forall>v\<in>worker_ids 5000 5002. (0, 1) \<notin> acked (nodes c v)"
    and lead: "role (nodes c 5000) = kLeader" "GetCurrentTerm (nodes c 5000) = 1" "GetCommitIndex (nodes c 5000) = 0"
    and commit: "CommitIfPossible (nodes c 5000) = Inr n" "GetCommitIndex n = 1"
    and log: "GetLog (nodes c 5000) = initial_log @ [LogItem ''x'' 1]"
    and later: "role (nodes c' 5001) = kLeader" "GetCurrentTerm (nodes c' 5001) = 2"
    using durable_runs_value unfolding sample_ids no_wraps_def double_vote_def by blast
  have events: "\<forall>e\<in>set (acknowledged_run @ succession_run). event_node e \<in> worker_ids 5000 5002"
    by (simp add: acknowledged_run_def succession_run_def election_run_def garbage_run_def sample_ids)
  have idx: "1 = unat (GetCommitIndex n)" by (simp add: commit(2))
  have moved: "GetCommitIndex n \<noteq> GetCommitIndex (nodes c 5000)" by (simp add: commit(2) lead(3))
  have item: "leader_term (GetLog (nodes c 5000) ! 1) = GetCurrentTerm (nodes c 5000)"
    by (simp add: log initial_log_def lead(2))
  have up: "GetCurrentTerm (nodes c 5000) \<le> GetCurrentTerm (nodes c' 5001)" by (simp add: lead(2) later(2))
  have ids: "5000 \<in> worker_ids 5000 5002" "5001 \<in> worker_ids 5000 5002" by (simp_all add: sample_ids)
  have "\<not> stale_ack (worker_ids 5000 5002) c (GetCurrentTerm (nodes c 5000)) 1"
    unfolding stale_ack_def lead(2) using fresh by (auto simp: word_less_1)
  moreover note commits_are_kept[OF fresh_started sample_flags[of 5000] _ events run ids(1) lead(1) commit(1) moved idx
      zero_less_one item ids(2) later(1) up]
  ultimately have "take (Suc 1) (GetLog (nodes c' 5001)) = take (Suc 1) (GetLog (nodes c 5000))"
    using once by simp
  then have "take 2 (GetLog (nodes c' 5001)) = initial_log @ [LogItem ''x'' 1]"
    by (simp add: log initial_log_def numeral_2_eq_2)
  then show ?thesis using run(1,2) later by blast
qed

end
