(* ===== verification/WorkerMain.thy ===== *)
theory WorkerMain
  imports KvTheorems Process
begin

text \<open>
  A whole worker process: \<open>main\<close> of \<open>hw2/src/worker/worker.cpp\<close> from the flags to its end. It puts the
  start of \<open>Process\<close>, the node and the key-value service together. What the other threads do is a list of
  service events: ticks of the consensus thread, messages taken by the receiver, commands of clients, and
  the calls of \<open>ActualizeState\<close> that the clients' reads and writes make. Each word of the standard input
  comes with the events up to it. Whether the two servers could be built and whether \<open>Shutdown\<close> returns,
  which waits for the calls under way, is an input. \<open>None\<close> is a process that does not end: a \<open>Shutdown\<close> or
  a call that waits, or the loop at the end of the input. The program writes nothing to the standard
  output; of the standard error the messages of \<open>main\<close> and the dumps are modelled, the log lines between
  them are not.
\<close>

section \<open>The process\<close>

text \<open>A word, what other threads do before it is read, and what happens while it makes a dump.\<close>

record Typed =
  word :: string
  before :: "service_event list"
  dump_wait :: "NodeEvent list"
  dump_gap :: "service_event list"

text \<open>The loop over standard input; \<open>err\<close> is the text of the dumps.\<close>

fun main_loop :: "Typed list \<Rightarrow> KeyValueStoreImpl \<Rightarrow> Node \<Rightarrow> string
    \<Rightarrow> (string \<times> KeyValueStoreImpl \<times> Node) option result" where
  "main_loop [] kv n err = Inr None"
| "main_loop (typed # rest) kv n err =
     bind_wait (service_steps (before typed) (kv, n)) (\<lambda>(kv, n).
       if word typed = ''dump'' then
         bind_wait (DumpState (dump_wait typed) (dump_gap typed) n kv) (\<lambda>(dumped, kv, n).
           main_loop rest kv n (err @ dumped))
       else if word typed = ''stop'' then Inr (Some (err, kv, n))
       else main_loop rest kv n err)"

text \<open>\<open>closing\<close> is what the threads do after \<open>stop\<close>, until they are joined.\<close>

record WorkerIO =
  words_typed :: "Typed list"
  closing :: "service_event list"
  kv_built :: bool
  communication_built :: bool
  communication_drains :: bool
  kv_drains :: bool

text \<open>The exit code with the standard error; a fault; or a server that was not built and is waited for.\<close>

datatype worker_end =
    Exited int string
  | Faulted fault
  | NullServer

definition GetSenderToItself :: "Node \<Rightarrow> IMessageSender result" where
  "GetSenderToItself n = map_at (channels n) (my_id n)"

definition worker_process ::
    "string \<Rightarrow> u16 \<Rightarrow> u16 \<Rightarrow> u16 \<Rightarrow> (nat \<Rightarrow> int) \<Rightarrow> (nat \<Rightarrow> int) \<Rightarrow> WorkerIO \<Rightarrow> worker_end option" where
  "worker_process host port min_port max_port rnd clk io =
     (case start_worker host port min_port max_port rnd clk of
        None \<Rightarrow> None
      | Some (Inl message) \<Rightarrow> Some (Exited 1 (message @ [CHR 0x0A]))
      | Some (Inr consensus_node) \<Rightarrow>
          (case GetSenderToItself consensus_node of
             Inl e \<Rightarrow> Some (Faulted e)
           | Inr sender_to_myself \<Rightarrow>
               if \<not> kv_built io \<or> \<not> communication_built io then Some NullServer
               else
                 (case bind_wait (main_loop (words_typed io) make_KeyValueStoreImpl consensus_node [])
                    (\<lambda>(err, kv, n). bind_wait (service_steps (closing io) (kv, n)) (\<lambda>_. Inr (Some err))) of
                    Inl e \<Rightarrow> Some (Faulted e)
                  | Inr None \<Rightarrow> None
                  | Inr (Some err) \<Rightarrow>
                      if communication_drains io \<and> kv_drains io then Some (Exited 0 err) else None)))"

section \<open>Queries are never broken\<close>

definition no_broken :: "Node \<Rightarrow> bool" where
  "no_broken n \<longleftrightarrow> (\<forall>p. query_results n p \<noteq> Broken)"

lemma answered_tick_once:
  assumes "fine I n" and "no_broken n"
  shows "on_ok no_broken (tick_once n)"
proof (rule on_okI)
  fix n' assume n': "tick_once n = Inr n'"
  have "distinct (map snd (get_persistent_commands_reqs n))"
    using assms(1) by (simp add: fine_def steady_def promises_defs)
  note t = tick_answers[OF n' this]
  show "no_broken n'"
    unfolding no_broken_def
  proof
    fix p
    show "query_results n' p \<noteq> Broken"
    proof (cases "p \<in> snd ` set (get_persistent_commands_reqs n)")
      case True
      then obtain f c where "((f, c), p) \<in> set (get_persistent_commands_reqs n)" by force
      then show ?thesis using t by fastforce
    qed (use t assms(2) in \<open>simp add: no_broken_def\<close>)
  qed
qed

lemma answered_tick_times:
  "fine I n \<Longrightarrow> no_broken n \<Longrightarrow> post {LengthError, BadIndex} (\<lambda>n. fine I n \<and> no_broken n) (tick_times k n)"
proof (induction k arbitrary: n)
  case 0
  then show ?case by simp
next
  case (Suc k)
  have "post {LengthError, BadIndex} (\<lambda>n. fine I n \<and> no_broken n) (tick_once n)"
    using post_conj[OF fine_tick_once[OF Suc.prems(1)] answered_tick_once[OF Suc.prems]] by simp
  then show ?case by (auto intro: post_bindI Suc.IH)
qed

lemma answered_step:
  assumes "fine I n" and "no_broken n" and "legal_event (map_keys (fst (snd I))) e"
  shows "post {LengthError, BadIndex} (\<lambda>n. fine I n \<and> no_broken n) (node_step e n)"
proof (cases e)
  case (NTick k)
  then show ?thesis using answered_tick_times[OF assms(1,2)] by (simp add: Tick_def)
next
  case (NMessage s m)
  then show ?thesis
    using fine_node_step[OF assms(1,3)] assms(2)
    by (simp add: no_broken_def AddMessage_def split: Message.splits)
next
  case (NCommand c)
  then show ?thesis
    using fine_node_step[OF assms(1,3)] assms(2) by (simp add: no_broken_def AddCommand_def Let_def)
next
  case (NQuery i k)
  then show ?thesis
    using fine_node_step[OF assms(1,3)] assms(2)
    by (simp add: no_broken_def GetPersistentCommands_def Let_def)
qed

lemma answered_steps:
  assumes "fine I n" and "no_broken n" and "legal_for I es"
  shows "post {LengthError, BadIndex} (\<lambda>n. fine I n \<and> no_broken n) (fold_res node_step es n)"
  using assms by (intro post_fold) (auto intro: answered_step)

lemma answered_await:
  assumes "fine I n" and "no_broken n" and "legal_for I es"
  shows "post {LengthError, BadIndex} (\<lambda>r. case r of None \<Rightarrow> True
    | Some (v, es', n') \<Rightarrow> fine I n' \<and> no_broken n' \<and> legal_for I es') (await (\<lambda>n. query_results n p) es n)"
  using assms
proof (induction es arbitrary: n)
  case Nil
  then show ?case by (subst await.simps) (auto simp: no_broken_def split: promise_state.split)
next
  case (Cons e es)
  have "post {LengthError, BadIndex} (\<lambda>n. fine I n \<and> no_broken n) (node_step e n)"
    using Cons.prems by (intro answered_step) simp_all
  then have "post {LengthError, BadIndex} (\<lambda>r. case r of None \<Rightarrow> True
      | Some (v, es', n') \<Rightarrow> fine I n' \<and> no_broken n' \<and> legal_for I es')
      (bind_res (node_step e n) (await (\<lambda>n. query_results n p) es))"
    by (rule post_bindI) (use Cons in auto)
  moreover have "query_results n p \<noteq> Broken" using Cons.prems(2) by (simp add: no_broken_def)
  ultimately show ?case
    using Cons.prems by (subst await.simps) (cases "query_results n p"; simp)
qed

abbreviation healthy :: "NodeId \<times> (NodeId, IMessageSender) std_map \<times> u64 \<Rightarrow> Node \<Rightarrow> bool" where
  "healthy I n \<equiv> fine I n \<and> no_broken n"

lemma answered_ActualizeState:
  assumes "fine I n" and "no_broken n" and "legal_for I es"
  shows "post {LengthError, BadIndex} (\<lambda>r. case r of None \<Rightarrow> True
    | Some (kv', es', n') \<Rightarrow> healthy I n' \<and> legal_for I es') (ActualizeState es n kv)"
proof -
  let ?q = "GetPersistentCommands (last_persisted_id kv + 1) 100000000 n"
  have "post {LengthError, BadIndex} (\<lambda>n. fine I n \<and> no_broken n)
      (node_step (NQuery (last_persisted_id kv + 1) 100000000) n)"
    using assms by (intro answered_step) simp_all
  then have "fine I (snd ?q)" "no_broken (snd ?q)" by simp_all
  from answered_await[OF this assms(3), of "fst ?q"] show ?thesis
    unfolding ActualizeState_def bind_wait_def Let_def
    by (cases "await (\<lambda>n. query_results n (fst ?q)) es (snd ?q)")
       (auto split: option.splits prod.splits)
qed

text \<open>Sequencing of calls that may be left waiting.\<close>

lemma post_wait:
  assumes "post E (\<lambda>r. case r of None \<Rightarrow> True | Some x \<Rightarrow> P x) m" and "\<And>x. P x \<Longrightarrow> post E Q (f x)" and "Q None"
  shows "post E Q (bind_wait m f)"
  using assms by (cases m) (auto simp: bind_wait_def split: option.splits)

lemma answered_service_step:
  assumes "healthy I n" and "legal_for I (node_events e)"
  shows "post {LengthError, BadIndex} (\<lambda>r. case r of None \<Rightarrow> True | Some (kv', n') \<Rightarrow> healthy I n')
    (service_step e (kv, n))"
proof (cases e)
  case (NodeDoes ev)
  then show ?thesis
    using post_bindI[OF answered_step[of I n ev], of _ "\<lambda>n. Inr (Some (kv, n))"] assms by simp
next
  case (Actualizes es)
  have "legal_for I es" using assms(2) Actualizes by simp
  note act = answered_ActualizeState[OF _ _ this, of n kv]
  show ?thesis
    unfolding Actualizes service_step.simps
    by (rule post_wait[OF act])
      (use assms(1) in \<open>auto intro!: post_bindI[OF answered_steps]\<close>)
qed

lemma answered_service_steps:
  assumes "healthy I n" and "legal_service I gap"
  shows "post {LengthError, BadIndex} (\<lambda>r. case r of None \<Rightarrow> True | Some (kv', n') \<Rightarrow> healthy I n')
    (service_steps gap (kv, n))"
  using assms
proof (induction gap arbitrary: kv n)
  case Nil
  then show ?case by simp
next
  case (Cons e gap)
  have e: "legal_for I (node_events e)" and gap: "legal_service I gap" using Cons.prems(2) by simp_all
  show ?case
    unfolding service_steps.simps
    by (rule post_wait[OF answered_service_step[OF Cons.prems(1) e]]) (use Cons.IH gap in auto)
qed

lemma answered_DumpState:
  assumes "healthy I n" and "legal_for I es" and "legal_service I gap"
  shows "post {LengthError, BadIndex} (\<lambda>r. case r of None \<Rightarrow> True | Some (dumped, kv', n') \<Rightarrow> healthy I n')
    (DumpState es gap n kv)"
proof -
  have "post {LengthError, BadIndex} (\<lambda>r. case r of None \<Rightarrow> True | Some (dumped, kv', n') \<Rightarrow> healthy I n')
      (bind_wait (service_steps (map NodeDoes es' @ gap) (kv', n')) (\<lambda>(kv, n).
         Inr (Some (ToString (kv_storage kv) @ [CHR 0x0A], kv, n))))"
    if "healthy I n'" "legal_for I es'" for kv' es' n'
    by (rule post_wait[OF answered_service_steps[OF that(1)]]) (use that(2) assms(3) in auto)
  then show ?thesis
    unfolding DumpState_def
    by (intro post_wait[OF answered_ActualizeState]) (use assms in auto)
qed

section \<open>The loop\<close>

definition legal_word :: "NodeId \<times> (NodeId, IMessageSender) std_map \<times> u64 \<Rightarrow> Typed \<Rightarrow> bool" where
  "legal_word I t \<longleftrightarrow> legal_service I (before t) \<and> legal_for I (dump_wait t) \<and> legal_service I (dump_gap t)"

lemma main_loop_ok:
  assumes "healthy I n" and "\<forall>t\<in>set ts. legal_word I t"
  shows "post {LengthError, BadIndex} (\<lambda>r. case r of None \<Rightarrow> True
    | Some (err', kv', n') \<Rightarrow> healthy I n' \<and> ''stop'' \<in> word ` set ts) (main_loop ts kv n err)"
  using assms
proof (induction ts arbitrary: kv n err)
  case Nil
  then show ?case by simp
next
  case (Cons t ts)
  let ?P = "\<lambda>ts r. case r of None \<Rightarrow> True | Some (err' :: string, kv' :: KeyValueStoreImpl, n') \<Rightarrow>
    healthy I n' \<and> ''stop'' \<in> word ` set ts"
  have t: "legal_service I (before t)" "legal_for I (dump_wait t)" "legal_service I (dump_gap t)"
    and ts: "\<forall>t\<in>set ts. legal_word I t" using Cons.prems(2) by (simp_all add: legal_word_def)
  have go_on: "post {LengthError, BadIndex} (?P (t # ts)) (main_loop ts kv n err)" if "healthy I n" for kv n err
    by (rule post_weaken[OF Cons.IH[OF that ts]]) (auto split: option.splits)
  have dump: "post {LengthError, BadIndex} (?P (t # ts)) (bind_wait (DumpState (dump_wait t) (dump_gap t) n kv)
      (\<lambda>(dumped, kv, n). main_loop ts kv n (err @ dumped)))" if "healthy I n" for kv n
    by (rule post_wait[OF answered_DumpState[OF that t(2,3)]]) (use go_on in auto)
  show ?case
    unfolding main_loop.simps
    by (rule post_wait[OF answered_service_steps[OF Cons.prems(1) t(1)]]) (use dump go_on in auto)
qed

section \<open>Properties\<close>

lemma legal_event_members: "set xs = set ys \<Longrightarrow> legal_event xs e = legal_event ys e"
  by (cases e) simp_all

text \<open>C30: A whole worker process. With valid flags and both servers built, whatever well-formed messages
  arrive, whatever its clients read and write and whatever is typed, the process faults in only two ways
  (a log beyond the size of a vector, an index outside the log): it finds the channel to itself, and no
  call of \<open>ActualizeState\<close>, neither for a dump nor for a client, sees a broken promise, no promise is
  satisfied twice, no empty optional is read, and no message comes from an unknown sender. (A write whose
  entry is overwritten does see its promise broken, in a thread of the server; its answer is no part of
  this.) It exits only with 0, and only after it has read \<open>stop\<close>.\<close>

theorem worker_process_ends:
  assumes "check_flags port min_port max_port = None" and "unat max_port < 2 ^ 16 - 1"
    and "kv_built io" and "communication_built io"
    and "\<forall>t\<in>set (words_typed io).
      \<forall>e\<in>set (dump_wait t @ concat (map node_events (before t @ dump_gap t))).
        legal_event (map of_nat [unat min_port..<Suc (unat max_port)]) e"
    and "\<forall>e\<in>set (concat (map node_events (closing io))).
      legal_event (map of_nat [unat min_port..<Suc (unat max_port)]) e"
  shows "case worker_process host port min_port max_port rnd clk io of
      None \<Rightarrow> True
    | Some NullServer \<Rightarrow> False
    | Some (Faulted e) \<Rightarrow> e = LengthError \<or> e = BadIndex
    | Some (Exited code err) \<Rightarrow> code = 0 \<and> ''stop'' \<in> word ` set (words_typed io)"
proof -
  let ?n = "worker_node host port min_port max_port rnd clk"
  let ?I = "ident ?n"
  define ms :: "NodeId list" where "ms = map of_nat [unat min_port..<Suc (unat max_port)]"
  note f = flags_ok[OF assms(1)]
  have healthy: "healthy ?I ?n"
    using worker_node_fine by (simp add: no_broken_def worker_node_def make_Node_def Let_def)
  have "set (map_keys (fst (snd ?I))) = set ms"
    using worker_node_members(1)[OF f(1,2), of host rnd clk] by (auto simp: ident_def ms_def)
  then have members: "legal_event (map_keys (fst (snd ?I))) = legal_event ms"
    using legal_event_members by blast
  have words: "\<forall>t\<in>set (words_typed io). legal_word ?I t"
    unfolding legal_word_def members using assms(5)[folded ms_def] by fastforce
  have closing: "legal_service ?I (closing io)" unfolding members using assms(6)[folded ms_def] by auto
  have run: "post {LengthError, BadIndex} (\<lambda>r. r = None \<or> ''stop'' \<in> word ` set (words_typed io))
      (bind_wait (main_loop (words_typed io) make_KeyValueStoreImpl ?n [])
         (\<lambda>(err, kv, n). bind_wait (service_steps (closing io) (kv, n)) (\<lambda>_. Inr (Some err))))"
    by (rule post_wait[OF main_loop_ok[OF healthy words]])
       (auto intro!: post_wait[OF answered_service_steps[OF _ closing]])
  have self: "my_id ?n \<in> set (map_keys (channels ?n))"
    using worker_node_fine by (intro channels_self) (simp add: fine_def node_ok_def)
  obtain ch where "GetSenderToItself ?n = Inr ch"
    using map_at_known[OF self] by (auto simp: GetSenderToItself_def)
  then show ?thesis
    using run assms(3,4)
    by (cases "bind_wait (main_loop (words_typed io) make_KeyValueStoreImpl ?n [])
         (\<lambda>(err, kv, n). bind_wait (service_steps (closing io) (kv, n)) (\<lambda>_. Inr (Some err)))")
       (auto simp: worker_process_def start_worker_value[OF assms(1,2)] split: option.split)
qed

text \<open>A worker that is its own cluster; a client reads while the first dump is made.\<close>

definition sample_io :: WorkerIO where
  "sample_io = \<lparr>words_typed =
       [\<lparr>word = ''dump'', before = [NodeDoes (NTick 1)], dump_wait = [NTick 1], dump_gap = [Actualizes [NTick 1]]\<rparr>,
        \<lparr>word = ''stop'', before = [NodeDoes (NCommand ''k v'')], dump_wait = [], dump_gap = []\<rparr>],
     closing = [NodeDoes (NTick 1)], kv_built = True, communication_built = True,
     communication_drains = True, kv_drains = True\<rparr>"

lemma worker_process_ends_witness:
  "\<exists>err. worker_process ''h'' 1 1 1 (\<lambda>_. 7000) (\<lambda>i. 1000 * int i) sample_io = Some (Exited 0 err)"
  (is "\<exists>err. ?p = _")
proof -
  have flags: "check_flags 1 1 1 = None" by (simp add: check_flags_def Let_def)
  have "worker_node ''h'' 1 1 1 (\<lambda>_. 7000) (\<lambda>i. 1000 * int i) =
      make_Node 1 [] (make_UniformTimer 7000 15000 (\<lambda>_. 7000) (\<lambda>i. 1000 * int i))"
    by (simp add: worker_node_def add_peers_def)
  then have "\<exists>code err. ?p = Some (Exited code err)"
    by (simp add: worker_process_def start_worker_value[OF flags] GetSenderToItself_def eval_defs tick_times_one
        kv_eval DumpState_def sample_io_def cong: eval_cong)
  then show ?thesis
    using worker_process_ends[OF flags, of sample_io "''h''" "\<lambda>_. 7000" "\<lambda>i. 1000 * int i"]
    by (auto simp: sample_io_def)
qed

end
