(* ===== verification/Integral.thy ===== *)
theory Integral
  imports Streams
begin

text \<open>
  \<open>hw1/src/common/integral.cpp\<close>: the midpoint rule. The type \<open>double\<close> and its operations are a
  parameter of the model, the record \<open>Double\<close>; nothing is assumed of them but what a property names.
  \<open>exact_double\<close> is exact arithmetic in an ordered field. \<open>None\<close> is a loop that does not end.
\<close>

section \<open>Floating point numbers\<close>

record 'd Double =
  d_add :: "'d \<Rightarrow> 'd \<Rightarrow> 'd"
  d_sub :: "'d \<Rightarrow> 'd \<Rightarrow> 'd"
  d_mul :: "'d \<Rightarrow> 'd \<Rightarrow> 'd"
  d_div :: "'d \<Rightarrow> 'd \<Rightarrow> 'd"
  d_less :: "'d \<Rightarrow> 'd \<Rightarrow> bool"
  d_of_int :: "int \<Rightarrow> 'd"
  d_print :: "'d \<Rightarrow> string"
  d_scan :: "string \<Rightarrow> 'd extracted"

definition exact_double :: "('d \<Rightarrow> string) \<Rightarrow> (string \<Rightarrow> 'd extracted) \<Rightarrow> ('d::linordered_field) Double" where
  "exact_double print scan =
     \<lparr>d_add = (+), d_sub = (-), d_mul = (*), d_div = (/), d_less = (<), d_of_int = of_int,
      d_print = print, d_scan = scan\<rparr>"

section \<open>The rule\<close>

text \<open>
  The faults of the integral service: \<open>ENSURE\<close> and \<open>HANDLE_C_ERROR\<close> throw \<open>std::runtime_error\<close>,
  \<open>std::stoi\<close> its own exceptions, \<open>std::map::at\<close> throws for a missing key. An index outside a vector and the first
  element of an empty container are undefined behaviour: \<open>UndefinedReply\<close> where the leader follows the
  numbers of a reply, \<open>UndefinedBehaviour\<close> everywhere else.
\<close>

datatype integral_fault =
    RuntimeError
  | StoiError stoi_fault
  | KeyMissing
  | UndefinedReply
  | UndefinedBehaviour

partial_function (option) midpoint_loop ::
    "'d Double \<Rightarrow> ('d \<Rightarrow> 'd) \<Rightarrow> 'd \<Rightarrow> 'd \<Rightarrow> 'd \<Rightarrow> 'd \<Rightarrow> 'd option" where
  "midpoint_loop D f b step_length x result_raw =
     (if d_less D x b
      then midpoint_loop D f b step_length (d_add D x step_length) (d_add D result_raw (f x))
      else Some result_raw)"

definition EvaluateIntegral ::
    "'d Double \<Rightarrow> 'd \<Rightarrow> 'd \<Rightarrow> u32 \<Rightarrow> ('d \<Rightarrow> 'd) \<Rightarrow> (integral_fault + 'd) option" where
  "EvaluateIntegral D a b points f =
     (if \<not> d_less D a b then Some (Inl RuntimeError)
      else
        let step_length = d_div D (d_sub D b a) (d_of_int D (uint points))
        in map_option (\<lambda>result_raw. Inr (d_mul D result_raw step_length))
             (midpoint_loop D f b step_length
               (d_add D a (d_div D step_length (d_of_int D 2))) (d_of_int D 0)))"

section \<open>Exact arithmetic\<close>

lemma exact_simps [simp]:
  "d_add (exact_double p s) = (+)" "d_sub (exact_double p s) = (-)"
  "d_mul (exact_double p s) = (*)" "d_div (exact_double p s) = (/)"
  "d_less (exact_double p s) = (<)" "d_of_int (exact_double p s) = of_int"
  by (simp_all add: exact_double_def)

lemma exact_print: "d_print (exact_double p s) = p" "d_scan (exact_double p s) = s"
  by (simp_all add: exact_double_def)

text \<open>The loop from the \<open>i\<close>-th of \<open>n\<close> midpoints on.\<close>

lemma midpoint_loop_exact:
  fixes a h :: "'d::linordered_field"
  assumes "0 < h" and "i \<le> n" and "b = a + of_nat n * h"
  shows "midpoint_loop (exact_double p s) f b h (a + h / 2 + of_nat i * h) acc =
    Some (acc + (\<Sum>j = i..<n. f (a + h / 2 + of_nat j * h)))"
  using assms(2)
proof (induction "n - i" arbitrary: i acc)
  case 0
  then have "i = n" by simp
  then have "\<not> a + h / 2 + of_nat i * h < b" using assms(1,3) by (simp add: add_increasing)
  then show ?case using \<open>i = n\<close> by (subst midpoint_loop.simps) simp
next
  case (Suc d)
  then have lt: "i < n" by simp
  have "of_nat (Suc i) * h \<le> of_nat n * h"
    using lt assms(1) by (intro mult_right_mono) (auto simp flip: of_nat_Suc)
  then have "of_nat i * h + h \<le> of_nat n * h" by (simp add: algebra_simps)
  moreover have "h / 2 < h" using assms(1) by simp
  ultimately have less: "a + h / 2 + of_nat i * h < b" using assms(3) by linarith
  have "a + h / 2 + of_nat i * h + h = a + h / 2 + of_nat (Suc i) * h" by (simp add: algebra_simps)
  moreover have "(\<Sum>j = i..<n. f (a + h / 2 + of_nat j * h)) =
      f (a + h / 2 + of_nat i * h) + (\<Sum>j = Suc i..<n. f (a + h / 2 + of_nat j * h))"
    using lt by (rule sum.atLeast_Suc_lessThan)
  ultimately show ?case
    using Suc.hyps(1)[of "Suc i"] Suc.hyps(2) lt less
    by (subst midpoint_loop.simps) (simp add: add.assoc)
qed

lemma EvaluateIntegral_exact:
  fixes a b :: "'d::linordered_field"
  assumes "a < b" and "0 < points"
  defines "h \<equiv> (b - a) / of_nat (unat points)"
  shows "EvaluateIntegral (exact_double p s) a b points f =
    Some (Inr (h * (\<Sum>j<unat points. f (a + h / 2 + of_nat j * h))))"
proof -
  let ?n = "unat points"
  have n: "0 < ?n" using assms(2) by (simp add: word_less_nat_alt)
  then have h: "0 < h" "b = a + of_nat ?n * h"
    using assms(1) by (simp_all add: h_def del: of_nat_unat)
  have "(of_int (uint points) :: 'd) = of_nat ?n" by (metis of_int_of_nat_eq uint_nat)
  then have step: "(b - a) / of_int (uint points) = h" by (simp add: h_def)
  have "midpoint_loop (exact_double p s) f b h (a + h / 2) 0 =
      Some (\<Sum>j = 0..<?n. f (a + h / 2 + of_nat j * h))"
    using midpoint_loop_exact[OF h(1) _ h(2), of 0 p s f 0] by simp
  then show ?thesis
    unfolding EvaluateIntegral_def Let_def exact_simps step of_int_numeral of_int_0
    using assms(1) by (simp add: mult.commute atLeast0LessThan del: of_nat_unat)
qed

text \<open>The sum of an affine function over the midpoints.\<close>

lemma sum_midpoints:
  fixes a h :: "'d::linordered_field"
  shows "(\<Sum>j<n. u * (a + h / 2 + of_nat j * h) + v) =
    of_nat n * (u * (a + of_nat n * h / 2) + v)"
proof (induction n)
  case 0
  then show ?case by simp
next
  case (Suc n)
  then show ?case by (simp add: field_simps)
qed

lemma integral_affine:
  fixes a b :: "'d::linordered_field"
  assumes "a < b" and "0 < points"
  shows "EvaluateIntegral (exact_double p s) a b points (\<lambda>x. u * x + v) =
    Some (Inr (u * (b * b - a * a) / 2 + v * (b - a)))"
proof -
  define n where "n = (of_nat (unat points) :: 'd)"
  define h where "h = (b - a) / n"
  have n: "n \<noteq> 0" using assms(2) by (simp add: n_def word_less_nat_alt del: of_nat_unat)
  then have b: "b = a + n * h" by (simp add: h_def)
  have "h * (n * (u * (a + n * h / 2) + v)) = u * (b * b - a * a) / 2 + v * (b - a)"
    unfolding b by (simp add: field_simps)
  then show ?thesis
    unfolding EvaluateIntegral_exact[OF assms] sum_midpoints by (simp add: n_def h_def)
qed

text \<open>\<open>IntegralTest\<close> of \<open>ut/integral_test.cpp\<close>, for all linear functions, intervals and numbers of points.\<close>

lemma IntegralTest:
  fixes a b :: "'d::linordered_field"
  assumes "a < b" and "0 < points" and "f = (\<lambda>x. k * x + x0)"
  shows "EvaluateIntegral (exact_double p s) a b points f = Some (Inr ((f a + f b) * (b - a) / 2))"
  using integral_affine[OF assms(1,2), of p s k x0] by (simp add: assms(3) field_simps)

section \<open>Absorption\<close>

text \<open>When a point below \<open>b\<close> absorbs the step, the loop stays at it.\<close>

lemma midpoint_loop_stuck:
  assumes "d_less D x b" and "d_add D x h = x"
  shows "midpoint_loop D f b h x acc = None"
proof -
  have "d_less D x b \<longrightarrow> d_add D x h \<noteq> x" if run: "midpoint_loop D f b h x acc = Some y" for y
  proof (rule midpoint_loop.raw_induct[where xa = "(((((D, f), b), h), x), acc)" and y = y and
        P = "\<lambda>D f b h x acc y. d_less D x b \<longrightarrow> d_add D x h \<noteq> x", simplified])
    show "midpoint_loop D f b h x acc = Some y" by (rule run)
  next
    fix loop and D :: "'a Double" and f b h x acc y
    assume "\<And>D f b h x acc y. loop D f b h x acc = Some y \<Longrightarrow> d_less D x b \<longrightarrow> d_add D x h \<noteq> x"
      and "(if d_less D x b then loop D f b h (d_add D x h) (d_add D acc (f x)) else Some acc) = Some y"
    then show "d_less D x b \<longrightarrow> d_add D x h \<noteq> x" by (auto split: if_splits)
  qed
  then show ?thesis using assms by fastforce
qed

end
