(* ===== verification/LeaderTypes.thy ===== *)
theory LeaderTypes
  imports StdMap Integral
begin

text \<open>
  The data of the integral service: \<open>hw1/src/common/task.h\<close>, \<open>types.h\<close> and \<open>hw1/src/leader/leader.h\<close>.
  \<open>'d\<close> is the type \<open>double\<close>. Of a \<open>pollfd\<close> only the descriptor is state: its events are set to the
  same value before every poll and its result is an input of the round. The last three fields of
  \<open>Leader\<close> are no part of the code's state but the history of a run: the results that were added to a
  query, the requests written to the current connection of each worker, and the descriptors closed.
\<close>

type_synonym TaskId = u64
type_synonym WorkerId = u64
type_synonym QueryId = u32

record 'd Task =
  task_a :: 'd
  task_b :: 'd

record HeartbeatMessage =
  sequence_number :: u64
  timestamp :: int

record WorkerInfo =
  last_heartbeat :: HeartbeatMessage
  worker_id :: WorkerId
  position_in_buffer :: u32
  assigned_tasks :: "(QueryId \<times> TaskId) list"

record 'd QueryInfo =
  query_id :: QueryId
  query_result :: 'd
  all_tasks :: "'d Task list"
  tasks_in_progress :: "TaskId std_set"
  tasks_to_do :: "TaskId std_set"

record 'd Leader =
  worker_fds :: "int list"
  known_workers :: "(WorkerId, WorkerInfo) std_map"
  queries :: "'d QueryInfo list"
  wid_to_delete :: "WorkerId list"
  hb_updates :: "(WorkerId, HeartbeatMessage) std_map"
  new_tasks :: "('d \<times> 'd) list"
  accepted :: "(QueryId \<times> TaskId \<times> 'd) list"
  requests :: "(WorkerId \<times> QueryId \<times> TaskId) list"
  closed_fds :: "int list"

text \<open>\<open>Leader::Leader\<close> after the discovery socket was made.\<close>

definition make_Leader :: "u32 \<Rightarrow> 'd Leader" where
  "make_Leader max_workers =
     \<lparr>worker_fds = replicate (unat max_workers) (- 1), known_workers = [], queries = [],
      wid_to_delete = [], hb_updates = [], new_tasks = [], accepted = [], requests = [],
      closed_fds = []\<rparr>"

text \<open>The element that \<open>known_workers_[wid]\<close> makes for an unknown \<open>wid\<close>.\<close>

definition default_WorkerInfo :: WorkerInfo where
  "default_WorkerInfo = \<lparr>last_heartbeat = \<lparr>sequence_number = 0, timestamp = 0\<rparr>, worker_id = 0,
     position_in_buffer = 0, assigned_tasks = []\<rparr>"

end
