(* ===== verification/Discovery.thy ===== *)
theory Discovery
  imports LeaderTypes
begin

text \<open>
  Discovery over UDP: \<open>hw1/src/socket/socket.cpp\<close>, \<open>Worker::WaitForDiscovery\<close>,
  \<open>Leader::SendDiscoveryMessage\<close> and \<open>Leader::ReceiveDiscoveryMessage\<close>. What \<open>recvfrom\<close> returns from call
  to call is a list; a call cuts a datagram to the size of the buffer. \<open>None\<close> is a loop that is still
  receiving when the list ends.
\<close>

section \<open>The receive loop\<close>

datatype 'a reception =
    Datagram 'a string
  | WouldBlock
  | ReceiveError

definition kMaxMessageSize :: nat where
  "kMaxMessageSize = 100"

fun OnReceiveAsync ::
    "('a \<Rightarrow> string \<Rightarrow> 's \<Rightarrow> integral_fault + 's) \<Rightarrow> 'a reception list \<Rightarrow> 's
     \<Rightarrow> (integral_fault + 's \<times> 'a reception list) option" where
  "OnReceiveAsync handler [] s = None"
| "OnReceiveAsync handler (r # rs) s =
     (case r of
        WouldBlock \<Rightarrow> Some (Inr (s, rs))
      | ReceiveError \<Rightarrow> Some (Inl RuntimeError)
      | Datagram their_addr message \<Rightarrow>
          (case handler their_addr (take kMaxMessageSize message) s of
             Inl e \<Rightarrow> Some (Inl e)
           | Inr s \<Rightarrow> OnReceiveAsync handler rs s))"

section \<open>The handlers\<close>

definition kLeaderMessage :: string where
  "kLeaderMessage = ''Leader''"

text \<open>
  The worker answers every datagram with its port; \<open>can_send\<close> says whether \<open>sendto\<close> succeeds. The
  state is the list of answers.
\<close>

definition answer_discovery ::
    "('a \<Rightarrow> bool) \<Rightarrow> u16 \<Rightarrow> 'a \<Rightarrow> string \<Rightarrow> ('a \<times> string) list \<Rightarrow> integral_fault + ('a \<times> string) list" where
  "answer_discovery can_send workload_port addr data sent_back =
     (if can_send addr then Inr (sent_back @ [(addr, decimal_digits (unat workload_port))])
      else Inl RuntimeError)"

text \<open>
  The leader records a heartbeat for the port in the datagram. \<open>clk\<close> are the readings of the clock, the
  first component of the state the number of readings so far.
\<close>

definition receive_discovery ::
    "(nat \<Rightarrow> int) \<Rightarrow> 'a \<Rightarrow> string \<Rightarrow> nat \<times> (WorkerId, HeartbeatMessage) std_map
     \<Rightarrow> integral_fault + nat \<times> (WorkerId, HeartbeatMessage) std_map" where
  "receive_discovery clk addr data = (\<lambda>(k, updates).
     if data = kLeaderMessage then Inr (k, updates)
     else case stoi data of
         Inl e \<Rightarrow> Inl (StoiError e)
       | Inr port \<Rightarrow> Inr (Suc k, map_insert (of_int port)
           \<lparr>sequence_number = 0, timestamp = clk k\<rparr> updates))"

section \<open>A batch of answers\<close>

lemma unat_u16: "unat (port :: u16) < 65536"
  using unsigned_less[of port, where 'a = nat] by simp

lemma digits_short: "length (decimal_digits (unat (port :: u16))) \<le> 5"
  using decimal_digits_length[of "unat port" 4] unat_u16[of port] by simp

lemma port_not_leader: "decimal_digits n \<noteq> kLeaderMessage"
proof
  assume "decimal_digits n = kLeaderMessage"
  then have "is_digit CHR ''L''" using decimal_digits_shape[of n] by (simp add: kLeaderMessage_def)
  then show False by (simp add: is_digit_def)
qed

lemma stoi_port: "stoi (decimal_digits (unat (port :: u16))) = Inr (int (unat port))"
  using unat_u16[of port] by (intro stoi_decimal) simp

lemma of_int_port: "(of_int (int (unat (port :: u16))) :: u64) = ucast port"
  by simp

text \<open>The answers of workers, read in one batch, are assigned in the order of arrival.\<close>

definition heartbeats :: "(nat \<Rightarrow> int) \<Rightarrow> nat \<Rightarrow> u16 list \<Rightarrow> (WorkerId \<times> HeartbeatMessage) list" where
  "heartbeats clk k ports = map (\<lambda>(i, port). (ucast port,
     \<lparr>sequence_number = 0, timestamp = clk i\<rparr>)) (enumerate k ports)"

lemma receive_batch:
  "OnReceiveAsync (receive_discovery clk)
     (map (\<lambda>(a, port). Datagram a (decimal_digits (unat port))) answers @ WouldBlock # rs) (k, updates) =
   Some (Inr ((k + length answers,
     fold (\<lambda>(w, hb). map_insert w hb) (heartbeats clk k (map snd answers)) updates), rs))"
proof (induction answers arbitrary: k updates)
  case Nil
  then show ?case by (simp add: heartbeats_def)
next
  case (Cons ap answers)
  obtain a port where ap: "ap = (a, port)" by (cases ap)
  have "take kMaxMessageSize (decimal_digits (unat port)) = decimal_digits (unat port)"
    using digits_short[of port] by (simp add: kMaxMessageSize_def)
  then show ?case
    using Cons.IH[of "Suc k"]
    by (simp add: ap receive_discovery_def port_not_leader stoi_port of_int_port heartbeats_def
        del: of_int_of_nat_eq)
qed

text \<open>Any datagram to the leader that is not its own message and does not begin with a number ends
  the discovery thread with an exception, whatever was received before it.\<close>

lemma discovery_bad_datagram:
  fixes answers :: "('a \<times> u16) list"
  assumes "take kMaxMessageSize message \<noteq> kLeaderMessage"
    and "stoi (take kMaxMessageSize message) = Inl e"
  shows "OnReceiveAsync (receive_discovery clk)
     (map (\<lambda>(a, port). Datagram a (decimal_digits (unat port))) answers @ Datagram a message # rs)
     (k, updates) = Some (Inl (StoiError e))"
proof (induction answers arbitrary: k updates)
  case Nil
  then show ?case using assms by (simp add: receive_discovery_def)
next
  case (Cons ap answers)
  obtain a port where ap: "ap = (a, port)" by (cases ap)
  have "take kMaxMessageSize (decimal_digits (unat port)) = decimal_digits (unat port)"
    using digits_short[of port] by (simp add: kMaxMessageSize_def)
  then show ?case
    using Cons.IH by (simp add: ap receive_discovery_def port_not_leader stoi_port)
qed

section \<open>Properties\<close>

text \<open>C40: Discovery. A worker answers the message of the leader with its port, and the leader that reads
  a batch of such answers knows a heartbeat for exactly the ports that answered, beside the workers it
  knew before; its own broadcast does not count as an answer.\<close>

theorem discovery_roundtrip:
  fixes port :: u16 and answers :: "('a \<times> u16) list"
  shows "OnReceiveAsync (answer_discovery (\<lambda>_. True) port) [Datagram l kLeaderMessage, WouldBlock] [] =
      Some (Inr ([(l, decimal_digits (unat port))], [])) \<and>
    (\<exists>updates'. OnReceiveAsync (receive_discovery clk)
        (Datagram l kLeaderMessage # map (\<lambda>(a, p). Datagram a (decimal_digits (unat p))) answers @
          [WouldBlock]) (k, updates) = Some (Inr ((k + length answers, updates'), [])) \<and>
      set (map_keys updates') = set (map_keys updates) \<union> ucast ` snd ` set answers)"
proof -
  have keys: "set (map_keys (fold (\<lambda>(w, hb). map_insert w hb) kvs m)) = set (map_keys m) \<union> fst ` set kvs"
    for kvs and m :: "(WorkerId, HeartbeatMessage) std_map"
    by (induction kvs arbitrary: m) (auto simp: map_keys_insert)
  have "fst ` set (heartbeats clk k ports) = ucast ` set ports" for ports k
    by (induction ports arbitrary: k) (simp_all add: heartbeats_def)
  then show ?thesis
    using receive_batch[of clk answers "[]" k updates] keys
    by (simp add: answer_discovery_def receive_discovery_def kLeaderMessage_def kMaxMessageSize_def)
qed

end
