(* ===== verification/Leader.thy ===== *)
theory Leader
  imports LeaderTypes "HOL-Library.Product_Lexorder"
begin

text \<open>
  The scheduler of \<open>hw1/src/leader/leader.cpp\<close>: \<open>Leader::GetResult\<close> and one round of
  \<open>Leader::RunOverWorkers\<close>, step by step. What the system calls of a round return is its input: the
  result of \<open>socket\<close> and \<open>connect\<close> for each new worker, of \<open>poll\<close>, and for each slot of the poll
  array the events and the outcome of \<open>recv\<close> and \<open>send\<close>. The two mutexes make the hand-over of
  heartbeats and queries atomic, so the other threads act between rounds.
\<close>

section \<open>Queries\<close>

definition GetResult :: "'d Double \<Rightarrow> 'd \<Rightarrow> 'd \<Rightarrow> 'd Leader \<Rightarrow> 'd \<times> 'd Leader" where
  "GetResult D a b L = (d_of_int D 0, L\<lparr>new_tasks := new_tasks L @ [(a, b)]\<rparr>)"

definition slices :: nat where
  "slices = 10"

definition slice :: "'d Double \<Rightarrow> 'd \<Rightarrow> 'd \<Rightarrow> nat \<Rightarrow> 'd Task" where
  "slice D a b i =
     (let w = d_div D (d_sub D b a) (d_of_int D (int slices))
      in \<lparr>task_a = d_add D a (d_mul D w (d_of_int D (int i))),
          task_b = d_add D a (d_mul D w (d_of_int D (int (i + 1))))\<rparr>)"

definition make_query :: "'d Double \<Rightarrow> QueryId \<Rightarrow> 'd \<times> 'd \<Rightarrow> 'd QueryInfo" where
  "make_query D qid ab =
     (case ab of (a, b) \<Rightarrow>
        \<lparr>query_id = qid, query_result = d_of_int D 0, all_tasks = map (slice D a b) [0..<slices],
         tasks_in_progress = [], tasks_to_do = fold (\<lambda>i. set_insert (of_nat i)) [0..<slices] []\<rparr>)"

definition take_query :: "'d Double \<Rightarrow> 'd \<times> 'd \<Rightarrow> 'd Leader \<Rightarrow> 'd Leader" where
  "take_query D ab L = L\<lparr>queries := queries L @ [make_query D (of_nat (length (queries L))) ab]\<rparr>"

definition take_queries :: "'d Double \<Rightarrow> 'd Leader \<Rightarrow> 'd Leader" where
  "take_queries D L = fold (take_query D) (new_tasks L) (L\<lparr>new_tasks := []\<rparr>)"

section \<open>New workers\<close>

datatype connect_result = Connected | ConnectInProgress | ConnectFailed

function next_unused :: "int list \<Rightarrow> nat \<Rightarrow> nat" where
  "next_unused fds unused_id =
     (if unused_id < length fds \<and> fds ! unused_id \<noteq> - 1 then next_unused fds (unused_id + 1)
      else unused_id)"
  by auto
termination by (relation "measure (\<lambda>(fds, u). length fds - u)") auto

declare next_unused.simps [simp del]

definition add_worker ::
    "(WorkerId \<Rightarrow> int \<times> connect_result) \<Rightarrow> WorkerId \<times> HeartbeatMessage \<Rightarrow> nat \<times> 'd Leader
     \<Rightarrow> integral_fault + nat \<times> 'd Leader" where
  "add_worker sockets = (\<lambda>(wid, hb) (unused_id, L).
     case map_find (known_workers L) wid of
       Some info \<Rightarrow>
         Inr (unused_id, L\<lparr>known_workers :=
           map_insert wid (info\<lparr>last_heartbeat := hb\<rparr>) (known_workers L)\<rparr>)
     | None \<Rightarrow>
         let unused_id = next_unused (worker_fds L) unused_id in
         if unused_id = length (worker_fds L) then Inr (unused_id, L)
         else
           let info = \<lparr>last_heartbeat = hb, worker_id = wid, position_in_buffer = of_nat unused_id,
                       assigned_tasks = []\<rparr>;
               (fd, res) = sockets wid;
               L = L\<lparr>worker_fds := (worker_fds L)[unused_id := fd]\<rparr>
           in if fd = - 1 then Inl RuntimeError
              else
                let L = L\<lparr>known_workers := map_insert wid info (known_workers L)\<rparr>
                in if res = ConnectFailed then Inl RuntimeError else Inr (unused_id + 1, L))"

section \<open>Removal of workers\<close>

text \<open>The check of the heartbeat times is commented out in the code.\<close>

definition workers_to_remove :: "'d Leader \<Rightarrow> WorkerId list" where
  "workers_to_remove L =
     remdups_adj (sort (filter (\<lambda>w. map_find (known_workers L) w \<noteq> None) (wid_to_delete L)))"

definition remove_worker ::
    "WorkerId \<Rightarrow> (QueryId \<times> TaskId) list \<times> 'd Leader
     \<Rightarrow> integral_fault + (QueryId \<times> TaskId) list \<times> 'd Leader" where
  "remove_worker wid = (\<lambda>(pending, L).
     case map_find (known_workers L) wid of
       None \<Rightarrow> Inl KeyMissing
     | Some info \<Rightarrow>
         let p = unat (position_in_buffer info) in
         if p < length (worker_fds L) then
           Inr (pending @ assigned_tasks info,
             L\<lparr>closed_fds := closed_fds L @ [worker_fds L ! p],
               worker_fds := (worker_fds L)[p := - 1],
               known_workers := map_erase wid (known_workers L),
               requests := filter (\<lambda>(w, _). w \<noteq> wid) (requests L)\<rparr>)
         else Inl UndefinedBehaviour)"

definition with_query ::
    "QueryId \<Rightarrow> ('d QueryInfo \<Rightarrow> 'd QueryInfo) \<Rightarrow> 'd Leader \<Rightarrow> integral_fault + 'd Leader" where
  "with_query qid f L =
     (if unat qid < length (queries L)
      then Inr (L\<lparr>queries := (queries L)[unat qid := f (queries L ! unat qid)]\<rparr>)
      else Inl UndefinedBehaviour)"

text \<open>Without workers the tasks of the removed ones go back to their queries.\<close>

definition return_task :: "QueryId \<times> TaskId \<Rightarrow> 'd Leader \<Rightarrow> integral_fault + 'd Leader" where
  "return_task qt L =
     (case qt of (qid, tid) \<Rightarrow>
        if known_workers L = [] then
          with_query qid (\<lambda>q. q\<lparr>tasks_in_progress := set_erase tid (tasks_in_progress q),
            tasks_to_do := set_insert tid (tasks_to_do q)\<rparr>) L
        else Inr L)"

section \<open>Assignment of tasks\<close>

text \<open>The loop over the queries: the tasks to do are collected, and the two sets are swapped.\<close>

fun collect_tasks ::
    "'d QueryInfo list \<Rightarrow> (QueryId \<times> TaskId) list \<Rightarrow> 'd QueryInfo list \<times> (QueryId \<times> TaskId) list" where
  "collect_tasks [] pending = ([], pending)"
| "collect_tasks (q # qs) pending =
     (let (q, pending) =
        (if tasks_to_do q \<noteq> [] then
           (q\<lparr>tasks_to_do := tasks_in_progress q, tasks_in_progress := tasks_to_do q\<rparr>,
            pending @ map (\<lambda>t. (query_id q, t)) (tasks_to_do q))
         else (q, pending));
          (qs, pending) = collect_tasks qs pending
      in (q # qs, pending))"

definition worker_loads :: "'d Leader \<Rightarrow> (u32 \<times> WorkerId) std_set" where
  "worker_loads L =
     fold (\<lambda>(wid, info). set_insert (of_nat (length (assigned_tasks info)), wid)) (known_workers L) []"

definition assign_task ::
    "QueryId \<times> TaskId \<Rightarrow> (u32 \<times> WorkerId) std_set \<times> 'd Leader
     \<Rightarrow> integral_fault + (u32 \<times> WorkerId) std_set \<times> 'd Leader" where
  "assign_task qt = (\<lambda>(workers, L).
     case workers of
       [] \<Rightarrow> Inl UndefinedBehaviour
     | (sz, wid) # workers \<Rightarrow>
         let sz = sz + 1;
             (info, known) = map_subscript default_WorkerInfo wid (known_workers L);
             info = info\<lparr>assigned_tasks := assigned_tasks info @ [qt]\<rparr>
         in Inr (set_insert (sz, wid) workers, L\<lparr>known_workers := map_insert wid info known\<rparr>))"

definition reassign ::
    "(QueryId \<times> TaskId) list \<Rightarrow> 'd Leader \<Rightarrow> integral_fault + (u32 \<times> WorkerId) std_set \<times> 'd Leader" where
  "reassign pending L =
     (if known_workers L \<noteq> [] then
        let (qs, pending) = collect_tasks (queries L) pending;
            L = L\<lparr>queries := qs\<rparr>
        in fold_res assign_task pending (worker_loads L, L)
      else Inr ([], L))"

section \<open>The pass over the poll array\<close>

record 'd SlotInput =
  hangup :: bool
  readable :: bool
  writable :: bool
  reply :: "string option"
  reply_garbage :: "'d \<times> QueryId \<times> TaskId"
  send_ok :: bool

definition slot_worker :: "nat \<Rightarrow> 'd Leader \<Rightarrow> WorkerId" where
  "slot_worker i L =
     (case List.find (\<lambda>(wid, info). unat (position_in_buffer info) = i) (known_workers L) of
        Some (wid, info) \<Rightarrow> wid
      | None \<Rightarrow> of_nat (length (worker_fds L)))"

definition drop_connection :: "WorkerId \<Rightarrow> int \<Rightarrow> 'd Leader \<Rightarrow> 'd Leader" where
  "drop_connection wid fd L =
     L\<lparr>wid_to_delete := wid_to_delete L @ [wid], closed_fds := closed_fds L @ [fd]\<rparr>"

text \<open>\<open>ss >> result; ss >> qid >> tid\<close>\<close>

definition parse_reply ::
    "'d Double \<Rightarrow> 'd \<times> QueryId \<times> TaskId \<Rightarrow> string \<Rightarrow> 'd \<times> QueryId \<times> TaskId" where
  "parse_reply D garbage text =
     (let (res, qid, tid) = garbage;
          (res, stream) = stream_get (d_scan D) res (Some text);
          (qid, stream) = stream_get scan_unsigned qid stream;
          (tid, stream) = stream_get scan_unsigned tid stream
      in (res, qid, tid))"

definition accept_reply ::
    "'d Double \<Rightarrow> WorkerId \<Rightarrow> 'd \<times> QueryId \<times> TaskId \<Rightarrow> 'd Leader \<Rightarrow> integral_fault + 'd Leader" where
  "accept_reply D wid rqt L =
     (case rqt of (res, qid, tid) \<Rightarrow>
        if \<not> unat qid < length (queries L) then Inl UndefinedReply
        else if tid \<in> set (tasks_in_progress (queries L ! unat qid)) then
          let (info, known) = map_subscript default_WorkerInfo wid (known_workers L)
          in if assigned_tasks info = [] then Inl UndefinedReply
             else
               with_query qid (\<lambda>q. q\<lparr>query_result := d_add D (query_result q) res,
                   tasks_in_progress := set_erase tid (tasks_in_progress q)\<rparr>)
                 (L\<lparr>known_workers :=
                      map_insert wid (info\<lparr>assigned_tasks := tl (assigned_tasks info)\<rparr>) known,
                    accepted := accepted L @ [(qid, tid, res)]\<rparr>)
        else Inr L)"

definition reply_size :: nat where
  "reply_size = 1024"

definition receive_reply ::
    "'d Double \<Rightarrow> WorkerId \<Rightarrow> int \<Rightarrow> 'd SlotInput \<Rightarrow> 'd Leader \<Rightarrow> integral_fault + 'd Leader" where
  "receive_reply D wid fd inp L =
     (case reply inp of
        None \<Rightarrow> Inr (drop_connection wid fd L)
      | Some text \<Rightarrow>
          accept_reply D wid (parse_reply D (reply_garbage inp) (take reply_size text)) L)"

text \<open>\<open>oss << a << ' ' << b << ' ' << qid << ' ' << tid\<close>\<close>

definition request_text :: "'d Double \<Rightarrow> 'd Task \<Rightarrow> QueryId \<Rightarrow> TaskId \<Rightarrow> string" where
  "request_text D task qid tid =
     d_print D (task_a task) @ '' '' @ d_print D (task_b task) @ '' '' @ print_unsigned qid @
     '' '' @ print_unsigned tid"

text \<open>The bytes of a request that is sent are those of \<open>request_text\<close>; the history keeps its ids.\<close>

definition send_request ::
    "'d Double \<Rightarrow> WorkerId \<Rightarrow> int \<Rightarrow> 'd SlotInput \<Rightarrow> 'd Leader \<Rightarrow> integral_fault + 'd Leader" where
  "send_request D wid fd inp L =
     (let (info, known) = map_subscript default_WorkerInfo wid (known_workers L);
          L = L\<lparr>known_workers := known\<rparr>
      in case assigned_tasks info of
           [] \<Rightarrow> Inr L
         | (qid, tid) # _ \<Rightarrow>
             if unat qid < length (queries L) \<and> unat tid < length (all_tasks (queries L ! unat qid))
             then if send_ok inp then Inr (L\<lparr>requests := requests L @ [(wid, qid, tid)]\<rparr>)
                  else Inr (drop_connection wid fd L)
             else Inl UndefinedBehaviour)"

definition handle_slot ::
    "'d Double \<Rightarrow> (nat \<Rightarrow> 'd SlotInput) \<Rightarrow> nat \<Rightarrow> nat \<Rightarrow> 'd Leader \<Rightarrow> integral_fault + 'd Leader" where
  "handle_slot D slots n_workers i L =
     (let fd = worker_fds L ! i in
      if fd = - 1 then Inr L
      else
        let wid = slot_worker i L; inp = slots i in
        if wid = of_nat n_workers then Inl RuntimeError
        else
          let L = (if hangup inp then drop_connection wid fd L else L)
          in bind_res (if readable inp then receive_reply D wid fd inp L else Inr L) (\<lambda>L.
               if writable inp then send_request D wid fd inp L else Inr L))"

section \<open>A round\<close>

record 'd RoundInput =
  sockets :: "WorkerId \<Rightarrow> int \<times> connect_result"
  poll_ok :: bool
  slots :: "nat \<Rightarrow> 'd SlotInput"

text \<open>The part of the round up to the call of \<open>poll\<close>; the set of loads is used once more after it.\<close>

definition prepare_round ::
    "'d Double \<Rightarrow> 'd RoundInput \<Rightarrow> 'd Leader \<Rightarrow> integral_fault + (u32 \<times> WorkerId) std_set \<times> 'd Leader" where
  "prepare_round D inp L =
     (let upd = hb_updates L;
          L = take_queries D (L\<lparr>hb_updates := []\<rparr>)
      in bind_res (fold_res (add_worker (sockets inp)) upd (0, L)) (\<lambda>(_, L).
         let doomed = workers_to_remove L;
             L = L\<lparr>wid_to_delete := []\<rparr>
         in bind_res (fold_res remove_worker doomed ([], L)) (\<lambda>(pending, L).
            bind_res (fold_res return_task pending L) (\<lambda>L. reassign pending L))))"

definition RunOverWorkers :: "'d Double \<Rightarrow> 'd RoundInput \<Rightarrow> 'd Leader \<Rightarrow> integral_fault + 'd Leader" where
  "RunOverWorkers D inp L =
     bind_res (prepare_round D inp L) (\<lambda>(workers, L).
       if \<not> poll_ok inp then Inl RuntimeError
       else fold_res (handle_slot D (slots inp) (length workers)) [0..<length (worker_fds L)] L)"

section \<open>Runs\<close>

text \<open>Rounds, queries of the user, and heartbeats recorded by the discovery thread.\<close>

datatype 'd LeaderEvent =
    Round "'d RoundInput"
  | Query 'd 'd
  | Heartbeat WorkerId HeartbeatMessage

fun leader_step :: "'d Double \<Rightarrow> 'd LeaderEvent \<Rightarrow> 'd Leader \<Rightarrow> integral_fault + 'd Leader" where
  "leader_step D (Round inp) L = RunOverWorkers D inp L"
| "leader_step D (Query a b) L = Inr (snd (GetResult D a b L))"
| "leader_step D (Heartbeat w hb) L = Inr (L\<lparr>hb_updates := map_insert w hb (hb_updates L)\<rparr>)"

end
