(* ===== verification/IntegralWorker.thy ===== *)
theory IntegralWorker
  imports LeaderTypes
begin

text \<open>
  The worker's side of a connection: \<open>Worker::AcceptIncomingConnection\<close> of \<open>hw1/src/worker/worker.cpp\<close>.
  What the calls \<open>accept\<close>, \<open>recv\<close> and \<open>send\<close> return is given as lists. Results have the type
  \<open>(integral_fault + 'a) option\<close>: \<open>None\<close> is a loop that does not end, or that is still waiting when the
  lists end. The variables of a request that an extraction leaves alone hold \<open>garbage\<close>.
\<close>

definition bind_run :: "(integral_fault + 'a) option \<Rightarrow> ('a \<Rightarrow> (integral_fault + 'b) option)
    \<Rightarrow> (integral_fault + 'b) option" where
  "bind_run m f = (case m of None \<Rightarrow> None | Some (Inl e) \<Rightarrow> Some (Inl e) | Some (Inr x) \<Rightarrow> f x)"

lemma bind_run_simps [simp]:
  "bind_run None f = None" "bind_run (Some (Inl e)) f = Some (Inl e)" "bind_run (Some (Inr x)) f = f x"
  by (simp_all add: bind_run_def)

section \<open>One request\<close>

definition worker_function :: "'d Double \<Rightarrow> 'd \<Rightarrow> 'd" where
  "worker_function D x = d_add D (d_mul D (d_of_int D 2) x) (d_of_int D 5)"

text \<open>\<open>ss >> a >> b; ss >> qid >> tid\<close>\<close>

definition parse_request ::
    "'d Double \<Rightarrow> 'd \<times> 'd \<times> QueryId \<times> TaskId \<Rightarrow> string \<Rightarrow> 'd \<times> 'd \<times> QueryId \<times> TaskId" where
  "parse_request D garbage text =
     (let (a, b, qid, tid) = garbage;
          (a, stream) = stream_get (d_scan D) a (Some text);
          (b, stream) = stream_get (d_scan D) b stream;
          (qid, stream) = stream_get scan_unsigned qid stream;
          (tid, stream) = stream_get scan_unsigned tid stream
      in (a, b, qid, tid))"

text \<open>\<open>oss << result << ' ' << qid << ' ' << tid\<close>\<close>

definition reply_text :: "'d Double \<Rightarrow> 'd \<Rightarrow> QueryId \<Rightarrow> TaskId \<Rightarrow> string" where
  "reply_text D v qid tid = d_print D v @ '' '' @ print_unsigned qid @ '' '' @ print_unsigned tid"

definition handle_request ::
    "'d Double \<Rightarrow> 'd \<times> 'd \<times> QueryId \<times> TaskId \<Rightarrow> string \<Rightarrow> (integral_fault + string) option" where
  "handle_request D garbage text =
     (let (a, b, qid, tid) = parse_request D garbage text
      in bind_run (EvaluateIntegral D a b 100 (worker_function D))
           (\<lambda>v. Some (Inr (reply_text D v qid tid))))"

text \<open>The loop around \<open>send\<close>: each call reports how many of the remaining bytes it took, or -1.\<close>

fun send_all :: "string \<Rightarrow> int list \<Rightarrow> string \<Rightarrow> (integral_fault + string \<times> int list) option" where
  "send_all res [] out = (if res = [] then Some (Inr (out, [])) else None)"
| "send_all res (n # ns) out =
     (if res = [] then Some (Inr (out, n # ns))
      else if n = - 1 then Some (Inl RuntimeError)
      else send_all (drop (nat n) res) ns (out @ take (nat n) res))"

section \<open>Connections\<close>

datatype 'd received =
    Received "'d \<times> 'd \<times> QueryId \<times> TaskId" string
  | RecvAgain
  | RecvClosed
  | RecvFailed

definition kMaxDataBufSize :: nat where
  "kMaxDataBufSize = 1024"

text \<open>
  The inner loop over one connection: \<open>out\<close> are the bytes written to it. A call of \<open>recv\<close> returns at
  most \<open>kMaxDataBufSize\<close> bytes, and each call is taken for one request.
\<close>

fun serve_connection ::
    "'d Double \<Rightarrow> 'd received list \<Rightarrow> int list \<Rightarrow> string
     \<Rightarrow> (integral_fault + string \<times> int list \<times> 'd received list) option" where
  "serve_connection D [] sends out = None"
| "serve_connection D (r # rs) sends out =
     (case r of
        RecvAgain \<Rightarrow> serve_connection D rs sends out
      | RecvFailed \<Rightarrow> Some (Inl RuntimeError)
      | RecvClosed \<Rightarrow> Some (Inr (out, sends, rs))
      | Received garbage bytes \<Rightarrow>
          bind_run (handle_request D garbage (take kMaxDataBufSize bytes)) (\<lambda>res.
            bind_run (send_all res sends out) (\<lambda>(out, sends). serve_connection D rs sends out)))"

datatype accepted_fd = Accepted | AcceptAgain | AcceptFailed

text \<open>
  The loop over \<open>accept\<close> up to its \<open>break\<close>: the outputs of the connections in order. It ends only when
  \<open>accept\<close> would block, which it does not on the blocking socket of the constructor.
\<close>

fun accept_loop ::
    "'d Double \<Rightarrow> accepted_fd list \<Rightarrow> 'd received list \<Rightarrow> int list \<Rightarrow> string list
     \<Rightarrow> (integral_fault + string list) option" where
  "accept_loop D [] rs sends outs = None"
| "accept_loop D (c # cs) rs sends outs =
     (case c of
        AcceptAgain \<Rightarrow> Some (Inr outs)
      | AcceptFailed \<Rightarrow> Some (Inl RuntimeError)
      | Accepted \<Rightarrow>
          bind_run (serve_connection D rs sends []) (\<lambda>(out, sends, rs).
            accept_loop D cs rs sends (outs @ [out])))"

end
