(* ===== verification/Exchange.thy ===== *)
theory Exchange
  imports Leader IntegralWorker
begin

text \<open>
  The text that the leader and a worker of the integral service exchange. \<open>reads_back D rnd x\<close> is what
  the code relies on of the stream operators for \<open>double\<close>: \<open>x\<close> is printed so that it is read back as
  \<open>rnd x\<close> (the default format keeps six digits), up to the end of the text or a blank.
\<close>

section \<open>Round trips\<close>

definition reads_back :: "'d Double \<Rightarrow> ('d \<Rightarrow> 'd) \<Rightarrow> 'd \<Rightarrow> bool" where
  "reads_back D rnd x \<longleftrightarrow> (\<forall>rest. rest = [] \<or> hd rest = CHR '' '' \<longrightarrow>
     d_scan D (d_print D x @ rest) = Extracted (rnd x) rest \<and>
     d_scan D ('' '' @ d_print D x @ rest) = Extracted (rnd x) rest)"

lemma get_double:
  assumes "reads_back D rnd x" and "rest = [] \<or> hd rest = CHR '' ''"
  shows "stream_get (d_scan D) old (Some (d_print D x @ rest)) = (rnd x, Some rest)"
    and "stream_get (d_scan D) old (Some (CHR '' '' # d_print D x @ rest)) = (rnd x, Some rest)"
proof -
  have "d_scan D (d_print D x @ rest) = Extracted (rnd x) rest \<and>
      d_scan D ('' '' @ d_print D x @ rest) = Extracted (rnd x) rest"
    using assms unfolding reads_back_def by blast
  then show "stream_get (d_scan D) old (Some (d_print D x @ rest)) = (rnd x, Some rest)"
    "stream_get (d_scan D) old (Some (CHR '' '' # d_print D x @ rest)) = (rnd x, Some rest)"
    by (simp_all add: stream_get_def)
qed

lemma get_number:
  assumes "rest = [] \<or> hd rest = CHR '' ''"
  shows "stream_get scan_unsigned old (Some (CHR '' '' # print_unsigned w @ rest)) = (w, Some rest)"
  using get_unsigned(2)[of rest old w] assms by auto

lemma parse_request_text:
  assumes "reads_back D rnd (task_a task)" and "reads_back D rnd (task_b task)"
  shows "parse_request D garbage (request_text D task qid tid) =
    (rnd (task_a task), rnd (task_b task), qid, tid)"
  using get_number[of "[]" _ tid]
  by (cases garbage) (simp add: parse_request_def request_text_def get_double[OF assms(1)]
    get_double[OF assms(2)] get_number)

lemma parse_reply_text:
  assumes "reads_back D rnd v"
  shows "parse_reply D garbage (reply_text D v qid tid) = (rnd v, qid, tid)"
  using get_number[of "[]" _ tid]
  by (cases garbage) (simp add: parse_reply_def reply_text_def get_double[OF assms] get_number)

text \<open>
  A slice whose ends are not in order as the worker reads them ends the worker: the check of
  \<open>EvaluateIntegral\<close> throws in its thread. Rounding can bring the ends of a slice together.
\<close>

lemma reversed_request:
  assumes "reads_back D rnd (task_a task)" and "reads_back D rnd (task_b task)"
    and "\<not> d_less D (rnd (task_a task)) (rnd (task_b task))"
    and "length (request_text D task qid tid) \<le> kMaxDataBufSize"
  shows "serve_connection D (Received garbage (request_text D task qid tid) # rs) sends out =
    Some (Inl RuntimeError)"
  using assms(3,4) by (simp add: handle_request_def parse_request_text[OF assms(1,2)] EvaluateIntegral_def)

text \<open>A reply is written out however the calls of \<open>send\<close> cut it.\<close>

lemma send_all_parts:
  "\<forall>n\<in>set ns. 0 < n \<Longrightarrow> sum_list ns = int (length res) \<Longrightarrow>
   send_all res ns out = Some (Inr (out @ res, []))"
proof (induction res ns out rule: send_all.induct)
  case (1 res out)
  then show ?case by simp
next
  case (2 res n ns out)
  have "0 \<le> sum_list ns" using 2(2) by (intro sum_list_nonneg) (auto intro: less_imp_le)
  then have sum: "n \<le> int (length res)" "sum_list ns = int (length (drop (nat n) res))"
    using 2(2,3) by auto
  have n: "0 < n" using 2(2) by simp
  then have "res \<noteq> []" using sum(1) by auto
  then have "send_all res (n # ns) out = send_all (drop (nat n) res) ns (out @ take (nat n) res)"
    using n by simp
  also have "\<dots> = Some (Inr ((out @ take (nat n) res) @ drop (nat n) res, []))"
    using 2(2) sum(2) n \<open>res \<noteq> []\<close> by (intro 2(1)) simp_all
  finally show ?case by simp
qed

section \<open>Merged replies\<close>

lemma digits_value_snoc: "digits_value (ds @ [d]) = 10 * digits_value ds + (of_char d - 48)"
  by (simp add: digits_value_def)

lemma digits_value_append: "digits_value (ds @ es) = digits_value ds * 10 ^ length es + digits_value es"
proof (induction es rule: rev_induct)
  case Nil
  then show ?case by (simp add: digits_value_def)
next
  case (snoc e es)
  then show ?case
    unfolding append_assoc[symmetric] digits_value_snoc by (simp add: distrib_left)
qed

text \<open>
  Nothing separates two replies on a connection: when one \<open>recv\<close> returns both, the digits of the second
  result continue the number of the first task.
\<close>

lemma merged_replies:
  fixes tid :: TaskId
  assumes "reads_back D rnd v" and "d_print D v' = decimal_digits m"
  defines "n \<equiv> unat tid * 10 ^ length (decimal_digits m) + m"
  assumes "n < 2 ^ 64"
  shows "parse_reply D garbage (reply_text D v qid tid @ reply_text D v' qid' tid') = (rnd v, qid, of_nat n)"
proof -
  let ?rest = "'' '' @ print_unsigned qid' @ '' '' @ print_unsigned tid'"
  have "split_number ((decimal_digits (unat tid) @ decimal_digits m) @ ?rest) =
      (False, decimal_digits (unat tid) @ decimal_digits m, ?rest)"
    using decimal_digits_shape[of m] decimal_digits_shape[of "unat tid"]
    by (intro split_number_digits) (auto simp: is_digit_def)
  moreover obtain d ds where ds: "decimal_digits (unat tid) @ decimal_digits m = d # ds" "is_digit d"
    using decimal_digits_shape[of "unat tid"] by (cases "decimal_digits (unat tid)") auto
  moreover have "digits_value (d # ds) = n"
    unfolding ds(1)[symmetric] by (simp add: digits_value_append n_def)
  ultimately have "stream_get scan_unsigned old (Some (CHR '' '' # (d # ds) @ ?rest)) =
      (of_nat n :: TaskId, Some ?rest)" for old
    using assms(4) digit_no_space by (simp add: stream_get_def scan_unsigned_def)
  then have "stream_get scan_unsigned old (Some (CHR '' '' # decimal_digits (unat tid) @ decimal_digits m @ ?rest)) =
      (of_nat n :: TaskId, Some ?rest)" for old
    unfolding ds(1)[symmetric] by simp
  then show ?thesis
    by (cases garbage) (simp add: parse_reply_def reply_text_def get_double[OF assms(1)] get_number
      assms(2) print_unsigned_def[of tid])
qed

end
