(* ===== verification/LeaderInv.thy ===== *)
theory LeaderInv
  imports Leader "HOL-Library.Multiset"
begin

text \<open>
  The invariant of the scheduler. Slots: the open descriptors of the poll array and the known workers
  are in one-to-one correspondence. Queries: each of the slices of a query is to do, in progress or
  answered, and the result of the query is the sum of its answers, in their order. Tasks: the tasks
  assigned to the workers are exactly the tasks in progress, each once. Requests: what was sent on a
  connection that is still open is the first task of its worker or an answered one. In the middle of a
  round some tasks in progress are \<open>pending\<close>: taken from removed workers or from queries and not yet
  assigned.
\<close>

section \<open>The invariant\<close>

definition tasks_of :: "(WorkerId, WorkerInfo) std_map \<Rightarrow> (QueryId \<times> TaskId) list" where
  "tasks_of m = concat (map (\<lambda>(w, info). assigned_tasks info) m)"

definition busy :: "'d Leader \<Rightarrow> (QueryId \<times> TaskId) set" where
  "busy L = {(q, t). unat q < length (queries L) \<and> t \<in> set (tasks_in_progress (queries L ! unat q))}"

definition finished :: "'d Leader \<Rightarrow> QueryId \<times> TaskId \<Rightarrow> bool" where
  "finished L = (\<lambda>(q, t). unat q < length (queries L) \<and>
     t \<notin> set (tasks_in_progress (queries L ! unat q)) \<and> t \<notin> set (tasks_to_do (queries L ! unat q)))"

definition answers :: "'d Leader \<Rightarrow> nat \<Rightarrow> (QueryId \<times> TaskId \<times> 'd) list" where
  "answers L i = filter (\<lambda>(q, t, r). unat q = i) (accepted L)"

definition total :: "'d Double \<Rightarrow> (QueryId \<times> TaskId \<times> 'd) list \<Rightarrow> 'd" where
  "total D xs = foldl (\<lambda>s (q, t, r). d_add D s r) (d_of_int D 0) xs"

text \<open>Answered, in progress, to do: the slices of a query.\<close>

definition three_parts :: "TaskId set \<Rightarrow> TaskId set \<Rightarrow> TaskId set \<Rightarrow> bool" where
  "three_parts A I T \<longleftrightarrow> I \<inter> T = {} \<and> A \<inter> (I \<union> T) = {} \<and> A \<union> I \<union> T = {t. unat t < slices}"

lemma three_parts_moves:
  "three_parts A I T \<Longrightarrow> three_parts A T I"
  "three_parts A I T \<Longrightarrow> t \<in> I \<Longrightarrow> three_parts A (I - {t}) (insert t T)"
  "three_parts A I T \<Longrightarrow> t \<in> I \<Longrightarrow> three_parts (insert t A) (I - {t}) T"
  unfolding three_parts_def by blast+

definition query_ok :: "'d Double \<Rightarrow> (QueryId \<times> TaskId \<times> 'd) list \<Rightarrow> nat \<Rightarrow> 'd QueryInfo \<Rightarrow> bool" where
  "query_ok D ans i q \<longleftrightarrow> query_id q = of_nat i \<and> length (all_tasks q) = slices \<and>
     set_ok (tasks_in_progress q) \<and> set_ok (tasks_to_do q) \<and>
     distinct (map (\<lambda>(q, t, r). t) ans) \<and>
     three_parts ((\<lambda>(q, t, r). t) ` set ans) (set (tasks_in_progress q)) (set (tasks_to_do q)) \<and>
     query_result q = total D ans"

definition queries_ok :: "'d Double \<Rightarrow> 'd Leader \<Rightarrow> bool" where
  "queries_ok D L \<longleftrightarrow> length (queries L) \<le> 2 ^ 32 \<and>
     (\<forall>i<length (queries L). query_ok D (answers L i) i (queries L ! i)) \<and>
     (\<forall>(q, t, r)\<in>set (accepted L). unat q < length (queries L))"

definition exclusive :: "'d Leader \<Rightarrow> bool" where
  "exclusive L \<longleftrightarrow> (\<forall>q\<in>set (queries L). tasks_in_progress q = [] \<or> tasks_to_do q = [])"

definition slots_ok :: "'d Leader \<Rightarrow> bool" where
  "slots_ok L \<longleftrightarrow> map_ok (known_workers L) \<and> length (worker_fds L) < 2 ^ 32 \<and>
     (\<forall>w info. map_find (known_workers L) w = Some info \<longrightarrow>
        unat (position_in_buffer info) < length (worker_fds L) \<and>
        worker_fds L ! unat (position_in_buffer info) \<noteq> - 1) \<and>
     (\<forall>w info w' info'. map_find (known_workers L) w = Some info \<longrightarrow>
        map_find (known_workers L) w' = Some info' \<longrightarrow>
        position_in_buffer info = position_in_buffer info' \<longrightarrow> w = w') \<and>
     (\<forall>i<length (worker_fds L). worker_fds L ! i \<noteq> - 1 \<longrightarrow>
        (\<exists>w info. map_find (known_workers L) w = Some info \<and> unat (position_in_buffer info) = i))"

lemma slots_okD:
  assumes "slots_ok L"
  shows "map_ok (known_workers L)" "length (worker_fds L) < 2 ^ 32"
    "map_find (known_workers L) w = Some info \<Longrightarrow>
       unat (position_in_buffer info) < length (worker_fds L) \<and>
       worker_fds L ! unat (position_in_buffer info) \<noteq> - 1"
    "map_find (known_workers L) w = Some info \<Longrightarrow> map_find (known_workers L) w' = Some info' \<Longrightarrow>
       position_in_buffer info = position_in_buffer info' \<Longrightarrow> w = w'"
    "i < length (worker_fds L) \<Longrightarrow> worker_fds L ! i \<noteq> - 1 \<Longrightarrow>
       \<exists>w info. map_find (known_workers L) w = Some info \<and> unat (position_in_buffer info) = i"
  using assms unfolding slots_ok_def by blast+

lemma slots_okI:
  assumes "map_ok (known_workers L)" "length (worker_fds L) < 2 ^ 32"
    and "\<And>w info. map_find (known_workers L) w = Some info \<Longrightarrow>
       unat (position_in_buffer info) < length (worker_fds L) \<and>
       worker_fds L ! unat (position_in_buffer info) \<noteq> - 1"
    and "\<And>w info w' info'. map_find (known_workers L) w = Some info \<Longrightarrow>
       map_find (known_workers L) w' = Some info' \<Longrightarrow>
       position_in_buffer info = position_in_buffer info' \<Longrightarrow> w = w'"
    and "\<And>i. i < length (worker_fds L) \<Longrightarrow> worker_fds L ! i \<noteq> - 1 \<Longrightarrow>
       \<exists>w info. map_find (known_workers L) w = Some info \<and> unat (position_in_buffer info) = i"
  shows "slots_ok L"
  using assms unfolding slots_ok_def by blast

definition requests_ok :: "'d Leader \<Rightarrow> bool" where
  "requests_ok L \<longleftrightarrow> (\<forall>(w, q, t)\<in>set (requests L). \<exists>info. map_find (known_workers L) w = Some info \<and>
     ((\<exists>ts. assigned_tasks info = (q, t) # ts) \<or> finished L (q, t)))"

definition assigned_ok :: "(QueryId \<times> TaskId) list \<Rightarrow> 'd Leader \<Rightarrow> bool" where
  "assigned_ok pending L \<longleftrightarrow>
     mset (tasks_of (known_workers L)) + mset pending = mset_set (busy L)"

definition round_ok :: "'d Double \<Rightarrow> (QueryId \<times> TaskId) list \<Rightarrow> 'd Leader \<Rightarrow> bool" where
  "round_ok D pending L \<longleftrightarrow> slots_ok L \<and> queries_ok D L \<and> requests_ok L \<and> assigned_ok pending L"

definition leader_ok :: "'d Double \<Rightarrow> 'd Leader \<Rightarrow> bool" where
  "leader_ok D L \<longleftrightarrow> round_ok D [] L \<and> exclusive L"

lemma finite_tasks [simp]: "finite (B :: (QueryId \<times> TaskId) set)"
  by simp

section \<open>The map of workers\<close>

lemma tasks_of_simps [simp]:
  "tasks_of [] = []" "tasks_of ((w, info) # m) = assigned_tasks info @ tasks_of m"
  by (simp_all add: tasks_of_def)

lemma tasks_of_insert:
  "map_ok m \<Longrightarrow> mset (tasks_of (map_insert w v m)) +
     (case map_find m w of None \<Rightarrow> {#} | Some info \<Rightarrow> mset (assigned_tasks info)) =
   mset (tasks_of m) + mset (assigned_tasks v)"
proof (induction w v m rule: map_insert.induct)
  case (1 w v)
  then show ?case by simp
next
  case (2 w v w' v' m)
  have "map_find m w = None" if "w < w'"
    using 2(2) that by (auto simp: map_find_None_iff)
  then show ?case using 2 by (auto simp: map_find_Cons ac_simps)
qed

lemma tasks_of_erase:
  "map_ok m \<Longrightarrow> map_find m w = Some info \<Longrightarrow>
     mset (tasks_of (map_erase w m)) + mset (assigned_tasks info) = mset (tasks_of m)"
  by (induction w m rule: map_erase.induct) (auto simp: map_find_Cons ac_simps split: if_splits)

section \<open>New queries\<close>

lemma exclusive_append: "exclusive (L\<lparr>queries := queries L @ [q]\<rparr>) \<longleftrightarrow>
  exclusive L \<and> (tasks_in_progress q = [] \<or> tasks_to_do q = [])"
  by (auto simp: exclusive_def)

lemma fresh_query:
  "set (tasks_to_do (make_query D q ab)) = {t. unat t < slices}"
  "set_ok (tasks_to_do (make_query D q ab))" "tasks_in_progress (make_query D q ab) = []"
  "query_id (make_query D q ab) = q" "length (all_tasks (make_query D q ab)) = slices"
  "query_result (make_query D q ab) = d_of_int D 0"
proof -
  have ok: "set_ok (fold (\<lambda>i. set_insert (of_nat i :: TaskId)) is s)" if "set_ok s" for "is" s
    using that by (induction "is" arbitrary: s) auto
  have elems: "set (fold (\<lambda>i. set_insert (of_nat i :: TaskId)) is s) = of_nat ` set is \<union> set s"
    for "is" and s :: "TaskId std_set"
    by (induction "is" arbitrary: s) auto
  have "(of_nat :: nat \<Rightarrow> TaskId) ` {0..<slices} = {t. unat t < slices}"
  proof (intro equalityI subsetI)
    fix t :: TaskId assume "t \<in> {t. unat t < slices}"
    then show "t \<in> of_nat ` {0..<slices}"
      by (intro image_eqI[of _ _ "unat t"]) simp_all
  qed (auto simp: slices_def unat_of_nat_small)
  then show "set (tasks_to_do (make_query D q ab)) = {t. unat t < slices}"
    by (simp add: make_query_def elems split: prod.split)
  show "set_ok (tasks_to_do (make_query D q ab))"
    by (simp add: make_query_def ok split: prod.split)
qed (simp_all add: make_query_def split: prod.split)

lemma take_query_ok:
  assumes "leader_ok D L" and "length (queries L) < 2 ^ 32"
  shows "leader_ok D (take_query D ab L)"
proof -
  let ?q = "make_query D (of_nat (length (queries L))) ab" and ?L = "take_query D ab L"
  note ok = assms(1)[unfolded leader_ok_def round_ok_def]
  have qs: "queries ?L = queries L @ [?q]" "known_workers ?L = known_workers L"
    "requests ?L = requests L" "accepted ?L = accepted L" "worker_fds ?L = worker_fds L"
    by (simp_all add: take_query_def)
  have "answers L (length (queries L)) = []"
    using ok by (auto simp: answers_def queries_ok_def filter_empty_conv)
  then have new: "query_ok D (answers L (length (queries L))) (length (queries L)) ?q"
    by (simp add: query_ok_def fresh_query total_def three_parts_def)
  have "answers ?L i = answers L i" for i by (simp add: answers_def qs)
  then have "queries_ok D ?L"
    using ok new assms(2) by (auto simp: queries_ok_def qs nth_append less_Suc_eq)
  moreover have "busy ?L = busy L"
    using fresh_query(3)[of D "of_nat (length (queries L))" ab]
    by (auto simp: busy_def qs nth_append less_Suc_eq)
  moreover have "finished ?L (q, t)" if "finished L (q, t)" for q t
    using that by (simp add: finished_def qs nth_append)
  moreover have "exclusive ?L"
    using ok assms(1) by (simp add: take_query_def exclusive_append leader_ok_def fresh_query(3))
  ultimately show ?thesis
    using ok unfolding leader_ok_def round_ok_def requests_ok_def assigned_ok_def slots_ok_def qs
    by fastforce
qed

lemma take_queries_ok:
  assumes "leader_ok D L" and "length (queries L) + length (new_tasks L) \<le> 2 ^ 32"
  shows "leader_ok D (take_queries D L)"
proof -
  have "leader_ok D (fold (take_query D) abs L)" if "leader_ok D L"
    "length (queries L) + length abs \<le> 2 ^ 32" for abs and L :: "'a Leader"
    using that
  proof (induction abs arbitrary: L)
    case Nil
    then show ?case by simp
  next
    case (Cons ab abs)
    have "leader_ok D (take_query D ab L)" using Cons.prems by (intro take_query_ok) simp_all
    then show ?case using Cons by (simp add: take_query_def)
  qed
  moreover have "leader_ok D (L\<lparr>new_tasks := []\<rparr>)"
    using assms(1)
    by (simp add: leader_ok_def round_ok_def slots_ok_def queries_ok_def requests_ok_def assigned_ok_def
        exclusive_def answers_def busy_def finished_def)
  ultimately show ?thesis using assms(2) by (simp add: take_queries_def)
qed

section \<open>Frames\<close>

text \<open>The invariant reads five fields; \<open>same_queries\<close> leaves those of the queries alone.\<close>

lemma round_ok_frame:
  assumes "known_workers L' = known_workers L" "queries L' = queries L" "requests L' = requests L"
    "accepted L' = accepted L" "worker_fds L' = worker_fds L"
  shows "round_ok D p L' = round_ok D p L" "leader_ok D L' = leader_ok D L"
    "exclusive L' = exclusive L"
  using assms
  by (simp_all add: leader_ok_def round_ok_def slots_ok_def queries_ok_def requests_ok_def
      assigned_ok_def exclusive_def answers_def busy_def finished_def)

lemma slots_ok_frame:
  "known_workers L' = known_workers L \<Longrightarrow> worker_fds L' = worker_fds L \<Longrightarrow> slots_ok L' = slots_ok L"
  by (simp add: slots_ok_def)

definition same_queries :: "'d Leader \<Rightarrow> 'd Leader \<Rightarrow> bool" where
  "same_queries L L' \<longleftrightarrow> queries L' = queries L \<and> accepted L' = accepted L"

lemma same_queries_ok:
  assumes "same_queries L L'"
  shows "queries_ok D L' = queries_ok D L" "exclusive L' = exclusive L" "busy L' = busy L"
    "finished L' = finished L"
  using assms
  by (simp_all add: same_queries_def queries_ok_def exclusive_def busy_def finished_def answers_def)

section \<open>New workers\<close>

lemma next_unused_spec:
  "u \<le> length fds \<Longrightarrow> next_unused fds u \<le> length fds \<and>
     (next_unused fds u < length fds \<longrightarrow> fds ! next_unused fds u = - 1)"
proof (induction fds u rule: next_unused.induct)
  case (1 fds u)
  then show ?case by (subst (1 2 3) next_unused.simps) (auto simp: next_unused.simps[of fds u])
qed

lemma unat_position: "u < length fds \<Longrightarrow> length fds < 2 ^ 32 \<Longrightarrow> unat (of_nat u :: u32) = u"
  by (simp add: unat_of_nat take_bit_nat_eq_self)

text \<open>A worker that is known keeps its slot and its requests.\<close>

definition keeps_workers :: "'d Leader \<Rightarrow> 'd Leader \<Rightarrow> bool" where
  "keeps_workers L L' \<longleftrightarrow> length (worker_fds L') = length (worker_fds L) \<and> requests L' = requests L \<and>
     (\<forall>w info. map_find (known_workers L) w = Some info \<longrightarrow>
        (\<exists>info'. map_find (known_workers L') w = Some info' \<and>
           position_in_buffer info' = position_in_buffer info))"

interpretation workers_run: run_relation keeps_workers
  by unfold_locales (auto simp: keeps_workers_def, metis)

lemma update_worker_ok:
  assumes "slots_ok L" and "map_find (known_workers L) w = Some info"
    and "position_in_buffer info' = position_in_buffer info"
  shows "slots_ok (L\<lparr>known_workers := map_insert w info' (known_workers L)\<rparr>)"
proof -
  let ?L = "L\<lparr>known_workers := map_insert w info' (known_workers L)\<rparr>"
  note ok = slots_okD[OF assms(1)]
  have old: "\<exists>j0. map_find (known_workers L) v = Some j0 \<and> position_in_buffer j0 = position_in_buffer j"
    if "map_find (known_workers ?L) v = Some j" for v j
    using that assms(2,3) by (auto split: if_splits)
  show ?thesis
  proof (rule slots_okI)
    fix i assume "i < length (worker_fds ?L)" "worker_fds ?L ! i \<noteq> - 1"
    then obtain v j where v: "map_find (known_workers L) v = Some j" "unat (position_in_buffer j) = i"
      using ok(5)[of i] by auto
    then have "map_find (known_workers ?L) v = Some (if v = w then info' else j)" by simp
    then show "\<exists>v j. map_find (known_workers ?L) v = Some j \<and> unat (position_in_buffer j) = i"
      using v assms(2,3) by (intro exI[of _ v]) auto
  next
    fix v j assume "map_find (known_workers ?L) v = Some j"
    from old[OF this] obtain j0 where "map_find (known_workers L) v = Some j0"
      "position_in_buffer j0 = position_in_buffer j" by blast
    then show "unat (position_in_buffer j) < length (worker_fds ?L) \<and>
      worker_fds ?L ! unat (position_in_buffer j) \<noteq> - 1" using ok(3)[of v j0] by simp
  next
    fix v j v' j'
    assume "map_find (known_workers ?L) v = Some j" "map_find (known_workers ?L) v' = Some j'"
      and eq: "position_in_buffer j = position_in_buffer j'"
    from old[OF this(1)] old[OF this(2)] obtain j0 j0' where
      "map_find (known_workers L) v = Some j0" "map_find (known_workers L) v' = Some j0'"
      "position_in_buffer j0 = position_in_buffer j0'" using eq by auto
    then show "v = v'" by (rule ok(4))
  qed (use ok in simp_all)
qed

lemma new_worker_ok:
  assumes "slots_ok L" and "map_find (known_workers L) w = None"
    and u: "u < length (worker_fds L)" "worker_fds L ! u = - 1"
    and "fd \<noteq> - 1" and "position_in_buffer info = of_nat u"
  shows "slots_ok (L\<lparr>worker_fds := (worker_fds L)[u := fd],
    known_workers := map_insert w info (known_workers L)\<rparr>)"
proof -
  let ?L = "L\<lparr>worker_fds := (worker_fds L)[u := fd],
    known_workers := map_insert w info (known_workers L)\<rparr>"
  note ok = slots_okD[OF assms(1)]
  have pos: "unat (position_in_buffer info) = u"
    using u ok(2) assms(6) by (simp add: unat_position)
  have free: "unat (position_in_buffer j) \<noteq> u" if "map_find (known_workers L) v = Some j" for v j
    using ok(3)[OF that] u(2) by auto
  show ?thesis
  proof (rule slots_okI)
    fix i assume i: "i < length (worker_fds ?L)" "worker_fds ?L ! i \<noteq> - 1"
    show "\<exists>v j. map_find (known_workers ?L) v = Some j \<and> unat (position_in_buffer j) = i"
    proof (cases "i = u")
      case True
      then show ?thesis using pos by (intro exI[of _ w] exI[of _ info]) simp
    next
      case False
      then obtain v j where v: "map_find (known_workers L) v = Some j" "unat (position_in_buffer j) = i"
        using ok(5)[of i] i by auto
      then show ?thesis using assms(2) by (intro exI[of _ v] exI[of _ j]) auto
    qed
  next
    fix v j assume "map_find (known_workers ?L) v = Some j"
    then show "unat (position_in_buffer j) < length (worker_fds ?L) \<and>
      worker_fds ?L ! unat (position_in_buffer j) \<noteq> - 1"
      using ok(3)[of v j] free[of v j] pos u(1) assms(5) by (auto split: if_splits)
  next
    fix v j v' j'
    assume "map_find (known_workers ?L) v = Some j" "map_find (known_workers ?L) v' = Some j'"
      and "position_in_buffer j = position_in_buffer j'"
    then show "v = v'" using ok(4)[of v j v' j'] free[of v j] free[of v' j'] pos
      by (auto split: if_splits)
  qed (use ok in simp_all)
qed

lemma add_worker_ok:
  assumes "leader_ok D L" and "u \<le> length (worker_fds L)"
  shows "post {RuntimeError} (\<lambda>(u', L'). leader_ok D L' \<and> keeps_workers L L' \<and>
    u' \<le> length (worker_fds L')) (add_worker sock (w, hb) (u, L))"
proof -
  note ok = assms(1)[unfolded leader_ok_def round_ok_def]
  have mk: "map_ok (known_workers L)" using ok by (simp add: slots_ok_def)
  show ?thesis
  proof (cases "map_find (known_workers L) w")
    case (Some info)
    let ?i = "info\<lparr>last_heartbeat := hb\<rparr>"
    let ?L = "L\<lparr>known_workers := map_insert w ?i (known_workers L)\<rparr>"
    have "same_queries L ?L" by (simp add: same_queries_def)
    note sq = same_queries_ok[OF this]
    have "slots_ok ?L" using ok Some by (intro update_worker_ok) auto
    moreover have "requests_ok ?L"
      using ok Some unfolding requests_ok_def sq by fastforce
    moreover have "assigned_ok [] ?L"
      using ok tasks_of_insert[OF mk, of w ?i] Some unfolding assigned_ok_def sq by simp
    ultimately have "leader_ok D ?L" using ok sq by (simp add: leader_ok_def round_ok_def)
    moreover have "keeps_workers L ?L" using Some by (simp add: keeps_workers_def)
    ultimately show ?thesis using assms(2) by (simp add: add_worker_def Some)
  next
    case None
    define v where "v = next_unused (worker_fds L) u"
    have v: "v \<le> length (worker_fds L)" "v < length (worker_fds L) \<Longrightarrow> worker_fds L ! v = - 1"
      using next_unused_spec[OF assms(2)] by (auto simp: v_def)
    obtain fd res where sock: "sock w = (fd, res)" by fastforce
    define info where "info = \<lparr>last_heartbeat = hb, worker_id = w, position_in_buffer = of_nat v,
      assigned_tasks = []\<rparr>"
    let ?L = "L\<lparr>worker_fds := (worker_fds L)[v := fd], known_workers := map_insert w info (known_workers L)\<rparr>"
    have "same_queries L ?L" by (simp add: same_queries_def)
    note sq = same_queries_ok[OF this]
    have new: "leader_ok D ?L \<and> keeps_workers L ?L" if "v < length (worker_fds L)" "fd \<noteq> - 1"
    proof
      have "slots_ok ?L"
        using ok None that v(2) by (intro new_worker_ok) (simp_all add: info_def)
      moreover have "requests_ok ?L" using ok None unfolding requests_ok_def sq by fastforce
      moreover have "assigned_ok [] ?L"
        using ok tasks_of_insert[OF mk, of w info] None unfolding assigned_ok_def sq
        by (simp add: info_def)
      ultimately show "leader_ok D ?L" using ok sq by (simp add: leader_ok_def round_ok_def)
      show "keeps_workers L ?L" using None by (auto simp: keeps_workers_def)
    qed
    show ?thesis
    proof (cases "v = length (worker_fds L)")
      case True
      then show ?thesis
        using assms(1) v_def None by (simp add: add_worker_def Let_def workers_run.run_refl)
    next
      case False
      then show ?thesis
        using new v(1) None sock by (simp add: add_worker_def Let_def v_def[symmetric] info_def)
    qed
  qed
qed

lemma add_workers_ok:
  assumes "leader_ok D L"
  shows "post {RuntimeError} (\<lambda>(u, L'). leader_ok D L' \<and> keeps_workers L L')
    (fold_res (add_worker sock) hbs (0, L))"
proof -
  have "post {RuntimeError} (\<lambda>(u, L'). leader_ok D L' \<and> keeps_workers L L' \<and> u \<le> length (worker_fds L'))
      (fold_res (add_worker sock) hbs (0, L))"
  proof (rule post_fold)
    fix x :: "WorkerId \<times> HeartbeatMessage" and uL :: "nat \<times> 'a Leader"
    assume inv: "case uL of (u, L') \<Rightarrow> leader_ok D L' \<and> keeps_workers L L' \<and> u \<le> length (worker_fds L')"
    obtain w hb u M where xu: "x = (w, hb)" "uL = (u, M)" by (cases x; cases uL)
    then have M: "leader_ok D M" "keeps_workers L M" "u \<le> length (worker_fds M)" using inv by simp_all
    show "post {RuntimeError} (\<lambda>(u, L'). leader_ok D L' \<and> keeps_workers L L' \<and>
        u \<le> length (worker_fds L')) (add_worker sock x uL)"
      unfolding xu
      by (rule post_weaken[OF add_worker_ok[OF M(1,3)]]) (auto intro: workers_run.run_trans[OF M(2)])
  qed (simp add: assms workers_run.run_refl)
  then show ?thesis by (rule post_weaken) auto
qed

section \<open>Removal\<close>

text \<open>
  \<open>tracks L0 L\<close>: a worker known in \<open>L0\<close> still has its slot and its requests, or its slot is closed.
\<close>

definition tracks :: "'d Leader \<Rightarrow> 'd Leader \<Rightarrow> bool" where
  "tracks L0 L \<longleftrightarrow> length (worker_fds L) = length (worker_fds L0) \<and>
     (\<forall>w info. map_find (known_workers L0) w = Some info \<longrightarrow>
        worker_fds L ! unat (position_in_buffer info) = - 1 \<or>
        (\<exists>info'. map_find (known_workers L) w = Some info' \<and>
           position_in_buffer info' = position_in_buffer info \<and>
           (\<forall>qt. (w, qt) \<in> set (requests L0) \<longrightarrow> (w, qt) \<in> set (requests L))))"

lemma tracks_keeps: "keeps_workers L0 L \<Longrightarrow> tracks L0 L"
  unfolding tracks_def keeps_workers_def by metis

lemma tracks_frame:
  "known_workers L' = known_workers L \<Longrightarrow> requests L' = requests L \<Longrightarrow> worker_fds L' = worker_fds L \<Longrightarrow>
     tracks L0 L' = tracks L0 L"
  by (simp add: tracks_def)

lemma tracks_update:
  assumes "tracks L0 L" and "map_find (known_workers L) w = Some info"
    and "position_in_buffer info' = position_in_buffer info"
  shows "tracks L0 (L\<lparr>known_workers := map_insert w info' (known_workers L)\<rparr>)"
  unfolding tracks_def
proof (intro conjI allI impI)
  let ?L = "L\<lparr>known_workers := map_insert w info' (known_workers L)\<rparr>"
  show "length (worker_fds ?L) = length (worker_fds L0)" using assms(1) by (simp add: tracks_def)
  fix v j assume v: "map_find (known_workers L0) v = Some j"
  consider "worker_fds L ! unat (position_in_buffer j) = - 1"
    | j' where "map_find (known_workers L) v = Some j'" "position_in_buffer j' = position_in_buffer j"
      "\<forall>qt. (v, qt) \<in> set (requests L0) \<longrightarrow> (v, qt) \<in> set (requests L)"
    using assms(1) v unfolding tracks_def by blast
  then show "worker_fds ?L ! unat (position_in_buffer j) = - 1 \<or>
      (\<exists>i. map_find (known_workers ?L) v = Some i \<and> position_in_buffer i = position_in_buffer j \<and>
         (\<forall>qt. (v, qt) \<in> set (requests L0) \<longrightarrow> (v, qt) \<in> set (requests ?L)))"
  proof cases
    case (2 j')
    then show ?thesis using assms(2,3) by (cases "v = w") auto
  qed simp
qed

lemma remove_worker_slots:
  assumes "slots_ok L" and "map_find (known_workers L) w = Some info"
  shows "slots_ok (L\<lparr>closed_fds := cs, worker_fds := (worker_fds L)[unat (position_in_buffer info) := - 1],
    known_workers := map_erase w (known_workers L), requests := rs\<rparr>)"
proof -
  note ok = slots_okD[OF assms(1)]
  let ?p = "unat (position_in_buffer info)"
  have other: "unat (position_in_buffer j) \<noteq> ?p" if "map_find (known_workers L) v = Some j" "v \<noteq> w" for v j
    using ok(4)[OF that(1) assms(2)] that(2) by (metis word_unat_eq_iff)
  show ?thesis
  proof (rule slots_okI, goal_cases)
    case (3 v j)
    then show ?case using ok(1) ok(3)[of v j] other[of v j] by (auto split: if_splits)
  next
    case (4 v j v' j')
    then show ?case using ok(1) ok(4)[of v j v' j'] by (auto split: if_splits)
  next
    case (5 i)
    then have i: "i < length (worker_fds L)" "worker_fds L ! i \<noteq> - 1" "i \<noteq> ?p"
      using ok(3)[OF assms(2)] by (auto simp: nth_list_update split: if_splits)
    then obtain v j where v: "map_find (known_workers L) v = Some j" "unat (position_in_buffer j) = i"
      using ok(5) by blast
    then have "v \<noteq> w" using i(3) assms(2) by auto
    then show ?case using v ok(1) by (intro exI[of _ v] exI[of _ j]) simp
  qed (use ok in simp_all)
qed

lemma remove_worker_ok:
  assumes "round_ok D pending L" and "map_find (known_workers L) w = Some info" and "tracks L0 L"
  shows "\<exists>L'. remove_worker w (pending, L) = Inr (pending @ assigned_tasks info, L') \<and>
    round_ok D (pending @ assigned_tasks info) L' \<and> tracks L0 L' \<and> same_queries L L' \<and>
    known_workers L' = map_erase w (known_workers L)"
proof -
  let ?p = "unat (position_in_buffer info)"
  note ok = assms(1)[unfolded round_ok_def]
  note sl = slots_okD[OF conjunct1[OF ok]]
  let ?L = "L\<lparr>closed_fds := closed_fds L @ [worker_fds L ! ?p], worker_fds := (worker_fds L)[?p := - 1],
    known_workers := map_erase w (known_workers L), requests := filter (\<lambda>(v, _). v \<noteq> w) (requests L)\<rparr>"
  have sq: "same_queries L ?L" by (simp add: same_queries_def)
  note sqs = same_queries_ok[OF this]
  have "requests_ok ?L"
    using ok sl(1) unfolding requests_ok_def sqs by fastforce
  moreover have "assigned_ok (pending @ assigned_tasks info) ?L"
    using ok tasks_of_erase[OF sl(1) assms(2)] unfolding assigned_ok_def sqs
    by (simp add: ac_simps)
  ultimately have "round_ok D (pending @ assigned_tasks info) ?L"
    using ok sqs remove_worker_slots[OF conjunct1[OF ok] assms(2)] by (simp add: round_ok_def)
  moreover have "tracks L0 ?L"
    unfolding tracks_def
  proof (intro conjI allI impI)
    show "length (worker_fds ?L) = length (worker_fds L0)" using assms(3) by (simp add: tracks_def)
    fix v j assume v: "map_find (known_workers L0) v = Some j"
    consider "worker_fds L ! unat (position_in_buffer j) = - 1"
      | j' where "map_find (known_workers L) v = Some j'" "position_in_buffer j' = position_in_buffer j"
        "\<forall>qt. (v, qt) \<in> set (requests L0) \<longrightarrow> (v, qt) \<in> set (requests L)"
      using assms(3) v unfolding tracks_def by blast
    then show "worker_fds ?L ! unat (position_in_buffer j) = - 1 \<or>
        (\<exists>info'. map_find (known_workers ?L) v = Some info' \<and>
           position_in_buffer info' = position_in_buffer j \<and>
           (\<forall>qt. (v, qt) \<in> set (requests L0) \<longrightarrow> (v, qt) \<in> set (requests ?L)))"
    proof cases
      case 1
      then show ?thesis by (cases "unat (position_in_buffer j) = ?p") (auto simp: nth_list_update sl(3)[OF assms(2)])
    next
      case (2 j')
      then show ?thesis
        using sl(1) assms(2) sl(3)[OF assms(2)] by (cases "v = w") auto
    qed
  qed
  ultimately show ?thesis
    using sq sl(3)[OF assms(2)] by (simp add: remove_worker_def assms(2) Let_def)
qed

lemma remove_workers_ok:
  assumes "round_ok D pending L" and "distinct ws" and "\<forall>w\<in>set ws. map_find (known_workers L) w \<noteq> None"
    and "tracks L0 L"
  shows "succeeds (\<lambda>(p', L'). round_ok D p' L' \<and> tracks L0 L' \<and> same_queries L L')
    (fold_res remove_worker ws (pending, L))"
  using assms
proof (induction ws arbitrary: pending L)
  case Nil
  then show ?case by (simp add: same_queries_def)
next
  case (Cons w ws)
  then obtain info where info: "map_find (known_workers L) w = Some info" by auto
  note ok = Cons.prems(1)[unfolded round_ok_def]
  obtain L' where L': "remove_worker w (pending, L) = Inr (pending @ assigned_tasks info, L')"
    "round_ok D (pending @ assigned_tasks info) L'" "tracks L0 L'" "same_queries L L'"
    "known_workers L' = map_erase w (known_workers L)"
    using remove_worker_ok[OF Cons.prems(1) info Cons.prems(4)] by blast
  have "\<forall>v\<in>set ws. map_find (known_workers L') v \<noteq> None"
    using Cons.prems(2,3) L'(5) ok by (auto simp: slots_ok_def)
  then have "succeeds (\<lambda>(p', L''). round_ok D p' L'' \<and> tracks L0 L'' \<and> same_queries L' L'')
      (fold_res remove_worker ws (pending @ assigned_tasks info, L'))"
    using Cons L' by simp
  then show ?case
    using L'(1,4) by (simp, elim post_weaken) (auto simp: same_queries_def)
qed

lemma sorted_remdups_adj_distinct: "sorted xs \<Longrightarrow> distinct (remdups_adj xs)" for xs :: "'a::linorder list"
proof (induction xs rule: remdups_adj.induct)
  case (3 x y xs)
  then show ?case by (cases "x = y") auto
qed simp_all

lemma workers_to_remove_spec:
  "distinct (workers_to_remove L)" "\<forall>w\<in>set (workers_to_remove L). map_find (known_workers L) w \<noteq> None"
  by (auto simp: workers_to_remove_def sorted_remdups_adj_distinct)

end
