(* ===== verification/LeaderRound.thy ===== *)
theory LeaderRound
  imports LeaderInv
begin

text \<open>
  The first part of a round keeps the invariant of the scheduler: tasks without workers go back to
  their queries, the others are assigned to the workers with the smallest loads.
\<close>

section \<open>Updates of one query\<close>

lemma busy_update:
  "unat q < length (queries L) \<Longrightarrow>
   busy (L\<lparr>queries := (queries L)[unat q := Q]\<rparr>) =
     {(q', t) \<in> busy L. q' \<noteq> q} \<union> {q} \<times> set (tasks_in_progress Q)"
  by (auto simp: busy_def nth_list_update word_unat_eq_iff split: if_splits)

lemma queries_ok_update:
  assumes "queries_ok D L" and "unat q < length (queries L)"
    and "query_ok D (answers L (unat q)) (unat q) Q"
  shows "queries_ok D (L\<lparr>queries := (queries L)[unat q := Q]\<rparr>)"
  using assms by (auto simp: queries_ok_def answers_def nth_list_update)

lemma queries_okD:
  assumes "queries_ok D L"
  shows "unat q < length (queries L) \<Longrightarrow> query_ok D (answers L (unat q)) (unat q) (queries L ! unat q)"
    "i < length (queries L) \<Longrightarrow> unat (of_nat i :: QueryId) = i"
    "i < length (queries L) \<Longrightarrow> query_id (queries L ! i) = of_nat i"
  using assms by (auto simp: queries_ok_def query_ok_def unat_of_nat take_bit_nat_eq_self)

text \<open>Moving a task between the two open sets.\<close>

lemma query_ok_back:
  assumes "query_ok D ans i Q" and "t \<in> set (tasks_in_progress Q)"
  shows "query_ok D ans i (Q\<lparr>tasks_in_progress := set_erase t (tasks_in_progress Q),
    tasks_to_do := set_insert t (tasks_to_do Q)\<rparr>)"
  using assms three_parts_moves(2) unfolding query_ok_def by simp

lemma query_ok_swap:
  "query_ok D ans i Q \<Longrightarrow>
   query_ok D ans i (Q\<lparr>tasks_to_do := tasks_in_progress Q, tasks_in_progress := tasks_to_do Q\<rparr>)"
  using three_parts_moves(1) unfolding query_ok_def by simp

section \<open>Tasks without workers\<close>

lemma return_tasks_ok:
  assumes "round_ok D pending L" and "known_workers L = []"
  shows "succeeds (\<lambda>L'. round_ok D [] L' \<and> exclusive L' \<and> known_workers L' = [] \<and>
    requests L' = requests L \<and> worker_fds L' = worker_fds L) (fold_res return_task pending L)"
  using assms
proof (induction pending arbitrary: L)
  case Nil
  have "tasks_in_progress (queries L ! i) = []" if "i < length (queries L)" for i
  proof -
    have "busy L = {}"
      using Nil by (simp add: round_ok_def assigned_ok_def mset_set_empty_iff)
    moreover have "unat (of_nat i :: QueryId) = i"
      using Nil(1) queries_okD(2)[OF _ that] by (auto simp: round_ok_def)
    ultimately have "t \<notin> set (tasks_in_progress (queries L ! i))" for t
      using that by (auto simp: busy_def dest: spec[of _ "of_nat i"])
    then show ?thesis by (cases "tasks_in_progress (queries L ! i)") auto
  qed
  then have "exclusive L" by (auto simp: exclusive_def in_set_conv_nth)
  then show ?case using Nil by simp
next
  case (Cons qt pending)
  obtain q t where qt: "qt = (q, t)" by (cases qt)
  note ok = Cons.prems(1)[unfolded round_ok_def]
  have m: "mset pending + {#(q, t)#} = mset_set (busy L)"
    using ok Cons.prems(2) by (simp add: assigned_ok_def qt)
  then have "(q, t) \<in># mset_set (busy L)" by (metis union_iff multi_member_last)
  then have b: "unat q < length (queries L)" "t \<in> set (tasks_in_progress (queries L ! unat q))"
    "(q, t) \<in> busy L" by (auto simp: busy_def)
  let ?Q = "(queries L ! unat q)\<lparr>tasks_in_progress := set_erase t (tasks_in_progress (queries L ! unat q)),
    tasks_to_do := set_insert t (tasks_to_do (queries L ! unat q))\<rparr>"
  let ?L = "L\<lparr>queries := (queries L)[unat q := ?Q]\<rparr>"
  have step: "return_task qt L = Inr ?L"
    using b(1) Cons.prems(2) by (simp add: return_task_def qt with_query_def)
  have "queries_ok D ?L"
    using ok b queries_ok_update query_ok_back queries_okD(1) by blast
  moreover have "busy ?L = busy L - {(q, t)}"
    unfolding busy_update[OF b(1)] using b(1) by (auto simp: busy_def)
  then have "mset_set (busy ?L) = mset pending"
    using m b(3) mset_set.remove[OF finite_tasks b(3)] by simp
  then have "assigned_ok pending ?L" using Cons.prems(2) by (simp add: assigned_ok_def)
  moreover have "requests L = []"
    using ok Cons.prems(2) by (cases "requests L") (auto simp: requests_ok_def)
  then have "requests_ok ?L" by (simp add: requests_ok_def)
  moreover have "slots_ok ?L" using ok by (simp add: slots_ok_def)
  ultimately have "round_ok D pending ?L" by (simp add: round_ok_def)
  from Cons.IH[OF this] show ?case using Cons.prems(2) by (simp add: step)
qed

lemma return_tasks_none: "known_workers L \<noteq> [] \<Longrightarrow> fold_res return_task pending L = Inr L"
  by (induction pending) (auto simp: return_task_def)

section \<open>Collecting the tasks to do\<close>

definition start_query :: "'d QueryInfo \<Rightarrow> 'd QueryInfo" where
  "start_query q = (if tasks_to_do q \<noteq> []
     then q\<lparr>tasks_to_do := tasks_in_progress q, tasks_in_progress := tasks_to_do q\<rparr> else q)"

definition open_tasks :: "'d QueryInfo list \<Rightarrow> (QueryId \<times> TaskId) list" where
  "open_tasks qs = concat (map (\<lambda>q. map (\<lambda>t. (query_id q, t)) (tasks_to_do q)) qs)"

lemma collect_tasks_value:
  "collect_tasks qs pending = (map start_query qs, pending @ open_tasks qs)"
  by (induction qs pending rule: collect_tasks.induct)
     (auto simp: start_query_def open_tasks_def split: prod.splits)

lemma open_tasks_set:
  assumes "\<forall>i<length qs. query_id (qs ! i) = of_nat (k + i) \<and> set_ok (tasks_to_do (qs ! i))"
    and "k + length qs \<le> 2 ^ 32"
  shows "distinct (open_tasks qs) \<and> set (open_tasks qs) =
    {(q, t). k \<le> unat q \<and> unat q < k + length qs \<and> t \<in> set (tasks_to_do (qs ! (unat q - k)))}"
  using assms
proof (induction qs arbitrary: k)
  case Nil
  then show ?case by (simp add: open_tasks_def)
next
  case (Cons q qs)
  have "\<forall>i<length qs. query_id (qs ! i) = of_nat (Suc k + i) \<and> set_ok (tasks_to_do (qs ! i))"
    using Cons.prems(1) by (metis Suc_less_eq add_Suc_shift length_Cons nth_Cons_Suc)
  from Cons.IH[OF this] have ih: "distinct (open_tasks qs)" "set (open_tasks qs) =
    {(q, t). Suc k \<le> unat q \<and> unat q < Suc k + length qs \<and> t \<in> set (tasks_to_do (qs ! (unat q - Suc k)))}"
    using Cons.prems(2) by auto
  have q: "query_id q = of_nat k" "set_ok (tasks_to_do q)" using Cons.prems(1) by (auto dest: spec[of _ 0])
  have k: "unat (of_nat k :: QueryId) = k"
    using Cons.prems(2) by (simp add: unat_of_nat take_bit_nat_eq_self)
  have tasks: "open_tasks (q # qs) = map (\<lambda>t. (of_nat k, t)) (tasks_to_do q) @ open_tasks qs"
    by (simp add: open_tasks_def q(1))
  have "set (open_tasks (q # qs)) = {(q', t). k \<le> unat q' \<and> unat q' < k + length (q # qs) \<and>
      t \<in> set (tasks_to_do ((q # qs) ! (unat q' - k)))}"
  proof -
    have "(q', t) \<in> set (open_tasks (q # qs)) \<longleftrightarrow> k \<le> unat q' \<and> unat q' < k + length (q # qs) \<and>
      t \<in> set (tasks_to_do ((q # qs) ! (unat q' - k)))" for q' t
    proof (cases "unat q' = k")
      case True
      then have "q' = of_nat k" using k by (metis word_unat_eq_iff)
      then show ?thesis using True k by (auto simp: tasks ih(2))
    next
      case False
      then have "q' \<noteq> of_nat k" using k by auto
      then show ?thesis using False by (auto simp: tasks ih(2) nth_Cons' Suc_diff_Suc)
    qed
    then show ?thesis by auto
  qed
  moreover have "distinct (open_tasks (q # qs))"
    using ih k q(2) by (auto simp: tasks distinct_map inj_on_def set_ok_def)
  ultimately show ?case by blast
qed

lemma start_query_tasks:
  "tasks_in_progress q = [] \<or> tasks_to_do q = [] \<Longrightarrow>
   set (tasks_in_progress (start_query q)) = set (tasks_in_progress q) \<union> set (tasks_to_do q)"
  by (auto simp: start_query_def)

lemma start_queries_ok:
  assumes "round_ok D pending L" and "exclusive L"
  shows "round_ok D (pending @ open_tasks (queries L)) (L\<lparr>queries := map start_query (queries L)\<rparr>) \<and>
    exclusive (L\<lparr>queries := map start_query (queries L)\<rparr>)"
proof -
  let ?L = "L\<lparr>queries := map start_query (queries L)\<rparr>"
  note ok = assms(1)[unfolded round_ok_def]
  have qok: "queries_ok D L" using ok by simp
  have ids: "\<forall>i<length (queries L). query_id (queries L ! i) = of_nat (0 + i) \<and>
      set_ok (tasks_to_do (queries L ! i))"
    using qok by (simp add: queries_ok_def query_ok_def)
  have len: "0 + length (queries L) \<le> 2 ^ 32" using qok by (simp add: queries_ok_def)
  note open_set = open_tasks_set[OF ids len]
  have excl: "tasks_in_progress (queries L ! i) = [] \<or> tasks_to_do (queries L ! i) = []"
    if "i < length (queries L)" for i
    using assms(2) that by (simp add: exclusive_def)
  have b: "busy ?L = busy L \<union> set (open_tasks (queries L))"
    using excl open_set by (auto simp: busy_def start_query_tasks)
  have d: "busy L \<inter> set (open_tasks (queries L)) = {}"
    using open_set queries_okD(1)[OF qok]
    by (fastforce simp: busy_def query_ok_def three_parts_def)
  have "mset_set (busy ?L) = mset_set (busy L) + mset (open_tasks (queries L))"
    unfolding b mset_set_Union[OF finite_tasks finite_tasks d]
    by (simp only: mset_set_set[OF conjunct1[OF open_set]])
  then have "assigned_ok (pending @ open_tasks (queries L)) ?L"
    using ok by (simp add: assigned_ok_def ac_simps)
  moreover have "queries_ok D ?L"
    using qok by (auto simp: queries_ok_def answers_def start_query_def query_ok_swap)
  moreover have "finished ?L = finished L"
    by (auto simp: finished_def start_query_def fun_eq_iff split: if_splits)
  then have "requests_ok ?L" using ok by (simp add: requests_ok_def)
  moreover have "slots_ok ?L" using ok by (simp add: slots_ok_def)
  moreover have "exclusive ?L" using assms(2) by (auto simp: exclusive_def start_query_def)
  ultimately show ?thesis by (simp add: round_ok_def)
qed

section \<open>Assignment\<close>

text \<open>The set of loads holds every known worker once; a task goes to a worker with the smallest load.\<close>

definition loads_ok :: "'d Leader \<Rightarrow> (u32 \<times> WorkerId) std_set \<Rightarrow> bool" where
  "loads_ok L workers \<longleftrightarrow> distinct (map snd workers) \<and> snd ` set workers = set (map_keys (known_workers L))"

lemma insert_load:
  assumes "distinct (map snd ws)" and "w \<notin> snd ` set ws"
  shows "distinct (map snd (set_insert (sz, w) ws)) \<and>
    snd ` set (set_insert (sz, w) ws) = insert w (snd ` set ws)"
proof -
  have "mset (insort_insert (sz, w) ws) = add_mset (sz, w) (mset ws)"
    using assms(2) by (auto simp: insort_insert_key_def image_iff)
  then have m: "mset (map snd (set_insert (sz, w) ws)) = mset (w # map snd ws)"
    by (simp add: set_insert_def)
  show ?thesis
    using mset_eq_imp_distinct_iff[OF m] assms by simp
qed

lemma worker_loads_ok:
  assumes "map_ok (known_workers L)"
  shows "loads_ok L (worker_loads L)"
proof -
  let ?f = "\<lambda>(w, info). set_insert (of_nat (length (assigned_tasks info)) :: u32, w)"
  have "distinct (map snd (fold ?f m ws)) \<and> snd ` set (fold ?f m ws) = snd ` set ws \<union> set (map_keys m)"
    if "distinct (map_keys m)" "distinct (map snd ws)" "snd ` set ws \<inter> set (map_keys m) = {}"
    for m :: "(WorkerId, WorkerInfo) std_map" and ws
    using that
  proof (induction m arbitrary: ws)
    case Nil
    then show ?case by simp
  next
    case (Cons x m)
    obtain w info where x: "x = (w, info)" by (cases x)
    have "w \<notin> snd ` set ws" using Cons.prems(3) by (auto simp: x)
    note step = insert_load[OF Cons.prems(2) this, of "of_nat (length (assigned_tasks info))"]
    show ?case
      using Cons.IH[of "set_insert (of_nat (length (assigned_tasks info)), w) ws"] step Cons.prems
      by (auto simp: x)
  qed
  from this[OF map_ok_distinct[OF assms], of "[]"] show ?thesis
    by (simp add: loads_ok_def worker_loads_def)
qed

lemma append_task_ok:
  assumes "round_ok D (qt # pending) L" and "map_find (known_workers L) w = Some info"
  defines "L' \<equiv> L\<lparr>known_workers := map_insert w
    (info\<lparr>assigned_tasks := assigned_tasks info @ [qt]\<rparr>) (known_workers L)\<rparr>"
  shows "round_ok D pending L'"
proof -
  note ok = assms(1)[unfolded round_ok_def]
  have "same_queries L L'" by (simp add: same_queries_def L'_def)
  note sq = same_queries_ok[OF this]
  have "slots_ok L'" unfolding L'_def using ok assms(2) by (intro update_worker_ok) auto
  moreover have "requests_ok L'"
    unfolding requests_ok_def sq
  proof safe
    fix v q t assume "(v, q, t) \<in> set (requests L')"
    then obtain j where j: "map_find (known_workers L) v = Some j"
      "(\<exists>ts. assigned_tasks j = (q, t) # ts) \<or> finished L (q, t)"
      using ok by (auto simp: requests_ok_def L'_def)
    then show "\<exists>info. map_find (known_workers L') v = Some info \<and>
        ((\<exists>ts. assigned_tasks info = (q, t) # ts) \<or> finished L (q, t))"
      using assms(2) by (cases "v = w") (auto simp: L'_def)
  qed
  moreover have "map_ok (known_workers L)" using ok by (simp add: slots_ok_def)
  then have "assigned_ok pending L'"
    using ok tasks_of_insert[of "known_workers L" w "info\<lparr>assigned_tasks := assigned_tasks info @ [qt]\<rparr>"]
      assms(2)
    unfolding assigned_ok_def sq by (simp add: L'_def ac_simps)
  ultimately show ?thesis using ok sq by (simp add: round_ok_def)
qed

lemma assign_task_ok:
  assumes "round_ok D (qt # pending) L" and "loads_ok L workers" and "known_workers L \<noteq> []"
    and "tracks L0 L" and "exclusive L"
  shows "\<exists>workers' L'. assign_task qt (workers, L) = Inr (workers', L') \<and> round_ok D pending L' \<and>
    loads_ok L' workers' \<and> known_workers L' \<noteq> [] \<and> tracks L0 L' \<and> exclusive L'"
proof -
  obtain x m where "known_workers L = x # m" using assms(3) by (cases "known_workers L") auto
  then have "set (map_keys (known_workers L)) \<noteq> {}" by (cases x) simp
  then obtain sz w ws where ws: "workers = (sz, w) # ws"
    using assms(2) by (cases workers) (auto simp: loads_ok_def)
  then have "w \<in> set (map_keys (known_workers L))" using assms(2) by (auto simp: loads_ok_def)
  then obtain info where info: "map_find (known_workers L) w = Some info"
    using map_find_None_iff[of "known_workers L" w] by auto
  let ?L = "L\<lparr>known_workers := map_insert w
    (info\<lparr>assigned_tasks := assigned_tasks info @ [qt]\<rparr>) (known_workers L)\<rparr>"
  have w: "distinct (map snd ws)" "w \<notin> snd ` set ws" using assms(2) by (auto simp: loads_ok_def ws)
  have "loads_ok ?L (set_insert (sz + 1, w) ws)"
    using insert_load[OF w, of "sz + 1"] assms(2) by (auto simp: loads_ok_def ws map_keys_insert)
  moreover have "tracks L0 ?L" using assms(4) info by (rule tracks_update) simp
  moreover have "exclusive ?L" using assms(5) by (simp add: exclusive_def)
  moreover have "known_workers ?L \<noteq> []" by (simp add: map_insert_not_Nil)
  ultimately show ?thesis
    using append_task_ok[OF assms(1) info]
    by (simp add: assign_task_def ws map_subscript_def info Let_def)
qed

lemma reassign_ok:
  assumes "round_ok D pending L" and "exclusive L" and "tracks L0 L"
    and "known_workers L = [] \<Longrightarrow> pending = []"
  shows "succeeds (\<lambda>(workers, L'). leader_ok D L' \<and> tracks L0 L' \<and> loads_ok L' workers) (reassign pending L)"
proof (cases "known_workers L = []")
  case True
  then show ?thesis using assms by (simp add: reassign_def leader_ok_def loads_ok_def)
next
  case False
  let ?L = "L\<lparr>queries := map start_query (queries L)\<rparr>"
  have fold: "succeeds (\<lambda>(workers, L'). leader_ok D L' \<and> tracks L0 L' \<and> loads_ok L' workers)
      (fold_res assign_task todo (workers, M))"
    if "round_ok D todo M" "loads_ok M workers" "known_workers M \<noteq> []" "tracks L0 M" "exclusive M"
    for todo workers M
    using that
  proof (induction todo arbitrary: workers M)
    case Nil
    then show ?case by (simp add: leader_ok_def)
  next
    case (Cons qt todo)
    from assign_task_ok[OF Cons.prems] Cons.IH show ?case by fastforce
  qed
  have "map_ok (known_workers L)" using assms(1) by (simp add: round_ok_def slots_ok_def)
  then have "loads_ok ?L (worker_loads ?L)" by (intro worker_loads_ok) simp
  moreover have "tracks L0 ?L" using assms(3) by (simp add: tracks_frame[of ?L L L0])
  moreover have "reassign pending L =
      fold_res assign_task (pending @ open_tasks (queries L)) (worker_loads ?L, ?L)"
    using False by (simp add: reassign_def collect_tasks_value Let_def)
  ultimately show ?thesis
    using start_queries_ok[OF assms(1,2)] fold[of "pending @ open_tasks (queries L)" ?L] False by simp
qed

end
