(* ===== verification/LeaderPass.thy ===== *)
theory LeaderPass
  imports LeaderRound
begin

text \<open>
  The pass over the poll array keeps the invariant when every reply answers a request that was sent on
  the connection it comes from (\<open>replies_known\<close>), and with it the whole round.
\<close>

section \<open>Replies\<close>

text \<open>Every reply that is read answers a request of the worker at that slot.\<close>

definition replies_known :: "'d Double \<Rightarrow> (nat \<Rightarrow> 'd SlotInput) \<Rightarrow> 'd Leader \<Rightarrow> bool" where
  "replies_known D ins L \<longleftrightarrow> (\<forall>i<length (worker_fds L). readable (ins i) \<longrightarrow>
     (case reply (ins i) of None \<Rightarrow> True
      | Some text \<Rightarrow> (\<exists>w\<in>set (map_keys (known_workers L)). case map_find (known_workers L) w of
            None \<Rightarrow> False
          | Some info \<Rightarrow> unat (position_in_buffer info) = i \<and>
              (w, snd (parse_reply D (reply_garbage (ins i)) (take reply_size text))) \<in> set (requests L))))"

lemma query_ok_accept:
  assumes "query_ok D ans i Q" and "t \<in> set (tasks_in_progress Q)"
  shows "query_ok D (ans @ [(q, t, r)]) i (Q\<lparr>query_result := d_add D (query_result Q) r,
    tasks_in_progress := set_erase t (tasks_in_progress Q)\<rparr>)"
proof -
  have "t \<notin> (\<lambda>(q, t, r). t) ` set ans"
    using assms by (auto simp: query_ok_def three_parts_def)
  then have "distinct (map (\<lambda>(q, t, r). t) (ans @ [(q, t, r)]))"
    using assms(1) by (simp add: query_ok_def)
  then show ?thesis
    using assms three_parts_moves(3) unfolding query_ok_def by (simp add: total_def)
qed

lemma assigned_busy:
  assumes "assigned_ok [] L" and "map_ok (known_workers L)" and "map_find (known_workers L) w = Some info"
  shows "set (assigned_tasks info) \<subseteq> busy L"
proof -
  have "(w, info) \<in> set (known_workers L)" using assms(2,3) by (simp add: map_find_Some_iff)
  then have "set (assigned_tasks info) \<subseteq> set (tasks_of (known_workers L))"
    by (force simp: tasks_of_def)
  moreover have "set_mset (mset (tasks_of (known_workers L))) = busy L"
    using assms(1) by (simp add: assigned_ok_def)
  ultimately show ?thesis by simp
qed

lemma accept_task:
  assumes ok: "leader_ok D L" and info: "map_find (known_workers L) w = Some info"
    and head: "assigned_tasks info = (q, t) # ts"
  shows "unat q < length (queries L)" and "t \<in> set (tasks_in_progress (queries L ! unat q))"
    and "leader_ok D (L\<lparr>known_workers := map_insert w (info\<lparr>assigned_tasks := ts\<rparr>) (known_workers L),
      accepted := accepted L @ [(q, t, r)],
      queries := (queries L)[unat q := (queries L ! unat q)\<lparr>
        query_result := d_add D (query_result (queries L ! unat q)) r,
        tasks_in_progress := set_erase t (tasks_in_progress (queries L ! unat q))\<rparr>]\<rparr>)"
proof -
  note all = ok[unfolded leader_ok_def round_ok_def]
  have mk: "map_ok (known_workers L)" using all by (simp add: slots_ok_def)
  have b: "(q, t) \<in> busy L"
    using assigned_busy[OF _ mk info] all head by auto
  then show q: "unat q < length (queries L)" and t: "t \<in> set (tasks_in_progress (queries L ! unat q))"
    by (simp_all add: busy_def)
  let ?Q = "(queries L ! unat q)\<lparr>query_result := d_add D (query_result (queries L ! unat q)) r,
    tasks_in_progress := set_erase t (tasks_in_progress (queries L ! unat q))\<rparr>"
  let ?K = "map_insert w (info\<lparr>assigned_tasks := ts\<rparr>) (known_workers L)"
  let ?L = "L\<lparr>known_workers := ?K, accepted := accepted L @ [(q, t, r)],
    queries := (queries L)[unat q := ?Q]\<rparr>"
  have qok: "query_ok D (answers L (unat q)) (unat q) (queries L ! unat q)"
    using all q queries_okD(1) by blast
  have ans: "answers ?L i = (if i = unat q then answers L i @ [(q, t, r)] else answers L i)" for i
    by (auto simp: answers_def)
  have "queries_ok D ?L"
    unfolding queries_ok_def ans
    using all q query_ok_accept[OF qok t, of q r] by (simp add: queries_ok_def nth_list_update)
  moreover have "slots_ok ?L"
    using update_worker_ok[of L w info "info\<lparr>assigned_tasks := ts\<rparr>"] all info
      slots_ok_frame[of ?L "L\<lparr>known_workers := ?K\<rparr>"] by simp
  moreover have "busy ?L = busy L - {(q, t)}"
    using busy_update[OF q, of ?Q] q by (auto simp: busy_def nth_list_update)
  then have "assigned_ok [] ?L"
    using all tasks_of_insert[OF mk, of w "info\<lparr>assigned_tasks := ts\<rparr>"] info head
      mset_set.remove[OF finite_tasks b] by (simp add: assigned_ok_def)
  moreover have "requests_ok ?L"
    unfolding requests_ok_def
  proof safe
    fix v q' t' assume "(v, q', t') \<in> set (requests ?L)"
    then obtain j where j: "map_find (known_workers L) v = Some j"
      "(\<exists>ts. assigned_tasks j = (q', t') # ts) \<or> finished L (q', t')"
      using all by (auto simp: requests_ok_def)
    have mono: "finished ?L x" if "finished L x" for x
      using that q by (cases x) (auto simp: finished_def nth_list_update)
    have "finished ?L (q, t)"
      using qok q t by (auto simp: finished_def query_ok_def three_parts_def)
    then show "\<exists>info. map_find (known_workers ?L) v = Some info \<and>
        ((\<exists>ts. assigned_tasks info = (q', t') # ts) \<or> finished ?L (q', t'))"
      using j mono info head by (cases "v = w") auto
  qed
  moreover have "exclusive ?L"
  proof -
    have "tasks_to_do (queries L ! unat q) = []"
      using ok t nth_mem[OF q] by (fastforce simp: leader_ok_def exclusive_def)
    then show ?thesis
      using ok by (auto simp: leader_ok_def exclusive_def dest!: set_update_subset_insert[THEN subsetD])
  qed
  ultimately show "leader_ok D ?L" by (simp add: leader_ok_def round_ok_def)
qed

lemma accept_reply_ok:
  assumes ok: "leader_ok D L" and info: "map_find (known_workers L) w = Some info"
    and req: "(w, q, t) \<in> set (requests L)" and "tracks L0 L"
  shows "succeeds (\<lambda>L'. leader_ok D L' \<and> tracks L0 L' \<and> worker_fds L' = worker_fds L \<and>
    (\<exists>info'. map_find (known_workers L') w = Some info' \<and>
       position_in_buffer info' = position_in_buffer info)) (accept_reply D w (r, q, t) L)"
proof -
  note all = ok[unfolded leader_ok_def round_ok_def]
  have cases: "(\<exists>ts. assigned_tasks info = (q, t) # ts) \<or> finished L (q, t)"
    using all req info by (fastforce simp: requests_ok_def)
  show ?thesis
  proof (cases "finished L (q, t)")
    case True
    then show ?thesis using assms by (simp add: accept_reply_def finished_def)
  next
    case False
    then obtain ts where head: "assigned_tasks info = (q, t) # ts" using cases by blast
    note acc = accept_task[OF ok info head]
    have "tracks L0 (L\<lparr>known_workers := map_insert w (info\<lparr>assigned_tasks := ts\<rparr>) (known_workers L)\<rparr>)"
      using assms(4) info by (rule tracks_update) simp
    then show ?thesis
      using acc by (simp add: accept_reply_def map_subscript_def info head with_query_def tracks_def)
  qed
qed

section \<open>Requests\<close>

lemma send_request_ok:
  assumes ok: "leader_ok D L" and info: "map_find (known_workers L) w = Some info" and "tracks L0 L"
  shows "succeeds (\<lambda>L'. leader_ok D L' \<and> tracks L0 L' \<and> worker_fds L' = worker_fds L)
    (send_request D w fd inp L)"
proof (cases "assigned_tasks info")
  case Nil
  then show ?thesis using assms by (simp add: send_request_def map_subscript_def info)
next
  case (Cons qt ts)
  obtain q t where qt: "qt = (q, t)" by (cases qt)
  note all = ok[unfolded leader_ok_def round_ok_def]
  have head: "assigned_tasks info = (q, t) # ts" using Cons qt by simp
  note acc = accept_task(1,2)[OF ok info head]
  have "query_ok D (answers L (unat q)) (unat q) (queries L ! unat q)"
    using all acc(1) queries_okD(1) by blast
  then have "unat t < length (all_tasks (queries L ! unat q))"
    using acc(2) by (auto simp: query_ok_def three_parts_def)
  moreover have "leader_ok D (L\<lparr>requests := requests L @ [(w, q, t)]\<rparr>)"
    using ok info head
    by (auto simp: leader_ok_def round_ok_def slots_ok_def queries_ok_def requests_ok_def
        assigned_ok_def exclusive_def answers_def busy_def finished_def)
  moreover have "leader_ok D (drop_connection w fd L)"
    using ok round_ok_frame(2)[of "drop_connection w fd L" L D] by (simp add: drop_connection_def)
  moreover have "tracks L0 (L\<lparr>requests := requests L @ [(w, q, t)]\<rparr>)" "tracks L0 (drop_connection w fd L)"
    using assms(3) by (fastforce simp: tracks_def drop_connection_def)+
  ultimately show ?thesis
    using acc(1) by (simp add: send_request_def map_subscript_def info head drop_connection_def)
qed

section \<open>The pass\<close>

lemma slot_worker_value:
  assumes "slots_ok L" and "map_find (known_workers L) w = Some info"
    and "unat (position_in_buffer info) = i"
  shows "slot_worker i L = w"
proof -
  note ok = slots_okD[OF assms(1)]
  have mem: "(w, info) \<in> set (known_workers L)" using assms(2) ok(1) by (simp add: map_find_Some_iff)
  then obtain v j where v: "List.find (\<lambda>(w, info). unat (position_in_buffer info) = i) (known_workers L) =
      Some (v, j)"
    using assms(3) by (cases "List.find (\<lambda>(w, info). unat (position_in_buffer info) = i) (known_workers L)")
      (auto simp: find_None_iff)
  then have "(v, j) \<in> set (known_workers L)" "unat (position_in_buffer j) = i"
    by (auto simp: find_Some_iff) (metis nth_mem)
  then have "v = w"
    using ok(1) ok(4)[of v j w info] assms(2,3) by (simp add: map_find_Some_iff word_unat_eq_iff)
  then show ?thesis by (simp add: slot_worker_def v)
qed

lemma handle_slot_ok:
  assumes ok: "leader_ok D L" and tr: "tracks L0 L" and replies: "replies_known D ins L0"
    and i: "i < length (worker_fds L)"
  shows "post {RuntimeError} (\<lambda>L'. leader_ok D L' \<and> tracks L0 L' \<and> worker_fds L' = worker_fds L)
    (handle_slot D ins n i L)"
proof (cases "worker_fds L ! i = - 1 \<or> slot_worker i L = of_nat n")
  case True
  then show ?thesis using ok tr by (auto simp: handle_slot_def Let_def)
next
  case False
  have so: "slots_ok L" using ok by (simp add: leader_ok_def round_ok_def)
  obtain w info where info: "map_find (known_workers L) w = Some info" "unat (position_in_buffer info) = i"
    using slots_okD(5)[OF so i] False by blast
  have wid: "slot_worker i L = w" by (rule slot_worker_value[OF so info])
  let ?fd = "worker_fds L ! i" and ?inp = "ins i"
  let ?Q = "\<lambda>L'. leader_ok D L' \<and> tracks L0 L' \<and> worker_fds L' = worker_fds L \<and>
    (\<exists>info. map_find (known_workers L') w = Some info \<and> unat (position_in_buffer info) = i)"
  have drop: "?Q (drop_connection w ?fd M)" if "?Q M" for M
    using that round_ok_frame(2)[of "drop_connection w ?fd M" M D]
      tracks_frame[of "drop_connection w ?fd M" M L0] by (simp add: drop_connection_def)
  define M where "M = (if hangup ?inp then drop_connection w ?fd L else L)"
  have M: "?Q M" unfolding M_def using drop[of L] ok tr info by auto
  have "succeeds ?Q (receive_reply D w ?fd ?inp M)" if rd: "readable ?inp"
  proof (cases "reply ?inp")
    case None
    then show ?thesis using drop[OF M] by (simp add: receive_reply_def)
  next
    case (Some msg)
    obtain r q t where p: "parse_reply D (reply_garbage ?inp) (take reply_size msg) = (r, q, t)"
      by (cases "parse_reply D (reply_garbage ?inp) (take reply_size msg)") auto
    have "i < length (worker_fds L0)" using i tr by (simp add: tracks_def)
    then obtain v j where v: "map_find (known_workers L0) v = Some j" "unat (position_in_buffer j) = i"
      "(v, q, t) \<in> set (requests L0)"
      using replies rd Some p by (fastforce simp: replies_known_def split: option.splits)
    then have "worker_fds M ! unat (position_in_buffer j) \<noteq> - 1" using M False by simp
    then obtain j' where j': "map_find (known_workers M) v = Some j'"
      "position_in_buffer j' = position_in_buffer j" "(v, q, t) \<in> set (requests M)"
      using M v unfolding tracks_def by blast
    have "slots_ok M" using M by (simp add: leader_ok_def round_ok_def)
    from slot_worker_value[OF this j'(1)] j'(2) v(2) have "slot_worker i M = v" by simp
    moreover have "slot_worker i M = w" using M slot_worker_value[OF \<open>slots_ok M\<close>] by blast
    ultimately have "v = w" by simp
    then have "succeeds ?Q (accept_reply D w (r, q, t) M)"
      using accept_reply_ok[of D M w j' q t L0 r] M j' v(2) by (auto elim!: post_weaken)
    then show ?thesis using Some p by (simp add: receive_reply_def)
  qed
  then have recv: "succeeds ?Q (if readable ?inp then receive_reply D w ?fd ?inp M else Inr M)"
    using M by simp
  have send: "succeeds (\<lambda>L'. leader_ok D L' \<and> tracks L0 L' \<and> worker_fds L' = worker_fds L)
      (if writable ?inp then send_request D w ?fd ?inp N else Inr N)" if "?Q N" for N
    using that send_request_ok[of D N w _ L0 ?fd ?inp] by fastforce
  have "handle_slot D ins n i L =
      bind_res (if readable ?inp then receive_reply D w ?fd ?inp M else Inr M)
        (\<lambda>L. if writable ?inp then send_request D w ?fd ?inp L else Inr L)"
    using False by (simp add: handle_slot_def wid M_def Let_def)
  moreover have "succeeds (\<lambda>L'. leader_ok D L' \<and> tracks L0 L' \<and> worker_fds L' = worker_fds L)
      (bind_res (if readable ?inp then receive_reply D w ?fd ?inp M else Inr M)
        (\<lambda>L. if writable ?inp then send_request D w ?fd ?inp L else Inr L))"
    by (rule post_bindI[OF recv send])
  ultimately show ?thesis by (simp add: post_mono)
qed

section \<open>A round\<close>

lemma prepare_round_ok:
  assumes "leader_ok D L" and "length (queries L) + length (new_tasks L) \<le> 2 ^ 32"
  shows "post {RuntimeError} (\<lambda>(workers, L'). leader_ok D L' \<and> tracks L L' \<and> loads_ok L' workers)
    (prepare_round D inp L)"
proof -
  let ?L = "take_queries D (L\<lparr>hb_updates := []\<rparr>)"
  have "leader_ok D (L\<lparr>hb_updates := []\<rparr>)"
    using assms(1) round_ok_frame(2)[of "L\<lparr>hb_updates := []\<rparr>" L D] by simp
  then have start: "leader_ok D ?L" using assms(2) by (intro take_queries_ok) simp_all
  have fold: "known_workers (fold (take_query D) abs M) = known_workers M"
    "requests (fold (take_query D) abs M) = requests M"
    "worker_fds (fold (take_query D) abs M) = worker_fds M" for abs and M :: "'a Leader"
    by (induction abs arbitrary: M) (simp_all add: take_query_def)
  have keep: "tracks L M" if "keeps_workers ?L M" for M
    using tracks_keeps[OF that] by (simp add: tracks_def take_queries_def fold)
  have rest: "succeeds (\<lambda>(workers, L'). leader_ok D L' \<and> tracks L L' \<and> loads_ok L' workers)
      (let doomed = workers_to_remove M; M = M\<lparr>wid_to_delete := []\<rparr>
       in bind_res (fold_res remove_worker doomed ([], M)) (\<lambda>(pending, M).
          bind_res (fold_res return_task pending M) (\<lambda>M. reassign pending M)))"
    if M: "leader_ok D M" "tracks L M" for M
  proof -
    let ?M = "M\<lparr>wid_to_delete := []\<rparr>"
    have m: "round_ok D [] ?M" "exclusive ?M"
      using M(1) round_ok_frame(1)[of ?M M D "[]"] round_ok_frame(3)[of ?M M]
      by (simp_all add: leader_ok_def)
    have t: "tracks L ?M" using M(2) by (simp add: tracks_frame[of ?M M L])
    have rm: "succeeds (\<lambda>(p, N). round_ok D p N \<and> tracks L N \<and> same_queries ?M N)
        (fold_res remove_worker (workers_to_remove M) ([], ?M))"
      using m(1) workers_to_remove_spec[of M] t by (intro remove_workers_ok) simp_all
    have "succeeds (\<lambda>(workers, L'). leader_ok D L' \<and> tracks L L' \<and> loads_ok L' workers)
        (bind_res (fold_res return_task p N) (reassign p))"
      if N: "round_ok D p N" "tracks L N" "same_queries ?M N" for p N
    proof (cases "known_workers N = []")
      case True
      then show ?thesis
        using post_bindI[OF return_tasks_ok[OF N(1) True], of _ "reassign p"] reassign_ok[of D "[]" _ L] N(2)
        by (auto simp: reassign_def tracks_def leader_ok_def loads_ok_def elim!: post_weaken)
    next
      case False
      then show ?thesis
        using reassign_ok[of D p N L] N m(2) same_queries_ok(2)[OF N(3)]
        by (simp add: return_tasks_none)
    qed
    then show ?thesis
      unfolding Let_def by (intro post_bindI[OF rm]) (auto split: prod.splits)
  qed
  have "post {RuntimeError} (\<lambda>(u, M). leader_ok D M \<and> keeps_workers ?L M)
      (fold_res (add_worker (sockets inp)) (hb_updates L) (0, ?L))"
    by (rule add_workers_ok[OF start])
  then show ?thesis
    unfolding prepare_round_def Let_def
    by (rule post_bindI) (use rest keep in \<open>force simp: Let_def intro: post_mono\<close>)
qed

end
