(* ===== verification/LeaderRuns.thy ===== *)
theory LeaderRuns
  imports LeaderPass
begin

text \<open>
  Whole runs of the leader: a round keeps the invariant, and so do the queries of the user and the
  heartbeats of the discovery thread.
\<close>

section \<open>Runs\<close>

lemma RunOverWorkers_ok:
  assumes "leader_ok D L" and "length (queries L) + length (new_tasks L) \<le> 2 ^ 32"
    and "replies_known D (slots inp) L"
  shows "post {RuntimeError} (leader_ok D) (RunOverWorkers D inp L)"
  unfolding RunOverWorkers_def
proof (rule post_bindI[OF prepare_round_ok[OF assms(1,2)]], clarify)
  fix workers :: "(u32 \<times> WorkerId) std_set" and M assume M: "leader_ok D M" "tracks L M"
  have "post {RuntimeError} (\<lambda>N. leader_ok D N \<and> tracks L N \<and> worker_fds N = worker_fds M)
      (fold_res (handle_slot D (slots inp) n) [0..<length (worker_fds M)] M)" for n
  proof (rule post_fold)
    fix i N assume "i \<in> set [0..<length (worker_fds M)]"
      and N: "leader_ok D N \<and> tracks L N \<and> worker_fds N = worker_fds M"
    then have "i < length (worker_fds N)" by simp
    from handle_slot_ok[OF _ _ assms(3) this, of n] N
    show "post {RuntimeError} (\<lambda>N. leader_ok D N \<and> tracks L N \<and> worker_fds N = worker_fds M)
        (handle_slot D (slots inp) n i N)" by simp
  qed (use M in simp)
  from post_weaken[OF this[of "length workers"], of "leader_ok D"]
  show "post {RuntimeError} (leader_ok D) (if \<not> poll_ok inp then Inl RuntimeError
      else fold_res (handle_slot D (slots inp) (length workers)) [0..<length (worker_fds M)] M)"
    by simp
qed

text \<open>
  \<open>always P step es s\<close>: each event of \<open>es\<close> satisfies \<open>P\<close> in the state that the run from \<open>s\<close> has reached.
  \<open>lawful_event\<close>: every reply answers a request that was sent on its connection, and the ids of the
  queries do not exceed 32 bits.
\<close>

fun always :: "('e \<Rightarrow> 's \<Rightarrow> bool) \<Rightarrow> ('e \<Rightarrow> 's \<Rightarrow> 'f + 's) \<Rightarrow> 'e list \<Rightarrow> 's \<Rightarrow> bool" where
  "always P step [] s = True"
| "always P step (e # es) s = (P e s \<and> (case step e s of Inl _ \<Rightarrow> True | Inr s' \<Rightarrow> always P step es s'))"

text \<open>
  A machine whose steps keep an invariant when their events satisfy a guard. \<open>hist\<close> is the list of the
  events so far.
\<close>

locale guarded_machine =
  fixes step :: "'e \<Rightarrow> 's \<Rightarrow> 'f + 's"
    and guard :: "'e \<Rightarrow> 's \<Rightarrow> bool"
    and inv :: "'e list \<Rightarrow> 's \<Rightarrow> bool"
    and faults :: "'f set"
  assumes guarded_step: "inv hist s \<Longrightarrow> guard e s \<Longrightarrow> post faults (inv (hist @ [e])) (step e s)"
begin

lemma guarded_run:
  "inv hist s \<Longrightarrow> always guard step es s \<Longrightarrow> post faults (inv (hist @ es)) (fold_res step es s)"
proof (induction es arbitrary: s hist)
  case Nil
  then show ?case by simp
next
  case (Cons e es)
  have "post faults (inv (hist @ [e])) (step e s)" using Cons.prems by (intro guarded_step) simp_all
  then show ?case using Cons.IH[of "hist @ [e]"] Cons.prems(2) by (cases "step e s") simp_all
qed

end

definition lawful_event :: "'d Double \<Rightarrow> 'd LeaderEvent \<Rightarrow> 'd Leader \<Rightarrow> bool" where
  "lawful_event D e L = (case e of
     Round inp \<Rightarrow> replies_known D (slots inp) L \<and> length (queries L) + length (new_tasks L) \<le> 2 ^ 32
   | _ \<Rightarrow> True)"

definition lawful :: "'d Double \<Rightarrow> 'd LeaderEvent list \<Rightarrow> 'd Leader \<Rightarrow> bool" where
  "lawful D = always (lawful_event D) (leader_step D)"

lemma leader_step_ok:
  assumes "leader_ok D L" and "lawful_event D e L"
  shows "post {RuntimeError} (leader_ok D) (leader_step D e L)"
proof (cases e)
  case (Round inp)
  then show ?thesis using assms RunOverWorkers_ok[of D L inp] by (simp add: lawful_event_def)
next
  case (Query a b)
  then show ?thesis
    using assms(1) round_ok_frame(2)[of "L\<lparr>new_tasks := new_tasks L @ [(a, b)]\<rparr>" L D]
    by (simp add: GetResult_def)
next
  case (Heartbeat w hb)
  then show ?thesis
    using assms(1) round_ok_frame(2)[of "L\<lparr>hb_updates := map_insert w hb (hb_updates L)\<rparr>" L D] by simp
qed

interpretation leader_machine:
  guarded_machine "leader_step D" "lawful_event D" "\<lambda>_. leader_ok D" "{RuntimeError}" for D
  by unfold_locales (rule leader_step_ok)

lemma leader_run_ok:
  "leader_ok D L \<Longrightarrow> lawful D es L \<Longrightarrow> post {RuntimeError} (leader_ok D) (fold_res (leader_step D) es L)"
  unfolding lawful_def by (rule leader_machine.guarded_run)

lemma make_Leader_ok: "leader_ok D (make_Leader n)"
proof -
  have "unat n < 2 ^ 32" using unsigned_less[of n, where 'a = nat] by simp
  then show ?thesis
    by (simp add: leader_ok_def round_ok_def slots_ok_def queries_ok_def requests_ok_def assigned_ok_def
        exclusive_def make_Leader_def busy_def)
qed

text \<open>In such a run every slice of a query is counted at most once.\<close>

lemma lawful_counted_once:
  assumes "lawful D es (make_Leader n)" and "fold_res (leader_step D) es (make_Leader n) = Inr L"
    and "i < length (queries L)"
  shows "query_ok D (answers L i) i (queries L ! i)"
proof -
  have "leader_ok D L" using leader_run_ok[OF make_Leader_ok assms(1)] assms(2) by simp
  then show ?thesis using assms(3) by (simp add: leader_ok_def round_ok_def queries_ok_def)
qed

section \<open>Workers of a pass\<close>

text \<open>The pass over the poll array leaves the slots and their workers alone.\<close>

definition same_slots :: "'d Leader \<Rightarrow> 'd Leader \<Rightarrow> bool" where
  "same_slots L L' \<longleftrightarrow> worker_fds L' = worker_fds L \<and>
     (\<forall>w info. map_find (known_workers L) w = Some info \<longrightarrow>
        (\<exists>info'. map_find (known_workers L') w = Some info' \<and>
           position_in_buffer info' = position_in_buffer info))"

interpretation slots_run: run_relation same_slots
  by unfold_locales (auto simp: same_slots_def, metis)

lemma same_slots_update:
  assumes "map_subscript default_WorkerInfo w (known_workers L) = (info, known)"
    and "known_workers L' = known \<or> known_workers L' = map_insert w info' known"
    and "position_in_buffer info' = position_in_buffer info" and "worker_fds L' = worker_fds L"
  shows "same_slots L L'"
proof -
  have "\<exists>j. map_find (known_workers L') v = Some j \<and> position_in_buffer j = position_in_buffer i"
    if "map_find (known_workers L) v = Some i" for v i
    using that assms(1-3) by (cases "v = w") (auto simp: map_subscript_def split: option.splits)
  then show ?thesis using assms(4) by (simp add: same_slots_def)
qed

lemma same_slots_accept: "on_ok (same_slots L) (accept_reply D w x L)"
proof (rule on_okI)
  fix L' assume run: "accept_reply D w x L = Inr L'"
  obtain info known where sub: "map_subscript default_WorkerInfo w (known_workers L) = (info, known)"
    by fastforce
  show "same_slots L L'"
    using run sub slots_run.run_refl[of L]
    by (auto simp: accept_reply_def with_query_def split: prod.splits if_splits
        intro!: same_slots_update[OF sub, where info' = "info\<lparr>assigned_tasks := tl (assigned_tasks info)\<rparr>"])
qed

lemma same_slots_send: "on_ok (same_slots L) (send_request D w fd inp L)"
proof (rule on_okI)
  fix L' assume run: "send_request D w fd inp L = Inr L'"
  obtain info known where sub: "map_subscript default_WorkerInfo w (known_workers L) = (info, known)"
    by fastforce
  show "same_slots L L'"
    using run sub
    by (intro same_slots_update[OF sub, where info' = info])
       (auto simp: send_request_def drop_connection_def Let_def split: prod.splits if_splits list.splits)
qed

lemma same_slots_handle: "on_ok (same_slots L) (handle_slot D ins k i L)"
proof -
  have drop: "same_slots M (drop_connection w fd M)" for w fd and M :: "'a Leader"
    by (simp add: same_slots_def drop_connection_def)
  have recv: "on_ok (same_slots M) (if readable (ins i) then receive_reply D w fd (ins i) M else Inr M)"
    for w fd and M :: "'a Leader"
    using drop[of M] slots_run.run_refl[of M] same_slots_accept[of M]
    by (simp add: receive_reply_def split: option.split)
  have send: "on_ok (same_slots M) (if writable (ins i) then send_request D w fd (ins i) M else Inr M)"
    for w fd and M :: "'a Leader"
    using slots_run.run_refl[of M] same_slots_send[of M] by simp
  let ?w = "slot_worker i L" and ?fd = "worker_fds L ! i"
  have "same_slots L (if hangup (ins i) then drop_connection ?w ?fd L else L)"
    using drop slots_run.run_refl[of L] by simp
  from slots_run.run_after[OF this slots_run.run_bind[OF recv send], of ?w ?fd] show ?thesis
    using slots_run.run_refl[of L] unfolding handle_slot_def Let_def post_if post_simps by auto
qed

lemma loads_length:
  assumes "loads_ok L workers" and "map_ok (known_workers L)"
  shows "length workers = length (known_workers L)"
proof -
  have "length (map snd workers) = length (map_keys (known_workers L))"
    using assms map_ok_distinct[OF assms(2)] distinct_card[of "map snd workers"]
      distinct_card[of "map_keys (known_workers L)"] by (simp add: loads_ok_def)
  then show ?thesis by (simp add: map_keys_def)
qed

end
