(* ===== verification/LeaderSound.thy ===== *)
theory LeaderSound
  imports LeaderRuns
begin

text \<open>
  What holds in every run of the leader, whatever bytes \<open>recv\<close> returns: the weaker invariant
  \<open>leader_sound\<close>. The open descriptors and the known workers correspond, every task of a worker names a
  slice that exists, and of every query the slices that are to do, in progress or answered are together
  all of them; the result is the sum of the answers that were counted. Nothing is assumed of the workers
  or the network, so a reply may be counted for the wrong slice, or twice.
\<close>

section \<open>The invariant\<close>

definition task_valid :: "'d Leader \<Rightarrow> QueryId \<times> TaskId \<Rightarrow> bool" where
  "task_valid L = (\<lambda>(q, t). unat q < length (queries L) \<and> unat t < slices)"

definition all_slices :: "TaskId set \<Rightarrow> TaskId set \<Rightarrow> TaskId set \<Rightarrow> bool" where
  "all_slices A I T \<longleftrightarrow> I \<inter> T = {} \<and> A \<union> I \<union> T = {t. unat t < slices}"

lemma all_slices_moves:
  "all_slices A I T \<Longrightarrow> all_slices A T I"
  "all_slices A I T \<Longrightarrow> unat t < slices \<Longrightarrow> all_slices A (I - {t}) (insert t T)"
  "all_slices A I T \<Longrightarrow> t \<in> I \<Longrightarrow> all_slices (insert t A) (I - {t}) T"
  unfolding all_slices_def by blast+

lemma all_slices_bound: "all_slices A I T \<Longrightarrow> t \<in> A \<union> I \<union> T \<Longrightarrow> unat t < slices"
  unfolding all_slices_def by blast

definition query_sound :: "'d Double \<Rightarrow> (QueryId \<times> TaskId \<times> 'd) list \<Rightarrow> nat \<Rightarrow> 'd QueryInfo \<Rightarrow> bool" where
  "query_sound D ans i q \<longleftrightarrow> query_id q = of_nat i \<and> length (all_tasks q) = slices \<and>
     set_ok (tasks_in_progress q) \<and> set_ok (tasks_to_do q) \<and>
     all_slices ((\<lambda>(q, t, r). t) ` set ans) (set (tasks_in_progress q)) (set (tasks_to_do q)) \<and>
     query_result q = total D ans"

definition queries_sound :: "'d Double \<Rightarrow> 'd Leader \<Rightarrow> bool" where
  "queries_sound D L \<longleftrightarrow>
     (\<forall>i<length (queries L). query_sound D (answers L i) i (queries L ! i)) \<and>
     (\<forall>(q, t, r)\<in>set (accepted L). unat q < length (queries L))"

definition tasks_valid :: "'d Leader \<Rightarrow> bool" where
  "tasks_valid L \<longleftrightarrow> (\<forall>w info. map_find (known_workers L) w = Some info \<longrightarrow>
     (\<forall>qt\<in>set (assigned_tasks info). task_valid L qt))"

definition leader_sound :: "'d Double \<Rightarrow> 'd Leader \<Rightarrow> bool" where
  "leader_sound D L \<longleftrightarrow> slots_ok L \<and> queries_sound D L \<and> tasks_valid L"

lemma make_Leader_sound: "leader_sound D (make_Leader n)"
  using make_Leader_ok[of D n]
  by (simp add: leader_sound_def leader_ok_def round_ok_def queries_sound_def tasks_valid_def make_Leader_def)

lemma leader_sound_frame:
  assumes "known_workers L' = known_workers L" "queries L' = queries L" "accepted L' = accepted L"
    "worker_fds L' = worker_fds L"
  shows "leader_sound D L' = leader_sound D L"
  using assms
  by (simp add: leader_sound_def slots_ok_def queries_sound_def tasks_valid_def answers_def task_valid_def)

lemma task_valid_mono: "task_valid L qt \<Longrightarrow> length (queries L) \<le> length (queries L') \<Longrightarrow> task_valid L' qt"
  by (auto simp: task_valid_def)

lemma tasks_validD:
  "tasks_valid L \<Longrightarrow> map_find (known_workers L) w = Some info \<Longrightarrow> qt \<in> set (assigned_tasks info) \<Longrightarrow>
   task_valid L qt"
  by (auto simp: tasks_valid_def)

lemma tasks_valid_insert:
  assumes "tasks_valid L" and "\<forall>qt\<in>set (assigned_tasks info). task_valid L qt"
    and "known_workers L' = map_insert w info (known_workers L)" and "queries L' = queries L"
  shows "tasks_valid L'"
  using assms by (auto simp: tasks_valid_def task_valid_def)

lemma queries_sound_frame:
  "queries L' = queries L \<Longrightarrow> accepted L' = accepted L \<Longrightarrow> queries_sound D L' = queries_sound D L"
  by (simp add: queries_sound_def answers_def)

text \<open>An update of one query that leaves the answers alone.\<close>

lemma queries_sound_update:
  assumes "queries_sound D L" and "i < length (queries L)" and "query_sound D (answers L i) i Q"
  shows "queries_sound D (L\<lparr>queries := (queries L)[i := Q]\<rparr>)"
  using assms by (auto simp: queries_sound_def answers_def nth_list_update)

section \<open>The first part of a round\<close>

lemma take_query_sound:
  assumes "leader_sound D L"
  shows "leader_sound D (take_query D ab L)"
proof -
  let ?q = "make_query D (of_nat (length (queries L))) ab" and ?L = "take_query D ab L"
  note ok = assms[unfolded leader_sound_def]
  have qs: "queries ?L = queries L @ [?q]" "known_workers ?L = known_workers L"
    "accepted ?L = accepted L" "worker_fds ?L = worker_fds L"
    by (simp_all add: take_query_def)
  have ans: "answers ?L i = answers L i" for i by (simp add: answers_def qs)
  have "answers L (length (queries L)) = []"
    using ok by (auto simp: answers_def queries_sound_def filter_empty_conv)
  then have new: "query_sound D (answers L (length (queries L))) (length (queries L)) ?q"
    by (simp add: query_sound_def fresh_query total_def all_slices_def)
  have "queries_sound D ?L"
    using ok new by (auto simp: queries_sound_def ans qs nth_append less_Suc_eq)
  moreover have "task_valid ?L qt" if "task_valid L qt" for qt
    using that by (rule task_valid_mono) (simp add: qs)
  then have "tasks_valid ?L" using ok unfolding tasks_valid_def qs by blast
  ultimately show ?thesis using ok by (simp add: leader_sound_def slots_ok_def qs)
qed

lemma take_queries_sound: "leader_sound D L \<Longrightarrow> leader_sound D (take_queries D L)"
  unfolding take_queries_def
  by (rule fold_invariant_on) (simp_all add: take_query_sound leader_sound_frame[of "L\<lparr>new_tasks := []\<rparr>" L])

lemma add_worker_sound:
  assumes "leader_sound D L" and "u \<le> length (worker_fds L)"
  shows "post {RuntimeError} (\<lambda>(u', L'). leader_sound D L' \<and> u' \<le> length (worker_fds L'))
    (add_worker sock (w, hb) (u, L))"
proof -
  note ok = assms(1)[unfolded leader_sound_def]
  show ?thesis
  proof (cases "map_find (known_workers L) w")
    case (Some info)
    let ?L = "L\<lparr>known_workers := map_insert w (info\<lparr>last_heartbeat := hb\<rparr>) (known_workers L)\<rparr>"
    have "slots_ok ?L" using ok Some by (intro update_worker_ok) auto
    moreover have "tasks_valid ?L"
      using ok Some by (intro tasks_valid_insert[of L _ ?L]) (auto dest: tasks_validD)
    ultimately have "leader_sound D ?L" using ok by (simp add: leader_sound_def queries_sound_def answers_def)
    then show ?thesis using assms(2) by (simp add: add_worker_def Some)
  next
    case None
    define v where "v = next_unused (worker_fds L) u"
    have v: "v \<le> length (worker_fds L)" "v < length (worker_fds L) \<Longrightarrow> worker_fds L ! v = - 1"
      using next_unused_spec[OF assms(2)] by (auto simp: v_def)
    obtain fd res where sock: "sock w = (fd, res)" by fastforce
    define info where "info = \<lparr>last_heartbeat = hb, worker_id = w, position_in_buffer = of_nat v,
      assigned_tasks = []\<rparr>"
    let ?L = "L\<lparr>worker_fds := (worker_fds L)[v := fd], known_workers := map_insert w info (known_workers L)\<rparr>"
    have new: "leader_sound D ?L" if "v < length (worker_fds L)" "fd \<noteq> - 1"
    proof -
      have "slots_ok ?L"
        using ok None that v(2) by (intro new_worker_ok) (simp_all add: info_def)
      moreover have "tasks_valid ?L"
        using ok by (intro tasks_valid_insert[of L info ?L]) (auto simp: info_def)
      ultimately show ?thesis using ok by (simp add: leader_sound_def queries_sound_def answers_def)
    qed
    show ?thesis
    proof (cases "v = length (worker_fds L)")
      case True
      then show ?thesis using assms(1) v_def None by (simp add: add_worker_def Let_def)
    next
      case False
      then show ?thesis
        using new v(1) None sock by (simp add: add_worker_def Let_def v_def[symmetric] info_def)
    qed
  qed
qed

lemma add_workers_sound:
  assumes "leader_sound D L"
  shows "post {RuntimeError} (\<lambda>(u, L'). leader_sound D L') (fold_res (add_worker sock) hbs (0, L))"
proof -
  have "post {RuntimeError} (\<lambda>(u, L'). leader_sound D L' \<and> u \<le> length (worker_fds L'))
      (fold_res (add_worker sock) hbs (0, L))"
    by (rule post_fold) (use assms in \<open>auto intro: add_worker_sound\<close>)
  then show ?thesis by (rule post_weaken) auto
qed

text \<open>The removal of workers collects their tasks.\<close>

lemma remove_workers_sound:
  assumes "leader_sound D L" and "\<forall>qt\<in>set pending. task_valid L qt" and "distinct ws"
    and "\<forall>w\<in>set ws. map_find (known_workers L) w \<noteq> None"
  shows "succeeds (\<lambda>(p', L'). leader_sound D L' \<and> (\<forall>qt\<in>set p'. task_valid L' qt))
    (fold_res remove_worker ws (pending, L))"
  using assms
proof (induction ws arbitrary: pending L)
  case Nil
  then show ?case by simp
next
  case (Cons w ws)
  then obtain info where info: "map_find (known_workers L) w = Some info" by auto
  note ok = Cons.prems(1)[unfolded leader_sound_def]
  let ?p = "unat (position_in_buffer info)"
  let ?L = "L\<lparr>closed_fds := closed_fds L @ [worker_fds L ! ?p], worker_fds := (worker_fds L)[?p := - 1],
    known_workers := map_erase w (known_workers L), requests := filter (\<lambda>(v, _). v \<noteq> w) (requests L)\<rparr>"
  have sl: "map_ok (known_workers L)" "?p < length (worker_fds L)"
    using ok slots_okD(1,3)[of L] info by auto
  have step: "remove_worker w (pending, L) = Inr (pending @ assigned_tasks info, ?L)"
    using sl(2) by (simp add: remove_worker_def info Let_def)
  have "tasks_valid ?L" using ok sl(1) by (auto simp: tasks_valid_def task_valid_def split: if_splits)
  then have "leader_sound D ?L"
    using ok remove_worker_slots[OF conjunct1[OF ok] info] by (simp add: leader_sound_def queries_sound_def answers_def)
  moreover have "\<forall>qt\<in>set (pending @ assigned_tasks info). task_valid ?L qt"
    using Cons.prems(2) tasks_validD[of L w info] ok info by (auto simp: task_valid_def)
  moreover have "\<forall>v\<in>set ws. map_find (known_workers ?L) v \<noteq> None"
    using Cons.prems(3,4) sl(1) by auto
  ultimately show ?case using Cons.IH Cons.prems(3) by (simp add: step)
qed

lemma query_sound_back:
  assumes "query_sound D ans i q" and "unat t < slices"
  shows "query_sound D ans i (q\<lparr>tasks_in_progress := set_erase t (tasks_in_progress q),
    tasks_to_do := set_insert t (tasks_to_do q)\<rparr>)"
  using assms all_slices_moves(2) by (simp add: query_sound_def)

lemma return_task_sound:
  assumes "leader_sound D L" and "task_valid L qt"
  shows "succeeds (\<lambda>L'. leader_sound D L' \<and> length (queries L') = length (queries L)) (return_task qt L)"
proof -
  obtain q t where qt: "qt = (q, t)" by (cases qt)
  note ok = assms(1)[unfolded leader_sound_def]
  have q: "unat q < length (queries L)" "unat t < slices" using assms(2) by (simp_all add: qt task_valid_def)
  let ?Q = "(queries L ! unat q)\<lparr>tasks_in_progress := set_erase t (tasks_in_progress (queries L ! unat q)),
    tasks_to_do := set_insert t (tasks_to_do (queries L ! unat q))\<rparr>"
  let ?L = "L\<lparr>queries := (queries L)[unat q := ?Q]\<rparr>"
  have "query_sound D (answers L (unat q)) (unat q) ?Q"
    using ok q by (intro query_sound_back) (simp_all add: queries_sound_def)
  then have "queries_sound D ?L" using ok q(1) by (intro queries_sound_update) simp_all
  then have "leader_sound D ?L"
    using ok by (simp add: leader_sound_def slots_ok_def tasks_valid_def task_valid_def)
  then show ?thesis using assms(1) q(1) by (simp add: return_task_def qt with_query_def)
qed

lemma return_tasks_sound:
  assumes "leader_sound D L" and "\<forall>qt\<in>set pending. task_valid L qt"
  shows "succeeds (\<lambda>L'. leader_sound D L' \<and> (\<forall>qt\<in>set pending. task_valid L' qt)) (fold_res return_task pending L)"
proof -
  have "succeeds (\<lambda>L'. leader_sound D L' \<and> length (queries L') = length (queries L))
      (fold_res return_task pending L)"
  proof (rule post_fold)
    fix qt M assume "qt \<in> set pending" and M: "leader_sound D M \<and> length (queries M) = length (queries L)"
    then have "task_valid M qt" using assms(2) task_valid_mono[of L qt M] by simp
    from return_task_sound[OF _ this] M
    show "succeeds (\<lambda>L'. leader_sound D L' \<and> length (queries L') = length (queries L)) (return_task qt M)"
      by simp
  qed (simp add: assms(1))
  then show ?thesis by (rule post_weaken) (use assms(2) in \<open>auto intro: task_valid_mono\<close>)
qed

section \<open>Assignment\<close>

lemma start_queries_sound:
  assumes "leader_sound D L"
  shows "leader_sound D (L\<lparr>queries := map start_query (queries L)\<rparr>)"
    and "qt \<in> set (open_tasks (queries L)) \<Longrightarrow> task_valid L qt"
proof -
  note ok = assms[unfolded leader_sound_def]
  have "query_sound D ans i (start_query q)" if "query_sound D ans i q" for ans i q
  proof (cases "tasks_to_do q = []")
    case False
    then show ?thesis using that by (simp add: query_sound_def start_query_def all_slices_moves(1))
  qed (use that in \<open>simp add: start_query_def\<close>)
  then have "queries_sound D (L\<lparr>queries := map start_query (queries L)\<rparr>)"
    using ok by (simp add: queries_sound_def answers_def)
  then show "leader_sound D (L\<lparr>queries := map start_query (queries L)\<rparr>)"
    using ok by (simp add: leader_sound_def slots_ok_def tasks_valid_def task_valid_def)
next
  assume "qt \<in> set (open_tasks (queries L))"
  then obtain q t where "q \<in> set (queries L)" "t \<in> set (tasks_to_do q)" "qt = (query_id q, t)"
    by (auto simp: open_tasks_def)
  then obtain i where i: "i < length (queries L)" "t \<in> set (tasks_to_do (queries L ! i))"
    "qt = (query_id (queries L ! i), t)" by (auto simp: in_set_conv_nth)
  then have q: "query_sound D (answers L i) i (queries L ! i)"
    using assms by (simp add: leader_sound_def queries_sound_def)
  then have "unat t < slices" using i(2) all_slices_bound unfolding query_sound_def by blast
  moreover have "unat (query_id (queries L ! i)) \<le> i"
    using q by (simp add: query_sound_def unat_of_nat take_bit_nat_less_eq_self)
  ultimately show "task_valid L qt" using i by (simp add: task_valid_def)
qed

lemma assign_task_sound:
  assumes "leader_sound D L" and "task_valid L qt" and "loads_ok L workers" and "known_workers L \<noteq> []"
  shows "\<exists>workers' L'. assign_task qt (workers, L) = Inr (workers', L') \<and> leader_sound D L' \<and>
    loads_ok L' workers' \<and> known_workers L' \<noteq> [] \<and> queries L' = queries L"
proof -
  note ok = assms(1)[unfolded leader_sound_def]
  obtain x m where "known_workers L = x # m" using assms(4) by (cases "known_workers L") auto
  then have "set (map_keys (known_workers L)) \<noteq> {}" by (cases x) simp
  then obtain sz w ws where ws: "workers = (sz, w) # ws"
    using assms(3) by (cases workers) (auto simp: loads_ok_def)
  then have "w \<in> set (map_keys (known_workers L))" using assms(3) by (auto simp: loads_ok_def)
  then obtain info where info: "map_find (known_workers L) w = Some info"
    using map_find_None_iff[of "known_workers L" w] by auto
  let ?i = "info\<lparr>assigned_tasks := assigned_tasks info @ [qt]\<rparr>"
  let ?L = "L\<lparr>known_workers := map_insert w ?i (known_workers L)\<rparr>"
  have "tasks_valid ?L"
    using ok info assms(2) by (intro tasks_valid_insert[of L ?i ?L]) (auto dest: tasks_validD)
  moreover have "slots_ok ?L" using ok info by (intro update_worker_ok) auto
  ultimately have "leader_sound D ?L" using ok by (simp add: leader_sound_def queries_sound_def answers_def)
  moreover have w: "distinct (map snd ws)" "w \<notin> snd ` set ws" using assms(3) by (auto simp: loads_ok_def ws)
  have "loads_ok ?L (set_insert (sz + 1, w) ws)"
    using insert_load[OF w, of "sz + 1"] assms(3) by (auto simp: loads_ok_def ws map_keys_insert)
  moreover have "known_workers ?L \<noteq> []" by (simp add: map_insert_not_Nil)
  ultimately show ?thesis by (simp add: assign_task_def ws map_subscript_def info Let_def)
qed

lemma reassign_sound:
  assumes "leader_sound D L" and "\<forall>qt\<in>set pending. task_valid L qt"
  shows "succeeds (\<lambda>(workers, L'). leader_sound D L') (reassign pending L)"
proof (cases "known_workers L = []")
  case True
  then show ?thesis using assms by (simp add: reassign_def)
next
  case False
  let ?L = "L\<lparr>queries := map start_query (queries L)\<rparr>"
  have fold: "succeeds (\<lambda>(workers, L'). leader_sound D L') (fold_res assign_task todo (workers, M))"
    if "leader_sound D M" "\<forall>qt\<in>set todo. task_valid M qt" "loads_ok M workers" "known_workers M \<noteq> []"
    for todo workers M
    using that
  proof (induction todo arbitrary: workers M)
    case Nil
    then show ?case by simp
  next
    case (Cons qt todo)
    have "task_valid M qt" using Cons.prems(2) by simp
    from assign_task_sound[OF Cons.prems(1) this Cons.prems(3,4)] obtain ws N where
      N: "assign_task qt (workers, M) = Inr (ws, N)" "leader_sound D N" "loads_ok N ws"
      "known_workers N \<noteq> []" "queries N = queries M" by blast
    moreover have "\<forall>qt\<in>set todo. task_valid N qt" using Cons.prems(2) N(5) by (simp add: task_valid_def)
    ultimately show ?case using Cons.IH[of N ws] by simp
  qed
  have "map_ok (known_workers L)" using assms(1) by (simp add: leader_sound_def slots_ok_def)
  then have "loads_ok ?L (worker_loads ?L)" by (intro worker_loads_ok) simp
  moreover have "\<forall>qt\<in>set (pending @ open_tasks (queries L)). task_valid ?L qt"
    using assms start_queries_sound(2)[OF assms(1)] by (auto simp: task_valid_def)
  moreover have "reassign pending L =
      fold_res assign_task (pending @ open_tasks (queries L)) (worker_loads ?L, ?L)"
    using False by (simp add: reassign_def collect_tasks_value Let_def)
  ultimately show ?thesis
    using fold[OF start_queries_sound(1)[OF assms(1)], of "pending @ open_tasks (queries L)"] False by simp
qed

lemma prepare_round_sound:
  assumes "leader_sound D L"
  shows "post {RuntimeError} (\<lambda>(workers, L'). leader_sound D L') (prepare_round D inp L)"
proof -
  have "leader_sound D (take_queries D (L\<lparr>hb_updates := []\<rparr>))"
    using assms leader_sound_frame[of "L\<lparr>hb_updates := []\<rparr>" L D] by (intro take_queries_sound) simp
  note add = add_workers_sound[OF this]
  have rest: "succeeds (\<lambda>(workers, L'). leader_sound D L')
      (bind_res (fold_res remove_worker (workers_to_remove M) ([], M\<lparr>wid_to_delete := []\<rparr>)) (\<lambda>(pending, M).
          bind_res (fold_res return_task pending M) (reassign pending)))"
    if M: "leader_sound D M" for M
  proof -
    have "succeeds (\<lambda>(p, N). leader_sound D N \<and> (\<forall>qt\<in>set p. task_valid N qt))
        (fold_res remove_worker (workers_to_remove M) ([], M\<lparr>wid_to_delete := []\<rparr>))"
      using M workers_to_remove_spec[of M] leader_sound_frame[of "M\<lparr>wid_to_delete := []\<rparr>" M D]
      by (intro remove_workers_sound) simp_all
    then show ?thesis
      by (rule post_bindI) (auto intro!: post_bindI[OF return_tasks_sound] reassign_sound)
  qed
  show ?thesis
    unfolding prepare_round_def Let_def
    by (rule post_bindI[OF add]) (use rest in \<open>force intro: post_mono\<close>)
qed

section \<open>The pass\<close>

lemma accept_reply_sound:
  assumes "leader_sound D L" and "map_find (known_workers L) w = Some info"
  shows "post {UndefinedReply} (\<lambda>L'. leader_sound D L' \<and> worker_fds L' = worker_fds L \<and>
    (\<exists>info'. map_find (known_workers L') w = Some info' \<and>
       position_in_buffer info' = position_in_buffer info)) (accept_reply D w (r, q, t) L)"
proof (cases "unat q < length (queries L) \<and> t \<in> set (tasks_in_progress (queries L ! unat q)) \<and>
    assigned_tasks info \<noteq> []")
  case True
  note ok = assms(1)[unfolded leader_sound_def]
  let ?i = "info\<lparr>assigned_tasks := tl (assigned_tasks info)\<rparr>"
  let ?Q = "(queries L ! unat q)\<lparr>query_result := d_add D (query_result (queries L ! unat q)) r,
    tasks_in_progress := set_erase t (tasks_in_progress (queries L ! unat q))\<rparr>"
  let ?L = "L\<lparr>known_workers := map_insert w ?i (known_workers L), accepted := accepted L @ [(q, t, r)],
    queries := (queries L)[unat q := ?Q]\<rparr>"
  have ans: "answers ?L i = (if i = unat q then answers L i @ [(q, t, r)] else answers L i)" for i
    by (auto simp: answers_def)
  have "query_sound D (answers L (unat q)) (unat q) (queries L ! unat q)"
    using ok True by (simp add: queries_sound_def)
  then have "query_sound D (answers L (unat q) @ [(q, t, r)]) (unat q) ?Q"
    using True all_slices_moves(3)[of _ "set (tasks_in_progress (queries L ! unat q))" _ t]
    by (simp add: query_sound_def total_def)
  then have "queries_sound D ?L"
    using ok True by (auto simp: queries_sound_def ans nth_list_update)
  moreover have "slots_ok ?L"
    using update_worker_ok[of L w info ?i] ok assms(2)
      slots_ok_frame[of ?L "L\<lparr>known_workers := map_insert w ?i (known_workers L)\<rparr>"] by simp
  moreover have "tasks_valid (L\<lparr>known_workers := map_insert w ?i (known_workers L)\<rparr>)"
  proof (rule tasks_valid_insert[of L ?i])
    have "set (assigned_tasks ?i) \<subseteq> set (assigned_tasks info)" by (cases "assigned_tasks info") auto
    then show "\<forall>qt\<in>set (assigned_tasks ?i). task_valid L qt"
      using tasks_validD[of L w info] ok assms(2) by blast
  qed (use ok in simp_all)
  then have "tasks_valid ?L" by (simp add: tasks_valid_def task_valid_def)
  ultimately have "leader_sound D ?L" by (simp add: leader_sound_def)
  then show ?thesis
    using True by (simp add: accept_reply_def map_subscript_def assms(2) with_query_def)
next
  case False
  then show ?thesis
    using assms by (auto simp: accept_reply_def map_subscript_def Let_def)
qed

lemma send_request_sound:
  assumes "leader_sound D L" and "map_find (known_workers L) w = Some info"
  shows "succeeds (\<lambda>L'. leader_sound D L' \<and> worker_fds L' = worker_fds L) (send_request D w fd inp L)"
proof (cases "assigned_tasks info")
  case Nil
  then show ?thesis using assms by (simp add: send_request_def map_subscript_def)
next
  case (Cons qt ts)
  obtain q t where qt: "qt = (q, t)" by (cases qt)
  note ok = assms(1)[unfolded leader_sound_def]
  have "task_valid L (q, t)" using ok assms(2) Cons qt by (auto dest: tasks_validD)
  then have t: "unat q < length (queries L)" "unat t < slices" by (simp_all add: task_valid_def)
  then have "length (all_tasks (queries L ! unat q)) = slices"
    using ok by (simp add: queries_sound_def query_sound_def)
  then show ?thesis
    using assms t Cons qt leader_sound_frame[of "L\<lparr>requests := requests L @ [(w, q, t)]\<rparr>" L D]
      leader_sound_frame[of "drop_connection w fd L" L D]
    by (simp add: send_request_def map_subscript_def drop_connection_def)
qed

lemma handle_slot_sound:
  assumes "leader_sound D L" and "i < length (worker_fds L)"
  shows "post {RuntimeError, UndefinedReply} (\<lambda>L'. leader_sound D L' \<and> worker_fds L' = worker_fds L)
    (handle_slot D ins n i L)"
proof (cases "worker_fds L ! i = - 1 \<or> slot_worker i L = of_nat n")
  case True
  then show ?thesis using assms by (auto simp: handle_slot_def Let_def)
next
  case False
  have so: "slots_ok L" using assms(1) by (simp add: leader_sound_def)
  obtain w info where info: "map_find (known_workers L) w = Some info" "unat (position_in_buffer info) = i"
    using slots_okD(5)[OF so assms(2)] False by blast
  have wid: "slot_worker i L = w" by (rule slot_worker_value[OF so info])
  let ?fd = "worker_fds L ! i" and ?inp = "ins i"
  let ?Q = "\<lambda>L'. leader_sound D L' \<and> worker_fds L' = worker_fds L \<and> map_find (known_workers L') w \<noteq> None"
  have drop: "?Q (drop_connection w ?fd M)" if "?Q M" for M
    using that leader_sound_frame[of "drop_connection w ?fd M" M D] by (simp add: drop_connection_def)
  define M where "M = (if hangup ?inp then drop_connection w ?fd L else L)"
  have M: "?Q M" unfolding M_def using drop[of L] assms(1) info(1) by auto
  then obtain j where j: "map_find (known_workers M) w = Some j" by auto
  have "post {UndefinedReply} ?Q (receive_reply D w ?fd ?inp M)"
  proof (cases "reply ?inp")
    case None
    then show ?thesis using drop[OF M] by (simp add: receive_reply_def)
  next
    case (Some msg)
    obtain r q t where "parse_reply D (reply_garbage ?inp) (take reply_size msg) = (r, q, t)"
      by (cases "parse_reply D (reply_garbage ?inp) (take reply_size msg)") auto
    then show ?thesis
      using accept_reply_sound[OF _ j, of D r q t] M Some
      by (auto simp: receive_reply_def elim!: post_weaken)
  qed
  then have recv: "post {UndefinedReply} ?Q (if readable ?inp then receive_reply D w ?fd ?inp M else Inr M)"
    using M by simp
  have send: "post {UndefinedReply} (\<lambda>L'. leader_sound D L' \<and> worker_fds L' = worker_fds L)
      (if writable ?inp then send_request D w ?fd ?inp N else Inr N)" if "?Q N" for N
    using that send_request_sound[of D N w _ ?fd ?inp] by (auto elim!: post_mono)
  have "handle_slot D ins n i L =
      bind_res (if readable ?inp then receive_reply D w ?fd ?inp M else Inr M)
        (\<lambda>L. if writable ?inp then send_request D w ?fd ?inp L else Inr L)"
    using False by (simp add: handle_slot_def wid M_def Let_def)
  moreover have "post {UndefinedReply} (\<lambda>L'. leader_sound D L' \<and> worker_fds L' = worker_fds L)
      (bind_res (if readable ?inp then receive_reply D w ?fd ?inp M else Inr M)
        (\<lambda>L. if writable ?inp then send_request D w ?fd ?inp L else Inr L))"
    by (rule post_bindI[OF recv send])
  ultimately show ?thesis by (auto intro: post_mono[of "{UndefinedReply}"])
qed

section \<open>Runs\<close>

lemma RunOverWorkers_sound:
  assumes "leader_sound D L"
  shows "post {RuntimeError, UndefinedReply} (leader_sound D) (RunOverWorkers D inp L)"
  unfolding RunOverWorkers_def
proof (rule post_bindI[OF post_mono[OF prepare_round_sound[OF assms]]], assumption, simp, clarify)
  fix workers :: "(u32 \<times> WorkerId) std_set" and M assume M: "leader_sound D M"
  have "post {RuntimeError, UndefinedReply} (\<lambda>N. leader_sound D N \<and> worker_fds N = worker_fds M)
      (fold_res (handle_slot D (slots inp) n) [0..<length (worker_fds M)] M)" for n
  proof (rule post_fold)
    fix i N assume "i \<in> set [0..<length (worker_fds M)]"
      and N: "leader_sound D N \<and> worker_fds N = worker_fds M"
    then have "i < length (worker_fds N)" by simp
    from handle_slot_sound[OF _ this] N
    show "post {RuntimeError, UndefinedReply} (\<lambda>N. leader_sound D N \<and> worker_fds N = worker_fds M)
        (handle_slot D (slots inp) n i N)" by simp
  qed (simp add: M)
  from post_weaken[OF this[of "length workers"], of "leader_sound D"]
  show "post {RuntimeError, UndefinedReply} (leader_sound D) (if \<not> poll_ok inp then Inl RuntimeError
      else fold_res (handle_slot D (slots inp) (length workers)) [0..<length (worker_fds M)] M)"
    by simp
qed

lemma leader_step_sound:
  assumes "leader_sound D L"
  shows "post {RuntimeError, UndefinedReply} (leader_sound D) (leader_step D e L)"
proof (cases e)
  case (Round inp)
  then show ?thesis using RunOverWorkers_sound[OF assms] by simp
next
  case (Query a b)
  then show ?thesis
    using assms leader_sound_frame[of "L\<lparr>new_tasks := new_tasks L @ [(a, b)]\<rparr>" L D] by (simp add: GetResult_def)
next
  case (Heartbeat w hb)
  then show ?thesis
    using assms leader_sound_frame[of "L\<lparr>hb_updates := map_insert w hb (hb_updates L)\<rparr>" L D] by simp
qed

lemma always_true: "always (\<lambda>e s. True) step es s"
  by (induction es arbitrary: s) (simp_all split: sum.split)

interpretation sound_machine:
  guarded_machine "leader_step D" "\<lambda>e L. True" "\<lambda>_. leader_sound D" "{RuntimeError, UndefinedReply}" for D
  by unfold_locales (rule leader_step_sound)

lemma leader_run_sound:
  "post {RuntimeError, UndefinedReply} (leader_sound D) (fold_res (leader_step D) es (make_Leader n))"
  by (rule sound_machine.guarded_run[OF make_Leader_sound always_true])

end
