(* ===== verification/LeaderAnswers.thy ===== *)
theory LeaderAnswers
  imports LeaderSound IntegralWorker
begin

text \<open>
  What the leader makes of its queries: the slices of every query of the user are kept in the order of
  the queries, whatever the workers send. When the ten answers that were counted for a finished query are
  what the worker's function gives for the slices they name, they add up to the integral over the whole
  interval.
\<close>

section \<open>Frames\<close>

definition slice_table :: "'d Leader \<Rightarrow> 'd Task list list" where
  "slice_table L = map all_tasks (queries L)"

definition quiet :: "'d Leader \<Rightarrow> 'd Leader \<Rightarrow> bool" where
  "quiet L L' \<longleftrightarrow> slice_table L' = slice_table L \<and> new_tasks L' = new_tasks L \<and>
     accepted L' = accepted L \<and> length (worker_fds L') = length (worker_fds L)"

interpretation quiet_run: run_relation quiet
  by unfold_locales (auto simp: quiet_def)

lemma table_update:
  "i < length (queries L) \<Longrightarrow> all_tasks q = all_tasks (queries L ! i) \<Longrightarrow>
   slice_table (L\<lparr>queries := (queries L)[i := q]\<rparr>) = slice_table L"
  by (rule nth_equalityI) (auto simp: slice_table_def nth_list_update)

lemma quiet_add_worker: "on_ok (\<lambda>(u', L'). quiet L L') (add_worker s x (u, L))"
  by (cases x) (auto simp: add_worker_def quiet_def slice_table_def Let_def split: option.split prod.split)

lemma quiet_remove_worker: "on_ok (\<lambda>(p', L'). quiet L L') (remove_worker w (p, L))"
  by (auto simp: remove_worker_def quiet_def slice_table_def Let_def split: option.split)

lemma quiet_return_task: "on_ok (quiet L) (return_task x L)"
  by (cases x) (simp add: return_task_def with_query_def quiet_def table_update)

lemma quiet_assign_task: "on_ok (\<lambda>(ws', L'). quiet L L') (assign_task x (ws, L))"
  by (auto simp: assign_task_def quiet_def slice_table_def Let_def split: list.split prod.split)

text \<open>Steps and loops whose state has a second component.\<close>

lemma quiet_after:
  "quiet L M \<Longrightarrow> on_ok (\<lambda>(v, L'). quiet M L') m \<Longrightarrow> on_ok (\<lambda>(v, L'). quiet L L') m"
  by (erule post_weaken) (auto intro: quiet_run.run_trans)

lemma quiet_fold_value:
  assumes "\<And>x v L. on_ok (\<lambda>(v', L'). quiet L L') (f x (v, L))"
  shows "on_ok (\<lambda>(v', L'). quiet L L') (fold_res f xs (v, L))"
proof (rule post_fold[where P = "\<lambda>(v', L'). quiet L L'"])
  fix x and s :: "'b \<times> 'c Leader" assume "case s of (v', L') \<Rightarrow> quiet L L'"
  then show "on_ok (\<lambda>(v', L'). quiet L L') (f x s)"
    using assms[of "snd s" x "fst s"] by (cases s) (auto intro: quiet_after)
qed (simp add: quiet_run.run_refl)

lemma quiet_reassign: "on_ok (\<lambda>(ws, L'). quiet L L') (reassign pending L)"
proof -
  let ?L = "L\<lparr>queries := map start_query (queries L)\<rparr>"
  have "quiet L ?L" by (simp add: quiet_def slice_table_def start_query_def)
  from quiet_after[OF this quiet_fold_value[of assign_task, OF quiet_assign_task]]
  show ?thesis by (simp add: reassign_def collect_tasks_value Let_def quiet_run.run_refl)
qed

text \<open>Up to \<open>poll\<close> a round only turns the new queries into slices.\<close>

definition slices_of :: "'d Double \<Rightarrow> 'd \<times> 'd \<Rightarrow> 'd Task list" where
  "slices_of D ab = map (slice D (fst ab) (snd ab)) [0..<slices]"

lemma length_slices: "length (slices_of D ab) = slices"
  by (simp add: slices_of_def)

lemma take_queries_table:
  "slice_table (take_queries D L) = slice_table L @ map (slices_of D) (new_tasks L)"
  "new_tasks (take_queries D L) = []" "accepted (take_queries D L) = accepted L"
  "worker_fds (take_queries D L) = worker_fds L"
proof -
  have "slice_table (fold (take_query D) abs M) = slice_table M @ map (slices_of D) abs \<and>
      new_tasks (fold (take_query D) abs M) = new_tasks M \<and>
      accepted (fold (take_query D) abs M) = accepted M \<and>
      worker_fds (fold (take_query D) abs M) = worker_fds M" for abs and M :: "'a Leader"
    by (induction abs arbitrary: M)
      (auto simp: take_query_def slice_table_def make_query_def slices_of_def split: prod.split)
  then show "slice_table (take_queries D L) = slice_table L @ map (slices_of D) (new_tasks L)"
    "new_tasks (take_queries D L) = []" "accepted (take_queries D L) = accepted L"
    "worker_fds (take_queries D L) = worker_fds L"
    by (simp_all add: take_queries_def slice_table_def)
qed

lemma prepare_round_table:
  "on_ok (\<lambda>(ws, L'). slice_table L' = slice_table L @ map (slices_of D) (new_tasks L) \<and>
     new_tasks L' = [] \<and> accepted L' = accepted L \<and> length (worker_fds L') = length (worker_fds L))
   (prepare_round D inp L)"
proof -
  let ?L = "take_queries D (L\<lparr>hb_updates := []\<rparr>)"
  have drop: "quiet L (L\<lparr>wid_to_delete := []\<rparr>)" for L :: "'a Leader"
    by (simp add: quiet_def slice_table_def)
  have remove: "on_ok (\<lambda>(p, L'). quiet L L') (fold_res remove_worker ws (p, L\<lparr>wid_to_delete := []\<rparr>))"
    for ws p and L :: "'a Leader"
    by (rule quiet_after[OF drop quiet_fold_value[of remove_worker, OF quiet_remove_worker]])
  have give_back: "on_ok (\<lambda>(ws, L'). quiet L L') (bind_res (fold_res return_task p L) (reassign p))"
    for p and L :: "'a Leader"
    by (rule post_bindI[OF quiet_run.run_fold[OF quiet_return_task]])
       (auto intro: quiet_after quiet_reassign)
  have "on_ok (\<lambda>(ws, L'). quiet ?L L') (prepare_round D inp L)"
    unfolding prepare_round_def Let_def
    by (rule post_bindI[OF quiet_fold_value[of "add_worker (sockets inp)", OF quiet_add_worker]])
       (force intro: post_bindI[OF remove] give_back quiet_after)
  then show ?thesis
    using take_queries_table[of D "L\<lparr>hb_updates := []\<rparr>"]
    by (auto simp: quiet_def slice_table_def elim!: post_weaken)
qed

section \<open>The pass\<close>

definition same_table :: "'d Leader \<Rightarrow> 'd Leader \<Rightarrow> bool" where
  "same_table L L' \<longleftrightarrow> slice_table L' = slice_table L \<and> new_tasks L' = new_tasks L"

interpretation table_run: run_relation same_table
  by unfold_locales (auto simp: same_table_def)

lemma same_table_accept: "on_ok (same_table L) (accept_reply D w x L)"
  by (cases x) (auto simp: accept_reply_def with_query_def same_table_def slice_table_def map_update Let_def
      split: prod.split, (metis list_update_id map_update)+)

lemma same_table_send: "on_ok (same_table L) (send_request D w fd inp L)"
  by (auto simp: send_request_def drop_connection_def same_table_def slice_table_def Let_def
      split: list.split prod.split)

lemma same_table_slot: "on_ok (same_table L) (handle_slot D ins k i L)"
proof -
  have drop: "same_table M (drop_connection w fd M)" for w fd and M :: "'a Leader"
    by (simp add: same_table_def drop_connection_def slice_table_def)
  have recv: "on_ok (same_table M) (if readable (ins i) then receive_reply D w fd (ins i) M else Inr M)"
    for w fd M
    using drop[of M] table_run.run_refl[of M] same_table_accept[of M]
    by (simp add: receive_reply_def split: option.split)
  have send: "on_ok (same_table M) (if writable (ins i) then send_request D w fd (ins i) M else Inr M)"
    for w fd M
    using same_table_send[of M] table_run.run_refl[of M] by simp
  let ?w = "slot_worker i L" and ?fd = "worker_fds L ! i"
  have "same_table L (if hangup (ins i) then drop_connection ?w ?fd L else L)"
    using drop table_run.run_refl[of L] by simp
  from table_run.run_after[OF this table_run.run_bind[OF recv send], of ?w ?fd] show ?thesis
    using table_run.run_refl[of L] unfolding handle_slot_def Let_def post_if post_simps by auto
qed

lemma round_table:
  "on_ok (\<lambda>L'. slice_table L' = slice_table L @ map (slices_of D) (new_tasks L) \<and> new_tasks L' = [])
   (RunOverWorkers D inp L)"
  unfolding RunOverWorkers_def
proof (rule post_bindI[OF prepare_round_table], clarify)
  fix ws :: "(u32 \<times> WorkerId) std_set" and M :: "'a Leader"
  assume M: "slice_table M = slice_table L @ map (slices_of D) (new_tasks L)" "new_tasks M = []"
  have "on_ok (same_table M) (fold_res (handle_slot D (slots inp) (length ws)) [0..<length (worker_fds M)] M)"
    by (rule table_run.run_fold) (rule same_table_slot)
  then show "on_ok (\<lambda>L'. slice_table L' = slice_table L @ map (slices_of D) (new_tasks L) \<and> new_tasks L' = [])
     (if \<not> poll_ok inp then Inl RuntimeError
      else fold_res (handle_slot D (slots inp) (length ws)) [0..<length (worker_fds M)] M)"
    using M by (auto simp: same_table_def elim!: post_weaken)
qed

section \<open>The queries of the user\<close>

text \<open>\<open>asked es\<close>: the intervals that the user asked for in the run \<open>es\<close>.\<close>

fun asked :: "'d LeaderEvent list \<Rightarrow> ('d \<times> 'd) list" where
  "asked [] = []"
| "asked (Query a b # es) = (a, b) # asked es"
| "asked (e # es) = asked es"

lemma asked_append: "asked (es @ es') = asked es @ asked es'"
  by (induction es rule: asked.induct) simp_all

definition all_asked :: "'d Double \<Rightarrow> 'd LeaderEvent list \<Rightarrow> 'd Leader \<Rightarrow> bool" where
  "all_asked D es L \<longleftrightarrow>
     slice_table L @ map (slices_of D) (new_tasks L) = map (slices_of D) (asked es)"

lemma all_asked_step:
  assumes "all_asked D es L"
  shows "on_ok (all_asked D (es @ [e])) (leader_step D e L)"
proof (cases e)
  case (Round inp)
  have "on_ok (all_asked D (es @ [e])) (RunOverWorkers D inp L)"
    by (rule post_weaken[OF round_table]) (use assms in \<open>auto simp: all_asked_def Round asked_append\<close>)
  then show ?thesis by (simp add: Round)
next
  case (Query a b)
  then show ?thesis
    using assms by (simp add: all_asked_def GetResult_def asked_append slice_table_def)
next
  case (Heartbeat w hb)
  then show ?thesis using assms by (simp add: all_asked_def asked_append slice_table_def)
qed

interpretation asked_machine:
  guarded_machine "leader_step D" "\<lambda>e L. True" "all_asked D" UNIV for D
  by unfold_locales (rule all_asked_step)

lemma all_asked_run: "on_ok (all_asked D es) (fold_res (leader_step D) es (make_Leader n))"
proof -
  have "all_asked D [] (make_Leader n)" by (simp add: all_asked_def make_Leader_def slice_table_def)
  from asked_machine.guarded_run[OF this always_true] show ?thesis by simp
qed

section \<open>Right answers\<close>

text \<open>The answer \<open>(q, t, r)\<close> is what the worker computes for the slice \<open>t\<close> of the query \<open>q\<close>.\<close>

definition right_answer :: "'d Double \<Rightarrow> 'd Task list list \<Rightarrow> QueryId \<times> TaskId \<times> 'd \<Rightarrow> bool" where
  "right_answer D table = (\<lambda>(q, t, r). unat q < length table \<and> unat t < length (table ! unat q) \<and>
     (let task = table ! unat q ! unat t
      in EvaluateIntegral D (task_a task) (task_b task) 100 (worker_function D) = Some (Inr r)))"

section \<open>The integral of a query\<close>

text \<open>A list of pairs without a repeated key sums up its values by key.\<close>

lemma total_exact:
  "total (exact_double p s) ans = (\<Sum>(q, t, r)\<leftarrow>ans. r)"
proof -
  have "foldl (\<lambda>s (q, t, r). s + r) z ans = z + (\<Sum>(q, t, r)\<leftarrow>ans. r)" for z :: "'a::linordered_field"
    by (induction ans arbitrary: z) (auto simp: add.assoc)
  then show ?thesis by (simp add: total_def)
qed

lemma total_by_slice:
  assumes "distinct (map (\<lambda>(q, t, r). t) ans)" and "\<forall>(q, t, r)\<in>set ans. r = F (unat t)"
    and "(\<lambda>(q, t, r). t) ` set ans = {t :: TaskId. unat t < k}" and "k \<le> 2 ^ 64"
  shows "(\<Sum>(q, t, r)\<leftarrow>ans. r) = (\<Sum>j<k. F j :: 'd::comm_monoid_add)"
proof -
  have "(\<Sum>(q, t, r)\<leftarrow>ans. r) = (\<Sum>t\<leftarrow>map (\<lambda>(q, t, r). t) ans. F (unat t))"
    using assms(2) by (induction ans) auto
  also have "\<dots> = (\<Sum>t\<in>{t :: TaskId. unat t < k}. F (unat t))"
    using assms(1,3) by (subst sum_list_distinct_conv_sum_set) simp_all
  also have "\<dots> = (\<Sum>j<k. F j)"
  proof (rule sum.reindex_bij_witness[where i = "of_nat" and j = unat])
    fix j assume "j \<in> {..<k}"
    then show "unat (of_nat j :: TaskId) = j" "of_nat j \<in> {t :: TaskId. unat t < k}"
      using assms(4) by (simp_all add: unat_of_nat_small)
  qed simp_all
  finally show ?thesis .
qed

lemma slice_exact:
  fixes a b :: "'d::linordered_field"
  assumes "a < b" and "j < slices"
  defines "w \<equiv> (b - a) / of_nat slices"
  shows "slices_of (exact_double p s) (a, b) ! j = \<lparr>task_a = a + w * of_nat j, task_b = a + w * of_nat (j + 1)\<rparr>"
    and "a + w * of_nat j < a + w * of_nat (j + 1)"
proof -
  show "slices_of (exact_double p s) (a, b) ! j = \<lparr>task_a = a + w * of_nat j, task_b = a + w * of_nat (j + 1)\<rparr>"
    using assms(2) by (simp add: slices_of_def slice_def w_def)
  have "0 < w" using assms(1) by (simp add: w_def slices_def)
  then show "a + w * of_nat j < a + w * of_nat (j + 1)" by (simp add: algebra_simps)
qed

text \<open>The worker's integrand is \<open>2 * x + 5\<close>; its integral over the slices telescopes.\<close>

definition integral_2x5 :: "'d::linordered_field \<Rightarrow> 'd \<Rightarrow> 'd" where
  "integral_2x5 a b = b * b - a * a + 5 * (b - a)"

lemma worker_integral:
  fixes a b :: "'d::linordered_field"
  assumes "a < b"
  shows "EvaluateIntegral (exact_double p s) a b 100 (worker_function (exact_double p s)) =
    Some (Inr (integral_2x5 a b))"
proof -
  have "worker_function (exact_double p s) = (\<lambda>x. 2 * x + 5 :: 'd)"
    by (simp add: worker_function_def fun_eq_iff)
  then show ?thesis using integral_affine[of a b 100 p s 2 5] assms by (simp add: integral_2x5_def)
qed

lemma sum_slices:
  fixes a w :: "'d::linordered_field"
  shows "(\<Sum>j<n. integral_2x5 (a + w * of_nat j) (a + w * of_nat (j + 1))) = integral_2x5 a (a + w * of_nat n)"
  by (induction n) (simp_all add: integral_2x5_def algebra_simps)

text \<open>As many answers as slices, one at least for each: no slice was answered twice.\<close>

lemma answers_distinct:
  assumes "(\<lambda>(q, t, r). t) ` set ans = {t :: TaskId. unat t < slices}" and "length ans = slices"
  shows "distinct (map (\<lambda>(q, t, r). t) ans)"
proof (rule card_distinct)
  have "card {t :: TaskId. unat t < slices} = card {..<slices}"
    by (rule bij_betw_same_card[of unat], rule bij_betw_byWitness[of _ of_nat])
      (auto simp: slices_def unat_of_nat_small)
  then show "card (set (map (\<lambda>(q, t, r). t) ans)) = length (map (\<lambda>(q, t, r). t) ans)"
    using assms by simp
qed

lemma query_exact:
  fixes a b :: "'d::linordered_field" and p s
  defines "D \<equiv> exact_double p s"
  assumes sound: "query_sound D (answers L i) i (queries L ! i)"
    and table: "slice_table L ! i = slices_of D (a, b)" and "a < b"
    and finished: "tasks_in_progress (queries L ! i) = []" "tasks_to_do (queries L ! i) = []"
    and ten: "length (answers L i) = slices"
    and right: "\<forall>x\<in>set (answers L i). right_answer D (slice_table L) x"
  shows "query_result (queries L ! i) = integral_2x5 a b"
proof -
  note ok = sound[unfolded query_sound_def all_slices_def finished]
  define w where "w = (b - a) / of_nat slices"
  let ?F = "\<lambda>j. integral_2x5 (a + w * of_nat j) (a + w * of_nat (j + 1))"
  have F: "r = ?F (unat t)" if "(q, t, r) \<in> set (answers L i)" for q t r
  proof -
    have "unat q = i" "right_answer D (slice_table L) (q, t, r)"
      using that right by (auto simp: answers_def)
    then have t: "unat t < slices" and r: "EvaluateIntegral D (task_a (slices_of D (a, b) ! unat t))
        (task_b (slices_of D (a, b) ! unat t)) 100 (worker_function D) = Some (Inr r)"
      using table by (auto simp: right_answer_def Let_def length_slices)
    note task = slice_exact[OF \<open>a < b\<close> t, folded w_def]
    show ?thesis
      using r unfolding D_def task(1) Task.select_convs worker_integral[OF task(2)] by simp
  qed
  have "(of_nat slices :: 'd) \<noteq> 0" by (simp add: slices_def)
  then have ends: "a + w * of_nat slices = b" by (simp add: w_def)
  have ids: "(\<lambda>(q, t, r). t) ` set (answers L i) = {t. unat t < slices}" using ok by simp
  have "query_result (queries L ! i) = (\<Sum>(q, t, r)\<leftarrow>answers L i. r)"
    using ok total_exact unfolding D_def by metis
  also have "\<dots> = sum ?F {..<slices}"
    using answers_distinct[OF ids ten] ids F by (intro total_by_slice) (auto simp: slices_def)
  also have "\<dots> = integral_2x5 a b"
    unfolding sum_slices by (simp add: ends)
  finally show ?thesis .
qed

end
