(* ===== verification/IntegralPrograms.thy ===== *)
theory IntegralPrograms
  imports Exchange Discovery LeaderAnswers
begin

text \<open>
  The two programs of the integral service: the constructors, threads and destructors of
  \<open>class Leader\<close> and \<open>class Worker\<close>, and the \<open>main\<close> functions of \<open>leader_launch.cpp\<close> and
  \<open>worker_launch.cpp\<close>. What the system calls return is an input, in the order of the calls. Results
  have the type \<open>(integral_fault + 'a) option\<close>: \<open>None\<close> is a program that does not return. An exception
  that leaves a thread or \<open>main\<close> ends the program. The leader program is a sequence of the actions of
  \<open>main\<close> and its three threads, in the order in which they happen.
\<close>

section \<open>Checks\<close>

definition to_string :: "int \<Rightarrow> string" where
  "to_string i = (if i < 0 then ''-'' @ decimal_digits (nat (- i)) else decimal_digits (nat i))"

definition MessageWithFileLine :: "string \<Rightarrow> int \<Rightarrow> string \<Rightarrow> string" where
  "MessageWithFileLine file line message = file @ '':'' @ to_string line @ '': '' @ message"

definition ENSURE :: "bool \<Rightarrow> integral_fault + unit" where
  "ENSURE c = (if c then Inr () else Inl RuntimeError)"

definition HANDLE_C_ERROR :: "int \<Rightarrow> integral_fault + unit" where
  "HANDLE_C_ERROR res = (if res = - 1 then Inl RuntimeError else Inr ())"

lemma checks_simps [simp]:
  "ENSURE True = Inr ()" "ENSURE False = Inl RuntimeError" "HANDLE_C_ERROR (- 1) = Inl RuntimeError"
  "res \<noteq> - 1 \<Longrightarrow> HANDLE_C_ERROR res = Inr ()"
  by (simp_all add: ENSURE_def HANDLE_C_ERROR_def)

section \<open>Threads\<close>

text \<open>
  Every thread is a loop \<open>while (!is_stopped_)\<close>: a turn is what the loop sees when it reads the flag,
  with the inputs of the body when the flag is not set.
\<close>

datatype 'i turn = StopSeen | Turn 'i

fun thread_loop :: "('i \<Rightarrow> 's \<Rightarrow> (integral_fault + 's) option) \<Rightarrow> 'i turn list \<Rightarrow> 's
    \<Rightarrow> (integral_fault + 's) option" where
  "thread_loop body [] s = None"
| "thread_loop body (t # ts) s =
     (case t of
        StopSeen \<Rightarrow> Some (Inr s)
      | Turn i \<Rightarrow> bind_run (body i s) (thread_loop body ts))"

text \<open>The state of the discovery message thread is the list of broadcasts: port and text.\<close>

definition broadcast_turn :: "u16 \<Rightarrow> int \<Rightarrow> (u16 \<times> string) list \<Rightarrow> integral_fault + (u16 \<times> string) list" where
  "broadcast_turn port res out = bind_res (HANDLE_C_ERROR res) (\<lambda>_. Inr (out @ [(port, kLeaderMessage)]))"

definition SendDiscoveryMessage ::
    "u16 \<Rightarrow> int turn list \<Rightarrow> (u16 \<times> string) list \<Rightarrow> (integral_fault + (u16 \<times> string) list) option" where
  "SendDiscoveryMessage port = thread_loop (\<lambda>res out. Some (broadcast_turn port res out))"

definition receive_turn ::
    "(nat \<Rightarrow> int) \<Rightarrow> 'a reception list \<Rightarrow> nat \<times> (WorkerId, HeartbeatMessage) std_map
     \<Rightarrow> (integral_fault + nat \<times> (WorkerId, HeartbeatMessage) std_map) option" where
  "receive_turn clk rs s = bind_run (OnReceiveAsync (receive_discovery clk) rs s) (\<lambda>(s, _). Some (Inr s))"

definition ReceiveDiscoveryMessage ::
    "(nat \<Rightarrow> int) \<Rightarrow> 'a reception list turn list \<Rightarrow> nat \<times> (WorkerId, HeartbeatMessage) std_map
     \<Rightarrow> (integral_fault + nat \<times> (WorkerId, HeartbeatMessage) std_map) option" where
  "ReceiveDiscoveryMessage clk = thread_loop (receive_turn clk)"

definition WaitForDiscovery ::
    "('a \<Rightarrow> bool) \<Rightarrow> u16 \<Rightarrow> 'a reception list turn list \<Rightarrow> ('a \<times> string) list
     \<Rightarrow> (integral_fault + ('a \<times> string) list) option" where
  "WaitForDiscovery can_send port = thread_loop (\<lambda>rs out.
     bind_run (OnReceiveAsync (answer_discovery can_send port) rs out) (\<lambda>(out, _). Some (Inr out)))"

definition AcceptIncomingConnection ::
    "'d Double \<Rightarrow> (accepted_fd list \<times> 'd received list \<times> int list) turn list \<Rightarrow> string list
     \<Rightarrow> (integral_fault + string list) option" where
  "AcceptIncomingConnection D = thread_loop (\<lambda>(cs, rs, sends) outs. accept_loop D cs rs sends outs)"

text \<open>
  Destroying a \<open>std::jthread\<close> joins it. An exception that leaves a thread ends the program whatever the
  other threads do: \<open>thrown\<close> are those of the given threads.
\<close>

fun thrown :: "('t \<Rightarrow> (integral_fault + unit) option) \<Rightarrow> 't list \<Rightarrow> integral_fault list" where
  "thrown outcome [] = []"
| "thrown outcome (t # ts) =
     (case outcome t of Some (Inl e) \<Rightarrow> e # thrown outcome ts | _ \<Rightarrow> thrown outcome ts)"

fun join_threads :: "('t \<Rightarrow> (integral_fault + unit) option) \<Rightarrow> 't list \<Rightarrow> (integral_fault + unit) option" where
  "join_threads outcome [] = Some (Inr ())"
| "join_threads outcome (t # ts) = bind_run (outcome t) (\<lambda>_. join_threads outcome ts)"

section \<open>The leader\<close>

datatype leader_thread = SendDiscoveryThread | ReceiveDiscoveryThread | RunOverWorkersThread

record 'd LeaderProcess =
  lp_discovery_port :: u16
  lp_discovery_socket :: int
  scheduler :: "'d Leader"
  lp_is_stopped :: bool
  lp_threads :: "leader_thread list"

text \<open>\<open>discovery_fd\<close> is the result of \<open>socket\<close>, \<open>broadcast_opt\<close> that of \<open>setsockopt\<close>.\<close>

definition Leader_Leader :: "int \<Rightarrow> int \<Rightarrow> u16 \<Rightarrow> u32 \<Rightarrow> integral_fault + 'd LeaderProcess" where
  "Leader_Leader discovery_fd broadcast_opt discovery_port max_workers =
     bind_res (ENSURE (discovery_fd \<noteq> - 1)) (\<lambda>_.
     bind_res (HANDLE_C_ERROR broadcast_opt) (\<lambda>_.
       Inr \<lparr>lp_discovery_port = discovery_port, lp_discovery_socket = discovery_fd,
            scheduler = make_Leader max_workers, lp_is_stopped = False, lp_threads = []\<rparr>))"

definition Leader_Run :: "'d LeaderProcess \<Rightarrow> 'd LeaderProcess" where
  "Leader_Run p = p\<lparr>lp_threads := lp_threads p @
     [SendDiscoveryThread, ReceiveDiscoveryThread, RunOverWorkersThread]\<rparr>"

definition Leader_Stop ::
    "(leader_thread \<Rightarrow> (integral_fault + unit) option) \<Rightarrow> 'd LeaderProcess
     \<Rightarrow> (integral_fault + 'd LeaderProcess) option" where
  "Leader_Stop outcome p =
     (if lp_is_stopped p then Some (Inr p)
      else bind_run (join_threads outcome (lp_threads p)) (\<lambda>_.
        Some (Inr (p\<lparr>lp_is_stopped := True, lp_threads := []\<rparr>))))"

section \<open>The leader program\<close>

text \<open>
  The state of the program: the leader, the messages broadcast, the number of clock readings of the
  discovery thread, the standard output, and the standard input that is left, \<open>None\<close> once an extraction
  has failed.
\<close>

record 'd LeaderRun =
  leader_object :: "'d LeaderProcess"
  broadcasts :: "(u16 \<times> string) list"
  clock_readings :: nat
  std_out :: string
  std_in :: "string option"

text \<open>
  A round of the loop of \<open>main\<close>: \<open>a\<close> and \<open>b\<close> are declared in the body without a value, so an extraction
  that leaves them alone leaves \<open>garbage\<close>.
\<close>

definition input_round :: "'d Double \<Rightarrow> 'd \<times> 'd \<Rightarrow> 'd LeaderRun \<Rightarrow> 'd LeaderRun" where
  "input_round D garbage r =
     (let (a, b) = garbage;
          (a, stdin) = stream_get (d_scan D) a (std_in r);
          (b, stdin) = stream_get (d_scan D) b stdin;
          (v, L) = GetResult D a b (scheduler (leader_object r))
      in r\<lparr>leader_object := (leader_object r)\<lparr>scheduler := L\<rparr>,
           std_out := std_out r @ d_print D v @ [CHR 0x0A], std_in := stdin\<rparr>)"

text \<open>
  The actions: a round of \<open>main\<close>; a turn of the thread that broadcasts, with the result of \<open>sendto\<close>; the
  datagrams that the receiving thread handles before another thread acts (a call of \<open>OnReceiveAsync\<close> that
  is interrupted counts as several); a round over the workers. A thread acts only if \<open>Run\<close> has started it
  and the leader is not stopped.
\<close>

datatype ('a, 'd) leader_action =
    InputRound "'d \<times> 'd"
  | BroadcastTurn int
  | ReceiveTurn "'a reception list"
  | WorkersRound "'d RoundInput"

definition thread_acts ::
    "leader_thread \<Rightarrow> ('d LeaderRun \<Rightarrow> integral_fault + 'd LeaderRun) \<Rightarrow> 'd LeaderRun
     \<Rightarrow> integral_fault + 'd LeaderRun" where
  "thread_acts t body r =
     (if t \<in> set (lp_threads (leader_object r)) \<and> \<not> lp_is_stopped (leader_object r) then body r else Inr r)"

definition leader_acts ::
    "'d Double \<Rightarrow> (nat \<Rightarrow> int) \<Rightarrow> ('a, 'd) leader_action \<Rightarrow> 'd LeaderRun \<Rightarrow> integral_fault + 'd LeaderRun" where
  "leader_acts D clk act r =
     (let p = leader_object r in
      case act of
        InputRound garbage \<Rightarrow> Inr (input_round D garbage r)
      | BroadcastTurn res \<Rightarrow>
          thread_acts SendDiscoveryThread (\<lambda>r.
            bind_res (broadcast_turn (lp_discovery_port p) res (broadcasts r)) (\<lambda>out.
              Inr (r\<lparr>broadcasts := out\<rparr>))) r
      | ReceiveTurn rs \<Rightarrow>
          thread_acts ReceiveDiscoveryThread (\<lambda>r.
            case receive_turn clk (rs @ [WouldBlock]) (clock_readings r, hb_updates (scheduler p)) of
              None \<Rightarrow> Inr r
            | Some res \<Rightarrow> bind_res res (\<lambda>(k, upd).
                Inr (r\<lparr>clock_readings := k,
                       leader_object := p\<lparr>scheduler := (scheduler p)\<lparr>hb_updates := upd\<rparr>\<rparr>\<rparr>))) r
      | WorkersRound inp \<Rightarrow>
          thread_acts RunOverWorkersThread (\<lambda>r.
            bind_res (RunOverWorkers D inp (scheduler p)) (\<lambda>L.
              Inr (r\<lparr>leader_object := p\<lparr>scheduler := L\<rparr>\<rparr>))) r)"

datatype 'd leader_program =
    LeaderExit int string
  | LeaderThrew integral_fault
  | LeaderRunning "'d LeaderRun"

text \<open>
  \<open>main\<close> of \<open>leader_launch.cpp\<close> after the actions \<open>acts\<close>: it has left with an exit code and a message, an
  exception has ended it, or it is running in the state that is given. Its loop has no exit, so the calls
  of \<open>Stop\<close> and \<open>return 0\<close> behind it are no actions.
\<close>

definition leader_main ::
    "'d Double \<Rightarrow> u16 \<Rightarrow> int \<Rightarrow> int \<Rightarrow> (nat \<Rightarrow> int) \<Rightarrow> string \<Rightarrow> ('a, 'd) leader_action list
     \<Rightarrow> 'd leader_program" where
  "leader_main D discovery_port discovery_fd broadcast_opt clk stdin acts =
     (if discovery_port = 0 then LeaderExit 1 (''discovery port is not set'' @ [CHR 0x0A])
      else case Leader_Leader discovery_fd broadcast_opt discovery_port 10 of
          Inl e \<Rightarrow> LeaderThrew e
        | Inr p \<Rightarrow>
            (case fold_res (leader_acts D clk) acts
                \<lparr>leader_object = Leader_Run p, broadcasts = [], clock_readings = 0, std_out = [],
                 std_in = Some stdin\<rparr> of
               Inl e \<Rightarrow> LeaderThrew e
             | Inr r \<Rightarrow> LeaderRunning r))"

section \<open>The worker\<close>

datatype worker_thread = WaitForDiscoveryThread | AcceptIncomingConnectionThread

text \<open>The results of the system calls of the constructor.\<close>

record WorkerCalls =
  discovery_fd :: int
  workload_fd :: int
  reuse_opt :: int
  discovery_bind :: int
  workload_bind :: int
  listen_res :: int

text \<open>\<open>bound\<close> holds the sockets that were bound, with their ports.\<close>

record WorkerProcess =
  wp_discovery_socket :: int
  wp_workload_socket :: int
  wp_workload_port :: u16
  wp_current_fd :: int
  wp_is_stopped :: bool
  wp_threads :: "worker_thread list"
  wp_bound :: "(int \<times> u16) list"

definition Worker_Worker :: "WorkerCalls \<Rightarrow> u16 \<Rightarrow> u16 \<Rightarrow> integral_fault + WorkerProcess" where
  "Worker_Worker calls discovery_port workload_port =
     bind_res (ENSURE (discovery_fd calls \<noteq> - 1)) (\<lambda>_.
     bind_res (HANDLE_C_ERROR (reuse_opt calls)) (\<lambda>_.
     bind_res (HANDLE_C_ERROR (discovery_bind calls)) (\<lambda>_.
     bind_res (ENSURE (workload_fd calls \<noteq> - 1)) (\<lambda>_.
     bind_res (HANDLE_C_ERROR (workload_bind calls)) (\<lambda>_.
     bind_res (HANDLE_C_ERROR (listen_res calls)) (\<lambda>_.
       Inr \<lparr>wp_discovery_socket = discovery_fd calls, wp_workload_socket = workload_fd calls,
            wp_workload_port = workload_port, wp_current_fd = - 1, wp_is_stopped = False,
            wp_threads = [], wp_bound = [(discovery_fd calls, discovery_port),
              (workload_fd calls, workload_port)]\<rparr>))))))"

definition Worker_Run :: "WorkerProcess \<Rightarrow> WorkerProcess" where
  "Worker_Run p = p\<lparr>wp_threads := wp_threads p @
     [WaitForDiscoveryThread, AcceptIncomingConnectionThread]\<rparr>"

definition Worker_Stop ::
    "(worker_thread \<Rightarrow> (integral_fault + unit) option) \<Rightarrow> WorkerProcess
     \<Rightarrow> (integral_fault + WorkerProcess) option" where
  "Worker_Stop outcome p =
     (if wp_is_stopped p then Some (Inr p)
      else bind_run (join_threads outcome (wp_threads p)) (\<lambda>_.
        Some (Inr (p\<lparr>wp_is_stopped := True, wp_threads := []\<rparr>))))"

text \<open>What the two threads see up to their end.\<close>

record ('a, 'd) WorkerInputs =
  can_send_to :: "'a \<Rightarrow> bool"
  discovery_turns :: "'a reception list turn list"
  accept_turns :: "(accepted_fd list \<times> 'd received list \<times> int list) turn list"

definition worker_outcome ::
    "'d Double \<Rightarrow> ('a, 'd) WorkerInputs \<Rightarrow> WorkerProcess \<Rightarrow> worker_thread \<Rightarrow> (integral_fault + unit) option" where
  "worker_outcome D inp p t =
     (case t of
        WaitForDiscoveryThread \<Rightarrow>
          bind_run (WaitForDiscovery (can_send_to inp) (wp_workload_port p) (discovery_turns inp) [])
            (\<lambda>_. Some (Inr ()))
      | AcceptIncomingConnectionThread \<Rightarrow>
          bind_run (AcceptIncomingConnection D (accept_turns inp) []) (\<lambda>_. Some (Inr ())))"

text \<open>
  \<open>main\<close> of \<open>worker_launch.cpp\<close>: the exit code and the standard error. The value read from the standard
  input is not used; after it the worker is stopped.
\<close>

definition worker_main ::
    "'d Double \<Rightarrow> u16 \<Rightarrow> u16 \<Rightarrow> WorkerCalls \<Rightarrow> ('a, 'd) WorkerInputs
     \<Rightarrow> (integral_fault + int \<times> string) option" where
  "worker_main D discovery_port worker_port calls inp =
     (if discovery_port = 0 then Some (Inr (1, ''discovery port is not set'' @ [CHR 0x0A]))
      else if worker_port = 0 then Some (Inr (1, ''worker port is not set'' @ [CHR 0x0A]))
      else case Worker_Worker calls discovery_port worker_port of
          Inl e \<Rightarrow> Some (Inl e)
        | Inr p \<Rightarrow>
            let p = Worker_Run p
            in case thrown (worker_outcome D inp p) (wp_threads p) of
                 e # _ \<Rightarrow> Some (Inl e)
               | [] \<Rightarrow> bind_run (Worker_Stop (worker_outcome D inp p) p) (\<lambda>p. Some (Inr (0, []))))"

section \<open>The worker's end\<close>

text \<open>A blocking socket: \<open>accept\<close> never reports \<open>EAGAIN\<close>, so the accept loop does not reach its
  \<open>break\<close>.\<close>

lemma accept_loop_blocks:
  "AcceptAgain \<notin> set cs \<Longrightarrow> accept_loop D cs rs sends outs \<noteq> Some (Inr out)"
proof (induction D cs rs sends outs rule: accept_loop.induct)
  case (2 D c cs rs sends outs)
  show ?case
  proof (cases c)
    case Accepted
    then show ?thesis
      using 2 by (cases "serve_connection D rs sends []") (auto simp: bind_run_def split: option.splits sum.splits)
  qed (use 2 in simp_all)
qed simp

lemma AcceptIncomingConnection_blocks:
  assumes "AcceptAgain \<notin> set cs"
  shows "AcceptIncomingConnection D (Turn (cs, rs, sends) # turns) outs \<noteq> Some (Inr out)"
  using accept_loop_blocks[OF assms, of D rs sends outs]
  by (cases "accept_loop D cs rs sends outs") (auto simp: AcceptIncomingConnection_def bind_run_def split: sum.splits)

lemma worker_main_blocks:
  assumes "discovery_port \<noteq> 0" and "worker_port \<noteq> 0"
    and "accept_turns inp = Turn (cs, rs, sends) # turns" and "AcceptAgain \<notin> set cs"
  shows "worker_main D discovery_port worker_port calls inp = None \<or>
    (\<exists>e. worker_main D discovery_port worker_port calls inp = Some (Inl e))"
proof (cases "Worker_Worker calls discovery_port worker_port")
  case (Inl e)
  then show ?thesis using assms(1,2) by (simp add: worker_main_def)
next
  case (Inr p)
  then have p: "wp_threads p = []" "\<not> wp_is_stopped p"
    by (auto simp: Worker_Worker_def bind_res_eq_Inr)
  define run where "run = Worker_Run p"
  let ?out = "worker_outcome D inp run"
  have run: "wp_threads run = [WaitForDiscoveryThread, AcceptIncomingConnectionThread]" "\<not> wp_is_stopped run"
    using p by (simp_all add: run_def Worker_Run_def)
  have "?out AcceptIncomingConnectionThread \<noteq> Some (Inr ())"
    using AcceptIncomingConnection_blocks[OF assms(4), of D rs sends turns "[]"] assms(3)
    by (cases "AcceptIncomingConnection D (accept_turns inp) []")
       (auto simp: worker_outcome_def bind_run_def split: sum.splits)
  then have "join_threads ?out (wp_threads run) \<noteq> Some (Inr ())"
    by (auto simp: run(1) bind_run_def split: option.splits sum.splits)
  then have stop: "Worker_Stop ?out run \<noteq> Some (Inr q)" for q
    using run(2) by (cases "join_threads ?out (wp_threads run)")
      (auto simp: Worker_Stop_def bind_run_def split: sum.splits)
  have main: "worker_main D discovery_port worker_port calls inp =
      (case thrown ?out (wp_threads run) of e # _ \<Rightarrow> Some (Inl e)
       | [] \<Rightarrow> bind_run (Worker_Stop ?out run) (\<lambda>p. Some (Inr (0, []))))"
    unfolding run_def using assms(1,2) by (simp add: worker_main_def Inr Let_def)
  show ?thesis
    unfolding main using stop
    by (cases "Worker_Stop ?out run") (auto simp: bind_run_def split: list.split sum.split)
qed

section \<open>The input of the leader\<close>

text \<open>The text of pairs of numbers, separated by blanks.\<close>

fun typed :: "'d Double \<Rightarrow> ('d \<times> 'd) list \<Rightarrow> string" where
  "typed D [] = []"
| "typed D ((a, b) # ps) = '' '' @ d_print D a @ '' '' @ d_print D b @ typed D ps"

lemma typed_start: "typed D ps = [] \<or> hd (typed D ps) = CHR '' ''"
  by (cases ps) auto

lemma input_round_typed:
  assumes "reads_back D rnd a" and "reads_back D rnd b" and "std_in r = Some (typed D ((a, b) # ps))"
  shows "input_round D g r = r\<lparr>leader_object := (leader_object r)\<lparr>scheduler := (scheduler (leader_object r))\<lparr>
      new_tasks := new_tasks (scheduler (leader_object r)) @ [(rnd a, rnd b)]\<rparr>\<rparr>,
    std_out := std_out r @ d_print D (d_of_int D 0) @ [CHR 0x0A], std_in := Some (typed D ps)\<rparr>"
  using typed_start[of D ps] assms(3)
  by (cases g) (simp add: input_round_def get_double(2)[OF assms(1)] get_double(2)[OF assms(2)] GetResult_def)

text \<open>At the end of the input, and ever after, the variables keep what the memory held.\<close>

lemma input_round_end:
  assumes "d_scan D [] = NoInput" and "std_in r = Some [] \<or> std_in r = None"
  shows "input_round D g r = r\<lparr>leader_object := (leader_object r)\<lparr>scheduler := (scheduler (leader_object r))\<lparr>
      new_tasks := new_tasks (scheduler (leader_object r)) @ [g]\<rparr>\<rparr>,
    std_out := std_out r @ d_print D (d_of_int D 0) @ [CHR 0x0A], std_in := None\<rparr>"
  using assms by (cases g) (auto simp: input_round_def stream_get_def GetResult_def)

definition zeros :: "'d Double \<Rightarrow> nat \<Rightarrow> string" where
  "zeros D n = concat (replicate n (d_print D (d_of_int D 0) @ [CHR 0x0A]))"

lemma zeros_Suc: "zeros D (Suc n) = zeros D n @ d_print D (d_of_int D 0) @ [CHR 0x0A]"
  by (simp add: zeros_def replicate_append_same[symmetric] del: replicate_Suc)
     (simp add: replicate_append_same[symmetric])

text \<open>
  The intervals asked for: the pairs of the text, as they are read, and behind them what the variables
  held in each further round.
\<close>

definition garbages :: "('a, 'd) leader_action list \<Rightarrow> ('d \<times> 'd) list" where
  "garbages acts = concat (map (\<lambda>act. case act of InputRound g \<Rightarrow> [g] | _ \<Rightarrow> []) acts)"

definition entered :: "('d \<Rightarrow> 'd) \<Rightarrow> ('d \<times> 'd) list \<Rightarrow> ('d \<times> 'd) list \<Rightarrow> ('d \<times> 'd) list" where
  "entered rnd ps gs =
     map (\<lambda>i. if i < length ps then map_prod rnd rnd (ps ! i) else gs ! i) [0..<length gs]"

lemma entered_snoc: "entered rnd ps (gs @ [g]) =
  entered rnd ps gs @ [if length gs < length ps then map_prod rnd rnd (ps ! length gs) else g]"
  by (simp add: entered_def nth_append)

definition typed_ok :: "'d Double \<Rightarrow> ('d \<Rightarrow> 'd) \<Rightarrow> ('d \<times> 'd) list \<Rightarrow> bool" where
  "typed_ok D rnd ps \<longleftrightarrow> (\<forall>(a, b)\<in>set ps. reads_back D rnd a \<and> reads_back D rnd b) \<and> d_scan D [] = NoInput"

text \<open>
  The program has printed a 0 for every round of \<open>main\<close>; what was entered is, in its order, the queries
  that are cut into slices and those that wait for it.
\<close>

definition program_ok ::
    "'d Double \<Rightarrow> ('d \<Rightarrow> 'd) \<Rightarrow> ('d \<times> 'd) list \<Rightarrow> ('a, 'd) leader_action list \<Rightarrow> 'd LeaderRun \<Rightarrow> bool" where
  "program_ok D rnd ps acts r \<longleftrightarrow>
     (let n = length (garbages acts); L = scheduler (leader_object r) in
      leader_sound D L \<and> std_out r = zeros D n \<and>
      slice_table L @ map (slices_of D) (new_tasks L) = map (slices_of D) (entered rnd ps (garbages acts)) \<and>
      (n \<le> length ps \<longrightarrow> std_in r = Some (typed D (drop n ps))) \<and> (length ps < n \<longrightarrow> std_in r = None))"

lemma input_round_ok:
  assumes "typed_ok D rnd ps" and "program_ok D rnd ps acts r"
  shows "program_ok D rnd ps (acts @ [InputRound g]) (input_round D g r)"
proof -
  let ?n = "length (garbages acts)" and ?L = "scheduler (leader_object r)"
  have ok: "leader_sound D ?L" "std_out r = zeros D ?n"
    "slice_table ?L @ map (slices_of D) (new_tasks ?L) = map (slices_of D) (entered rnd ps (garbages acts))"
    "?n \<le> length ps \<longrightarrow> std_in r = Some (typed D (drop ?n ps))" "length ps < ?n \<longrightarrow> std_in r = None"
    using assms(2) by (simp_all add: program_ok_def Let_def)
  have gs: "garbages (acts @ [InputRound g]) = garbages acts @ [g]" by (simp add: garbages_def)
  have sound: "leader_sound D (?L\<lparr>new_tasks := xs\<rparr>)" for xs
    using ok(1) by (subst leader_sound_frame[of _ ?L]) simp_all
  have table: "slice_table (?L\<lparr>new_tasks := xs\<rparr>) = slice_table ?L" for xs by (simp add: slice_table_def)
  show ?thesis
  proof (cases "?n < length ps")
    case True
    obtain a b where ab: "ps ! ?n = (a, b)" by (cases "ps ! ?n")
    have step: "drop ?n ps = (a, b) # drop (Suc ?n) ps" using Cons_nth_drop_Suc[OF True] ab by simp
    have reads: "reads_back D rnd a" "reads_back D rnd b"
      using assms(1) nth_mem[OF True] ab by (auto simp: typed_ok_def)
    have "std_in r = Some (typed D ((a, b) # drop (Suc ?n) ps))" using ok(4) True step by simp
    from input_round_typed[OF reads this, of g] show ?thesis
      using True ok(2,3) sound table
      by (simp add: program_ok_def gs entered_snoc zeros_Suc ab Let_def flip: append_assoc)
  next
    case False
    then have "std_in r = Some [] \<or> std_in r = None" using ok(4,5) by (cases "?n = length ps") auto
    from input_round_end[OF _ this, of D g] assms(1) show ?thesis
      using False ok(2,3) sound table
      by (simp add: program_ok_def gs entered_snoc zeros_Suc typed_ok_def Let_def flip: append_assoc)
  qed
qed

definition leader_exceptions :: "integral_fault set" where
  "leader_exceptions = {RuntimeError, UndefinedReply} \<union> range StoiError"

lemma receive_faults:
  "OnReceiveAsync (receive_discovery clk) rs s = Some (Inl e) \<Longrightarrow> e \<in> leader_exceptions"
  by (induction rs arbitrary: s)
     (auto simp: leader_exceptions_def receive_discovery_def split: reception.splits sum.splits prod.splits if_splits)

lemma receive_turn_faults:
  "receive_turn clk rs s = Some (Inl e) \<Longrightarrow> e \<in> leader_exceptions"
  using receive_faults[of clk rs s e]
  by (cases "OnReceiveAsync (receive_discovery clk) rs s")
     (auto simp: receive_turn_def bind_run_def split: sum.splits)

definition program_inv ::
    "'d Double \<Rightarrow> ('d \<Rightarrow> 'd) \<Rightarrow> ('d \<times> 'd) list \<Rightarrow> ('a, 'd) leader_action list \<Rightarrow> 'd LeaderRun \<Rightarrow> bool" where
  "program_inv D rnd ps acts r \<longleftrightarrow>
     leader_sound D (scheduler (leader_object r)) \<and> (typed_ok D rnd ps \<longrightarrow> program_ok D rnd ps acts r)"

text \<open>The threads leave the input, the output and the order of the queries alone.\<close>

lemma program_inv_thread:
  assumes "program_inv D rnd ps acts r" and "garbages [act] = []"
    and "std_out r' = std_out r" and "std_in r' = std_in r"
    and "leader_sound D (scheduler (leader_object r'))"
    and "slice_table (scheduler (leader_object r')) @ map (slices_of D) (new_tasks (scheduler (leader_object r'))) =
      slice_table (scheduler (leader_object r)) @ map (slices_of D) (new_tasks (scheduler (leader_object r)))"
  shows "program_inv D rnd ps (acts @ [act]) r'"
proof -
  have "garbages (acts @ [act]) = garbages acts" using assms(2) by (simp add: garbages_def)
  then show ?thesis using assms(1,3-) by (simp add: program_inv_def program_ok_def Let_def)
qed

lemma thread_acts_post:
  "post E Q (body r) \<Longrightarrow> Q r \<Longrightarrow> post E Q (thread_acts t body r)"
  by (simp add: thread_acts_def)

lemma leader_acts_ok:
  assumes inv: "program_inv D rnd ps acts r"
  shows "post leader_exceptions (program_inv D rnd ps (acts @ [act])) (leader_acts D clk act r)"
proof -
  let ?L = "scheduler (leader_object r)"
  have sound: "leader_sound D ?L" using inv by (simp add: program_inv_def)
  have idle: "program_inv D rnd ps (acts @ [act]) r" if "garbages [act] = []"
    by (rule program_inv_thread[OF inv that]) (simp_all add: sound)
  show ?thesis
  proof (cases act)
    case (InputRound g)
    have "leader_sound D (scheduler (leader_object (input_round D g r)))"
      using sound leader_sound_frame[of "?L\<lparr>new_tasks := xs\<rparr>" ?L D for xs]
      by (simp add: input_round_def GetResult_def split: prod.split)
    then show ?thesis
      using inv input_round_ok[of D rnd ps acts r g] by (simp add: InputRound leader_acts_def program_inv_def)
  next
    case (BroadcastTurn res)
    have keep: "program_inv D rnd ps (acts @ [act]) (r\<lparr>broadcasts := out\<rparr>)" for out
      by (rule program_inv_thread[OF inv]) (simp_all add: sound BroadcastTurn garbages_def)
    have "RuntimeError \<in> leader_exceptions" by (simp add: leader_exceptions_def)
    then show ?thesis
      using keep idle unfolding BroadcastTurn leader_acts_def Let_def leader_action.case
      by (intro thread_acts_post) (auto simp: broadcast_turn_def HANDLE_C_ERROR_def garbages_def)
  next
    case (ReceiveTurn rs)
    have keep: "program_inv D rnd ps (acts @ [act]) (r\<lparr>clock_readings := k, leader_object :=
        (leader_object r)\<lparr>scheduler := ?L\<lparr>hb_updates := upd\<rparr>\<rparr>\<rparr>)" for k upd
      using sound leader_sound_frame[of "?L\<lparr>hb_updates := upd\<rparr>" ?L D]
      by (intro program_inv_thread[OF inv]) (simp_all add: ReceiveTurn garbages_def slice_table_def)
    show ?thesis
      unfolding ReceiveTurn leader_acts_def Let_def leader_action.case
      using keep idle receive_turn_faults
      by (intro thread_acts_post) (auto simp: ReceiveTurn garbages_def bind_res_def split: option.split sum.split)
  next
    case (WorkersRound inp)
    have run: "post leader_exceptions (\<lambda>L'. leader_sound D L' \<and> slice_table L' = slice_table ?L @
        map (slices_of D) (new_tasks ?L) \<and> new_tasks L' = []) (RunOverWorkers D inp ?L)"
      by (rule post_mono[OF post_conj[OF RunOverWorkers_sound[OF sound] round_table]])
         (auto simp: leader_exceptions_def)
    have "program_inv D rnd ps (acts @ [act]) (r\<lparr>leader_object := (leader_object r)\<lparr>scheduler := M\<rparr>\<rparr>)"
      if "leader_sound D M" "slice_table M = slice_table ?L @ map (slices_of D) (new_tasks ?L)" "new_tasks M = []"
      for M
      using that by (intro program_inv_thread[OF inv]) (simp_all add: WorkersRound garbages_def)
    then show ?thesis
      unfolding WorkersRound leader_acts_def Let_def leader_action.case
      using idle by (intro thread_acts_post post_bindI[OF run]) (simp_all add: WorkersRound garbages_def)
  qed
qed

interpretation program_machine:
  guarded_machine "leader_acts D clk" "\<lambda>act r. True" "program_inv D rnd ps" leader_exceptions for D clk rnd ps
  by unfold_locales (rule leader_acts_ok)

text \<open>A program whose checks pass runs, or one of its threads has thrown.\<close>

lemma leader_main_ok:
  assumes "port \<noteq> 0" and "fd \<noteq> - 1" and "opt \<noteq> - 1"
  shows "(\<exists>e\<in>leader_exceptions. leader_main D port fd opt clk (typed D ps) acts = LeaderThrew e) \<or>
    (\<exists>r. leader_main D port fd opt clk (typed D ps) acts = LeaderRunning r \<and> program_inv D rnd ps acts r)"
proof -
  obtain p :: "'a LeaderProcess" where p: "Leader_Leader fd opt port 10 = Inr p" "scheduler p = make_Leader 10"
    using assms(2,3) by (auto simp: Leader_Leader_def)
  let ?r = "\<lparr>leader_object = Leader_Run p, broadcasts = [], clock_readings = 0, std_out = [],
    std_in = Some (typed D ps)\<rparr>"
  have "program_inv D rnd ps [] ?r"
    using make_Leader_sound[of D 10]
    by (simp add: program_inv_def program_ok_def Leader_Run_def p(2) garbages_def zeros_def entered_def
        slice_table_def make_Leader_def)
  from program_machine.guarded_run[where clk = clk and es = acts, OF this always_true] show ?thesis
    using assms(1) by (cases "fold_res (leader_acts D clk) acts ?r") (auto simp: leader_main_def p(1))
qed

end
