(* ===== verification/LeaderTheorems.thy ===== *)
theory LeaderTheorems
  imports IntegralPrograms Complex_Main
begin

text \<open>
  The properties of the integral service: the leader's runs, the results of its queries, and the text it
  exchanges with its workers. The witnesses are evaluated on sample runs with rational arithmetic, in
  which numbers are printed rounded down and without a fraction.
\<close>

section \<open>Sample arithmetic\<close>

definition print_floor :: "rat \<Rightarrow> string" where
  "print_floor x = decimal_digits (nat \<lfloor>x\<rfloor>)"

definition scan_rat :: "string \<Rightarrow> rat extracted" where
  "scan_rat s = (case (scan_unsigned s :: u32 extracted) of
     Extracted v rest \<Rightarrow> Extracted (of_nat (unat v)) rest
   | BadInput v \<Rightarrow> BadInput (of_nat (unat v))
   | NoInput \<Rightarrow> NoInput)"

abbreviation sample_double :: "rat Double" where
  "sample_double \<equiv> exact_double print_floor scan_rat"

lemma sample_reads_back:
  assumes "0 \<le> x" and "x < 2 ^ 32"
  shows "reads_back sample_double (\<lambda>x. of_int \<lfloor>x\<rfloor>) x"
proof -
  have less: "nat \<lfloor>x\<rfloor> < 2 ^ LENGTH(32)" using assms by (simp add: nat_less_iff floor_less_iff)
  have u: "unat (of_nat (nat \<lfloor>x\<rfloor>) :: u32) = nat \<lfloor>x\<rfloor>"
    using less by (simp add: unat_of_nat take_bit_nat_eq_self)
  show ?thesis
    unfolding reads_back_def
  proof (intro allI impI)
    fix rest :: string assume "rest = [] \<or> hd rest = CHR '' ''"
    then have "rest = [] \<or> \<not> is_digit (hd rest)" by (auto simp: is_digit_def)
    note scan = scan_unsigned_decimal[OF less this is_space_blank]
    have "d_scan sample_double (print_floor x @ rest) = Extracted (of_nat (nat \<lfloor>x\<rfloor>)) rest"
      "d_scan sample_double ('' '' @ print_floor x @ rest) = Extracted (of_nat (nat \<lfloor>x\<rfloor>)) rest"
      using scan u by (simp_all add: exact_double_def scan_rat_def print_floor_def)
    then show "d_scan sample_double (d_print sample_double x @ rest) = Extracted (of_int \<lfloor>x\<rfloor>) rest \<and>
        d_scan sample_double ('' '' @ d_print sample_double x @ rest) = Extracted (of_int \<lfloor>x\<rfloor>) rest"
      using assms(1) by (simp add: exact_double_def)
  qed
qed

lemma sample_reply:
  assumes "numeral v < (2 :: nat) ^ 32"
  shows "parse_reply sample_double g (take reply_size (reply_text sample_double (numeral v) 0 t)) =
    (numeral v, 0, t)"
proof -
  let ?msg = "reply_text sample_double (numeral v) 0 t"
  have short: "length (decimal_digits n) \<le> 20" if "n < 2 ^ 64" for n :: nat
  proof -
    have "(2 :: nat) ^ 64 < 10 ^ Suc 19" by simp
    from decimal_digits_length[OF less_trans[OF that this]] show ?thesis by simp
  qed
  have "length (print_floor (numeral v)) \<le> 20"
    unfolding print_floor_def floor_numeral nat_numeral
    by (rule short) (rule less_trans[OF assms], simp)
  moreover have "length (print_unsigned t) \<le> 20"
    unfolding print_unsigned_def by (rule short) (use unsigned_less[of t, where 'a = nat] in simp)
  moreover have "length (print_unsigned (0 :: QueryId)) \<le> 20"
    unfolding print_unsigned_def by (rule short) simp
  ultimately have "take reply_size ?msg = ?msg"
    by (simp add: reply_text_def reply_size_def exact_double_def)
  moreover have "(numeral v :: rat) < 2 ^ 32"
    using assms of_nat_less_iff[where 'a = rat, of "numeral v" "2 ^ 32"] by simp
  ultimately show ?thesis using parse_reply_text[OF sample_reads_back[of "numeral v"]] by simp
qed

section \<open>Sample runs\<close>

definition quiet_slot :: "rat SlotInput" where
  "quiet_slot = \<lparr>hangup = False, readable = False, writable = True, reply = None,
     reply_garbage = (0, 0, 0), send_ok = True\<rparr>"

definition reply_slot :: "string \<Rightarrow> rat SlotInput" where
  "reply_slot msg = quiet_slot\<lparr>readable := True, reply := Some msg\<rparr>"

definition sample_input :: "(nat \<Rightarrow> rat SlotInput) \<Rightarrow> rat RoundInput" where
  "sample_input ins = \<lparr>sockets = (\<lambda>w. (int (unat w), Connected)), poll_ok = True, slots = ins\<rparr>"

text \<open>
  Two workers and one query; the first worker answers, the second one hangs up, and the first one does
  the rest alone.
\<close>

definition sample_rounds :: "rat RoundInput list" where
  "sample_rounds = [sample_input (\<lambda>_. quiet_slot),
     sample_input (\<lambda>i. if i = 0 then reply_slot (reply_text sample_double 6 0 0)
       else quiet_slot\<lparr>hangup := True\<rparr>)] @
     map (\<lambda>(v, t). sample_input (\<lambda>i. if i = 0 then reply_slot (reply_text sample_double v 0 t) else quiet_slot))
       [(10, 2), (14, 4), (18, 6), (22, 8), (8, 1), (12, 3), (16, 5), (20, 7), (24, 9)]"

definition sample_events :: "rat LeaderEvent list" where
  "sample_events = [Query 0 10, Heartbeat 5001 \<lparr>sequence_number = 0, timestamp = 1\<rparr>,
     Heartbeat 5002 \<lparr>sequence_number = 0, timestamp = 2\<rparr>] @ map Round sample_rounds"

text \<open>One worker; its two replies to the same request are read at once.\<close>

definition two_replies :: string where
  "two_replies = reply_text sample_double 6 0 0 @ reply_text sample_double 6 0 0"

definition merged_events :: "rat LeaderEvent list" where
  "merged_events = [Query 0 10, Heartbeat 5001 \<lparr>sequence_number = 0, timestamp = 1\<rparr>,
     Round (sample_input (\<lambda>_. quiet_slot)), Round (sample_input (\<lambda>_. quiet_slot)),
     Round (sample_input (\<lambda>_. reply_slot two_replies))]"

lemma replicate_small: "replicate 1 x = [x]" "replicate 10 x = [x, x, x, x, x, x, x, x, x, x]"
  by (simp_all add: eval_nat_numeral)

lemma let_minus_one: "Let (- 1) f = f (- 1)"
  by (simp add: Let_def)

lemmas leader_eval = make_Leader_def replicate_small let_minus_one GetResult_def RunOverWorkers_def prepare_round_def
  take_queries_def take_query_def make_query_def slices_def slice_def upt_conv_Cons set_insert_def
  set_erase_def insort_insert_key_def word_numeral_one add_worker_def map_find_def next_unused.simps
  workers_to_remove_def remove_worker_def return_task_def with_query_def reassign_def
  worker_loads_def less_prod_def less_eq_prod_def assign_task_def map_subscript_def handle_slot_def
  slot_worker_def receive_reply_def accept_reply_def send_request_def drop_connection_def map_keys_def

lemmas sample_eval = leader_eval sample_input_def quiet_slot_def reply_slot_def sample_reply

lemmas sample_cong = if_weak_cong list.case_cong_weak option.case_cong_weak sum.case_cong_weak

lemma sample_run:
  "\<exists>L q. fold_res (leader_step sample_double) sample_events (make_Leader 10) = Inr L \<and>
     queries L = [q] \<and> tasks_in_progress q = [] \<and> tasks_to_do q = [] \<and>
     all_tasks q = slices_of sample_double (0, 10) \<and>
     accepted L = map (\<lambda>(v, t). (0, t, v))
       [(6, 0), (10, 2), (14, 4), (18, 6), (22, 8), (8, 1), (12, 3), (16, 5), (20, 7), (24, 9)]"
  by (simp add: sample_events_def sample_rounds_def sample_eval slices_of_def cong: sample_cong)

text \<open>The same run as a run of the program: a pair is typed, two workers are discovered, and one datagram
  is the leader's own message.\<close>

definition sample_acts :: "(unit, rat) leader_action list" where
  "sample_acts = [InputRound (0, 0), BroadcastTurn 6,
     ReceiveTurn [Datagram () ''Leader'', Datagram () ''5001''], ReceiveTurn [Datagram () ''5002'']] @
     map WorkersRound sample_rounds"

definition sample_clock :: "nat \<Rightarrow> int" where
  "sample_clock i = int i + 1"

lemma rounds_act:
  assumes "RunOverWorkersThread \<in> set (lp_threads (leader_object r))" and "\<not> lp_is_stopped (leader_object r)"
    and "fold_res (leader_step D) (map Round inps) (scheduler (leader_object r)) = Inr L"
  shows "fold_res (leader_acts D clk) (map WorkersRound inps :: ('b, 'a) leader_action list) r =
    Inr (r\<lparr>leader_object := (leader_object r)\<lparr>scheduler := L\<rparr>\<rparr>)"
  using assms
proof (induction inps arbitrary: r)
  case (Cons inp inps)
  then obtain M where M: "RunOverWorkers D inp (scheduler (leader_object r)) = Inr M"
    "fold_res (leader_step D) (map Round inps) M = Inr L" by (auto simp: bind_res_eq_Inr)
  let ?r = "r\<lparr>leader_object := (leader_object r)\<lparr>scheduler := M\<rparr>\<rparr>"
  have "leader_acts D clk (WorkersRound inp :: ('b, 'a) leader_action) r = Inr ?r"
    using Cons.prems(1,2) M(1) by (simp add: leader_acts_def thread_acts_def)
  then show ?case using Cons.IH[of ?r] Cons.prems(1,2) M(2) by simp
qed simp

lemma sample_end: "d_scan sample_double [] = NoInput"
  by (simp add: exact_print scan_rat_def scan_unsigned_def)

lemma sample_typed:
  "\<forall>(a, b)\<in>set [(0, 10 :: rat)]. reads_back sample_double (\<lambda>x. of_int \<lfloor>x\<rfloor>) a \<and>
     reads_back sample_double (\<lambda>x. of_int \<lfloor>x\<rfloor>) b"
  using sample_reads_back[of 0] sample_reads_back[of 10] by simp

lemma sample_input_round:
  "std_in r = Some (typed sample_double [(0, 10)]) \<Longrightarrow>
   input_round sample_double g r = r\<lparr>leader_object := (leader_object r)\<lparr>scheduler := (scheduler (leader_object r))\<lparr>
      new_tasks := new_tasks (scheduler (leader_object r)) @ [(0, 10)]\<rparr>\<rparr>,
    std_out := std_out r @ d_print sample_double (d_of_int sample_double 0) @ [CHR 0x0A], std_in := Some []\<rparr>"
  using input_round_typed[of sample_double "\<lambda>x. of_int \<lfloor>x\<rfloor>" 0 10 r "[]" g] sample_reads_back[of 0]
    sample_reads_back[of 10] by simp

lemma sample_stoi: "stoi ''5001'' = Inr 5001" "stoi ''5002'' = Inr 5002"
proof -
  have "char_of (53 :: nat) = CHR ''5''" "char_of (48 :: nat) = CHR ''0''" "char_of (49 :: nat) = CHR ''1''"
    "char_of (50 :: nat) = CHR ''2''" by code_simp+
  then have digits: "decimal_digits 5001 = ''5001''" "decimal_digits 5002 = ''5002''"
    by (simp_all add: decimal_digits.simps[of 5001] decimal_digits.simps[of 5002] decimal_digits.simps[of 500]
        decimal_digits.simps[of 50] decimal_digits.simps[of 5])
  have "stoi (decimal_digits 5001) = Inr (int 5001)" "stoi (decimal_digits 5002) = Inr (int 5002)"
    by (rule stoi_decimal, simp)+
  then show "stoi ''5001'' = Inr 5001" "stoi ''5002'' = Inr 5002" unfolding digits by simp_all
qed

lemmas program_eval = leader_main_def Leader_Leader_def Leader_Run_def leader_acts_def thread_acts_def
  broadcast_turn_def receive_turn_def bind_run_def receive_discovery_def kMaxMessageSize_def kLeaderMessage_def
  sample_stoi sample_input_round

lemma sample_main:
  "\<exists>r q. leader_main sample_double 4000 3 0 sample_clock (typed sample_double [(0, 10)]) sample_acts =
       LeaderRunning r \<and>
     queries (scheduler (leader_object r)) = [q] \<and> tasks_in_progress q = [] \<and> tasks_to_do q = [] \<and>
     all_tasks q = slices_of sample_double (0, 10) \<and>
     accepted (scheduler (leader_object r)) = map (\<lambda>(v, t). (0, t, v))
       [(6, 0), (10, 2), (14, 4), (18, 6), (22, 8), (8, 1), (12, 3), (16, 5), (20, 7), (24, 9)]"
proof -
  obtain L q where L: "fold_res (leader_step sample_double) sample_events (make_Leader 10) = Inr L"
    "queries L = [q]" "tasks_in_progress q = []" "tasks_to_do q = []"
    "all_tasks q = slices_of sample_double (0, 10)"
    "accepted L = map (\<lambda>(v, t). (0, t, v))
       [(6, 0), (10, 2), (14, 4), (18, 6), (22, 8), (8, 1), (12, 3), (16, 5), (20, 7), (24, 9)]"
    using sample_run by blast
  let ?L = "(make_Leader 10 :: rat Leader)\<lparr>new_tasks := [(0, 10)], hb_updates :=
    [(5001, \<lparr>sequence_number = 0, timestamp = 1\<rparr>), (5002, \<lparr>sequence_number = 0, timestamp = 2\<rparr>)]\<rparr>"
  have rounds: "fold_res (leader_step sample_double) (map Round sample_rounds) ?L = Inr L"
    using L(1) by (simp add: sample_events_def GetResult_def make_Leader_def)
  let ?r = "\<lambda>L. \<lparr>leader_object = \<lparr>lp_discovery_port = 4000, lp_discovery_socket = 3, scheduler = L,
      lp_is_stopped = False, lp_threads = [SendDiscoveryThread, ReceiveDiscoveryThread, RunOverWorkersThread]\<rparr>,
    broadcasts = [(4000, ''Leader'')], clock_readings = Suc (Suc 0), std_out = d_print sample_double 0 @ [CHR 0x0A],
    std_in = Some []\<rparr>"
  have "leader_main sample_double 4000 3 0 sample_clock (typed sample_double [(0, 10)]) sample_acts =
      (case fold_res (leader_acts sample_double sample_clock)
          (map WorkersRound sample_rounds :: (unit, rat) leader_action list) (?r ?L) of
         Inl e \<Rightarrow> LeaderThrew e | Inr r \<Rightarrow> LeaderRunning r)"
    unfolding sample_acts_def
    by (simp add: program_eval sample_clock_def make_Leader_def del: typed.simps)
  also have "\<dots> = LeaderRunning (?r L)"
    using rounds_act[where 'b = unit, of "?r ?L" sample_double sample_rounds L sample_clock] rounds by simp
  finally show ?thesis using L(2-) by simp
qed

lemma sample_right_answer:
  assumes "unat t < 10" and "v = of_nat (2 * unat t + 6)"
  shows "right_answer sample_double [slices_of sample_double (0, 10)] (0, t, v)"
proof -
  define x where "x = (of_nat (unat t) :: rat)"
  have task: "slices_of sample_double (0, 10) ! unat t = \<lparr>task_a = x, task_b = x + 1\<rparr>"
    using slice_exact(1)[of 0 "10 :: rat" "unat t"] assms(1) by (simp add: slices_def x_def)
  have "integral_2x5 x (x + 1) = v"
    using assms(2) by (simp add: x_def integral_2x5_def algebra_simps)
  then show ?thesis
    using assms(1) by (simp add: right_answer_def task worker_integral length_slices slices_def)
qed

section \<open>Properties\<close>

text \<open>C32: From the constructor on, whatever the user asks, the workers reply, the network delivers and the
  system calls return, a run of the leader ends in no fault but an exception of \<open>ENSURE\<close> or
  \<open>HANDLE_C_ERROR\<close>, or where it follows the numbers of a reply (an id that no query has, or a reply from a
  worker without a task): it looks up no other index, no missing key and no empty container. Its
  invariant holds: the open descriptors of the poll array and the known workers correspond one to one,
  each task of a worker is a slice of a query, and the slices of each query are all accounted for.\<close>

theorem leader_runs_safe:
  "post {RuntimeError, UndefinedReply} (leader_sound D) (fold_res (leader_step D) es (make_Leader n))"
  by (rule leader_run_sound)

text \<open>C36: No slice is lost. In every run, whatever comes back from the workers and whenever they come, fail
  and are removed: of each query, the slices that are to do, in progress or answered are together all
  ten; none is to do and in progress at once; and the result of the query is the sum of the answers that
  were counted for it, in their order. A slice may have been answered more than once.\<close>

theorem slices_never_lost:
  assumes "fold_res (leader_step D) es (make_Leader n) = Inr L" and "i < length (queries L)"
  shows "let q = queries L ! i; ans = answers L i
    in (\<lambda>(q, t, r). t) ` set ans \<union> set (tasks_in_progress q) \<union> set (tasks_to_do q) = {t. unat t < 10} \<and>
       set (tasks_in_progress q) \<inter> set (tasks_to_do q) = {} \<and>
       query_result q = foldl (d_add D) (d_of_int D 0) (map (\<lambda>(q, t, r). r) ans)"
proof -
  have "query_sound D (answers L i) i (queries L ! i)"
    using leader_run_sound[of D es n] assms by (simp add: leader_sound_def queries_sound_def)
  then show ?thesis
    unfolding query_sound_def all_slices_def slices_def Let_def
    by (simp add: total_def foldl_map case_prod_unfold)
qed

lemma slices_never_lost_witness:
  "\<exists>L. fold_res (leader_step sample_double) sample_events (make_Leader 10) = Inr L \<and>
     (\<lambda>(q, t, r). t) ` set (answers L 0) = {t. unat t < 10}"
proof -
  obtain L q where L: "fold_res (leader_step sample_double) sample_events (make_Leader 10) = Inr L"
    "queries L = [q]" "tasks_in_progress q = []" "tasks_to_do q = []" using sample_run by blast
  then have "0 < length (queries L)" by simp
  from slices_never_lost[OF L(1) this] L show ?thesis by (simp add: Let_def)
qed

text \<open>C33: What a finished query is worth. A number typed as \<open>x\<close> is read as \<open>rnd x\<close>. In exact arithmetic, when
  no slice of the \<open>i\<close>-th query is to do or in progress, ten answers were counted for it and each of them is
  what the worker's code computes for the slice that it names, then the result is the integral of the
  worker's function over the \<open>i\<close>-th interval that was typed, however the threads interleaved and whichever
  workers came, failed and answered in which order. The code does not ensure the two conditions on the
  answers.\<close>

theorem typed_query_exact:
  fixes ps :: "('d::linordered_field \<times> 'd) list" and print scan
  defines "D \<equiv> exact_double print scan"
  assumes "\<forall>(a, b)\<in>set ps. reads_back D rnd a \<and> reads_back D rnd b" and "d_scan D [] = NoInput"
    and "leader_main D port fd opt clk (typed D ps) acts = LeaderRunning r"
    and "L = scheduler (leader_object r)"
    and "i < length ps" and "i < length (queries L)" and "ps ! i = (a, b)" and "rnd a < rnd b"
    and "tasks_in_progress (queries L ! i) = []" and "tasks_to_do (queries L ! i) = []"
    and "length (answers L i) = 10" and "\<forall>x\<in>set (answers L i). right_answer D (slice_table L) x"
  shows "query_result (queries L ! i) = rnd b * rnd b - rnd a * rnd a + 5 * (rnd b - rnd a)"
proof -
  have "port \<noteq> 0 \<and> fd \<noteq> - 1 \<and> opt \<noteq> - 1"
    using assms(4)
    by (auto simp: leader_main_def Leader_Leader_def ENSURE_def HANDLE_C_ERROR_def split: if_splits)
  then have "program_inv D rnd ps acts r"
    using leader_main_ok[of port fd opt D clk ps acts rnd] assms(4) by auto
  moreover have "typed_ok D rnd ps" using assms(2,3) by (simp add: typed_ok_def)
  ultimately have sound: "leader_sound D L" and table: "slice_table L @ map (slices_of D) (new_tasks L) =
      map (slices_of D) (entered rnd ps (garbages acts))"
    by (simp_all add: program_inv_def program_ok_def assms(5) Let_def)
  have len: "length (slice_table L) = length (queries L)" by (simp add: slice_table_def)
  have "slice_table L ! i = map (slices_of D) (entered rnd ps (garbages acts)) ! i"
    using assms(7) len unfolding table[symmetric] by (simp add: nth_append)
  moreover have "length (queries L) \<le> length (garbages acts)"
    using arg_cong[OF table, of length] by (simp add: len entered_def)
  ultimately have "slice_table L ! i = slices_of D (rnd a, rnd b)"
    using assms(6,7,8) by (simp add: entered_def)
  then show ?thesis
    using query_exact[of print scan L i "rnd a" "rnd b"] sound assms(7,9-13)
    by (simp add: leader_sound_def queries_sound_def integral_2x5_def slices_def D_def)
qed

lemma typed_query_exact_witness:
  "\<exists>r. leader_main sample_double 4000 3 0 sample_clock (typed sample_double [(0, 10)]) sample_acts = LeaderRunning r \<and>
     query_result (queries (scheduler (leader_object r)) ! 0) = 150"
proof -
  obtain r q where main: "leader_main sample_double 4000 3 0 sample_clock (typed sample_double [(0, 10)]) sample_acts =
      LeaderRunning r" and L: "queries (scheduler (leader_object r)) = [q]"
    and q: "tasks_in_progress q = []" "tasks_to_do q = []" "all_tasks q = slices_of sample_double (0, 10)"
    and acc: "accepted (scheduler (leader_object r)) = map (\<lambda>(v, t). (0, t, v))
       [(6, 0), (10, 2), (14, 4), (18, 6), (22, 8), (8, 1), (12, 3), (16, 5), (20, 7), (24, 9)]"
    using sample_main by blast
  let ?L = "scheduler (leader_object r)"
  have ans: "answers ?L 0 = accepted ?L" by (simp add: answers_def acc)
  let ?rnd = "\<lambda>x :: rat. of_int \<lfloor>x\<rfloor> :: rat"
  have "query_result (queries ?L ! 0) = ?rnd 10 * ?rnd 10 - ?rnd 0 * ?rnd 0 + 5 * (?rnd 10 - ?rnd 0)"
  proof (rule typed_query_exact[OF sample_typed sample_end main refl])
    show "\<forall>x\<in>set (answers ?L 0). right_answer sample_double (slice_table ?L) x"
      unfolding ans acc by (simp add: slice_table_def L q sample_right_answer)
  qed (simp_all add: L q ans acc)
  then show ?thesis using main by (intro exI[of _ r]) simp
qed

text \<open>C34: The leader program, with a port and working sockets, whatever \<open>main\<close> and its threads do in which
  order, whatever is received and whatever the calls return. It does not leave with an exit code; an
  exception of one of the threads may end it (of \<open>ENSURE\<close>, \<open>HANDLE_C_ERROR\<close> or \<open>std::stoi\<close>, or the undefined
  behaviour of a reply). As long as it runs, it has printed one 0 for each round of the loop of \<open>main\<close>, no
  result of a query among them; and its queries, those in slices and then those still waiting, are the
  pairs that were typed, as they are read and in their order, followed, once the input is at its end, by
  what the uninitialised variables held in each further round.\<close>

theorem leader_main_queries:
  assumes "\<forall>(a, b)\<in>set ps. reads_back D rnd a \<and> reads_back D rnd b" and "d_scan D [] = NoInput"
    and "port \<noteq> 0" and "fd \<noteq> - 1" and "opt \<noteq> - 1"
  shows "case leader_main D port fd opt clk (typed D ps) acts of
      LeaderExit code message \<Rightarrow> False
    | LeaderThrew e \<Rightarrow> e \<in> {RuntimeError, UndefinedReply} \<union> range StoiError
    | LeaderRunning r \<Rightarrow>
        let L = scheduler (leader_object r); gs = garbages acts
        in std_out r = concat (replicate (length gs) (d_print D (d_of_int D 0) @ [CHR 0x0A])) \<and>
           map all_tasks (queries L) @ map (slices_of D) (new_tasks L) =
             map (\<lambda>i. slices_of D (if i < length ps then map_prod rnd rnd (ps ! i) else gs ! i)) [0..<length gs]"
proof -
  have "typed_ok D rnd ps" using assms(1,2) by (simp add: typed_ok_def)
  then show ?thesis
    using leader_main_ok[OF assms(3-5), of D clk ps acts rnd]
    by (auto simp: leader_exceptions_def program_inv_def program_ok_def zeros_def slice_table_def entered_def
        comp_def Let_def)
qed

lemma leader_main_queries_witness:
  "\<exists>r. leader_main sample_double 4000 3 0 sample_clock (typed sample_double [(0, 10)]) (sample_acts @ [InputRound (1, 2)]) =
      LeaderRunning r \<and> std_out r = ''0'' @ [CHR 0x0A] @ ''0'' @ [CHR 0x0A] \<and>
    map all_tasks (queries (scheduler (leader_object r))) @
      map (slices_of sample_double) (new_tasks (scheduler (leader_object r))) =
      [slices_of sample_double (0, 10), slices_of sample_double (1, 2)]"
proof -
  let ?acts = "sample_acts @ [InputRound (1, 2)]"
  obtain r where r: "leader_main sample_double 4000 3 0 sample_clock (typed sample_double [(0, 10)]) sample_acts =
    LeaderRunning r" using sample_main by blast
  then obtain r' where run: "leader_main sample_double 4000 3 0 sample_clock (typed sample_double [(0, 10)]) ?acts =
      LeaderRunning r'"
    by (auto simp: leader_main_def Leader_Leader_def fold_res_append leader_acts_def simp del: typed.simps
        split: sum.splits)
  have gs: "garbages ?acts = [(0, 0), (1, 2)]" by (simp add: garbages_def sample_acts_def)
  have "decimal_digits 0 = ''0''" by code_simp
  then show ?thesis
    using leader_main_queries[OF sample_typed sample_end, where clk = sample_clock and acts = ?acts and port = 4000 and fd = 3 and opt = 0] run
    by (simp add: gs Let_def upt_conv_Cons exact_print print_floor_def del: typed.simps)
qed

text \<open>C35: The worker program never returns 0. Unless it is stopped before its thread first asks for a
  connection, \<open>Stop\<close> waits for a thread that waits in \<open>accept\<close>: with both ports set, the program ends
  by an exception or not at all.\<close>

theorem worker_main_never_returns:
  assumes "discovery_port \<noteq> 0" and "worker_port \<noteq> 0"
    and "accept_turns inp = Turn (cs, rs, sends) # turns" and "AcceptAgain \<notin> set cs"
  shows "worker_main D discovery_port worker_port calls inp = None \<or>
    (\<exists>e. worker_main D discovery_port worker_port calls inp = Some (Inl e))"
  using assms by (rule worker_main_blocks)

lemma worker_main_never_returns_witness:
  "worker_main sample_double 4000 5001
     \<lparr>discovery_fd = 3, workload_fd = 4, reuse_opt = 0, discovery_bind = 0, workload_bind = 0, listen_res = 0\<rparr>
     \<lparr>can_send_to = (\<lambda>_ :: unit. True), discovery_turns = [Turn [WouldBlock], StopSeen],
      accept_turns = [Turn ([Accepted], [RecvClosed], []), StopSeen]\<rparr> = None"
  (is "worker_main _ _ _ ?calls ?inp = None")
proof -
  have "worker_main sample_double 4000 5001 ?calls ?inp \<noteq> Some (Inl e)" for e
    by (simp add: worker_main_def Worker_Worker_def Worker_Run_def Worker_Stop_def worker_outcome_def
        WaitForDiscovery_def AcceptIncomingConnection_def Let_def)
  then show ?thesis
    using worker_main_never_returns[of 4000 5001 ?inp "[Accepted]" "[RecvClosed]" "[]" "[StopSeen]" sample_double ?calls]
    by auto
qed



text \<open>C38: A request of the leader that a worker receives in one piece is answered by the integral over the
  slice as the worker reads it, however \<open>send\<close> cuts the reply; and the leader that receives the reply in
  one piece reads the result, the query and the task it asked for.\<close>

theorem worker_answers_request:
  assumes "reads_back D rnd (task_a task)" and "reads_back D rnd (task_b task)" and "reads_back D rnd v"
    and "EvaluateIntegral D (rnd (task_a task)) (rnd (task_b task)) 100 (worker_function D) = Some (Inr v)"
    and "length (request_text D task qid tid) \<le> kMaxDataBufSize"
    and "length (reply_text D v qid tid) \<le> reply_size"
    and "\<forall>n\<in>set sends. 0 < n" and "sum_list sends = int (length (reply_text D v qid tid))"
  shows "\<exists>msg. serve_connection D [Received garbage (request_text D task qid tid), RecvClosed] sends [] =
      Some (Inr (msg, [], [])) \<and> parse_reply D garbage' (take reply_size msg) = (rnd v, qid, tid)"
proof (intro exI conjI)
  let ?msg = "reply_text D v qid tid"
  have "handle_request D garbage (take kMaxDataBufSize (request_text D task qid tid)) = Some (Inr ?msg)"
    using assms(4,5) by (simp add: handle_request_def parse_request_text[OF assms(1,2)])
  moreover have "send_all ?msg sends [] = Some (Inr (?msg, []))"
    using send_all_parts[OF assms(7,8)] by simp
  ultimately show "serve_connection D [Received garbage (request_text D task qid tid), RecvClosed] sends [] =
      Some (Inr (?msg, [], []))" by simp
  show "parse_reply D garbage' (take reply_size ?msg) = (rnd v, qid, tid)"
    using assms(6) by (simp add: parse_reply_text[OF assms(3)])
qed

lemma worker_answers_request_witness:
  "\<exists>msg. serve_connection sample_double [Received (0, 0, 0, 0)
       (request_text sample_double \<lparr>task_a = 2, task_b = 3\<rparr> 0 2), RecvClosed] [2, 4] [] =
     Some (Inr (msg, [], [])) \<and>
     parse_reply sample_double (0, 0, 0) (take reply_size msg) = (of_int \<lfloor>10 :: rat\<rfloor>, 0, 2)"
proof -
  have short: "reads_back sample_double (\<lambda>x. of_int \<lfloor>x\<rfloor>) x" if "x \<in> {2, 3, 10}" for x
    using that by (intro sample_reads_back) auto
  have digits: "decimal_digits 2 = ''2''" "decimal_digits 3 = ''3''" "decimal_digits 0 = ''0''"
    "decimal_digits 10 = ''10''" by code_simp+
  show ?thesis
    by (rule worker_answers_request[where rnd = "\<lambda>x. of_int \<lfloor>x\<rfloor>" and v = 10])
       (simp_all add: short worker_integral integral_2x5_def request_text_def reply_text_def exact_print
         print_floor_def print_unsigned_def digits kMaxDataBufSize_def reply_size_def)
qed

text \<open>C37: Nothing separates the replies on a connection, and the leader sends the request of a task again
  in every round until it is answered. In this run a worker answers two copies of the request for the
  first slice, both times rightly; the leader reads both replies with one call and counts the result as
  the answer for the slice 6, which nobody computed.\<close>

theorem merged_replies_miscounted:
  "\<exists>L. fold_res (leader_step sample_double) merged_events (make_Leader 1) = Inr L \<and>
     requests L = [(5001, 0, 0), (5001, 0, 0), (5001, 0, 1)] \<and>
     accepted L = [(0, 6, 6)] \<and> query_result (queries L ! 0) = 6 \<and>
     right_answer sample_double (slice_table L) (0, 0, 6) \<and>
     \<not> right_answer sample_double (slice_table L) (0, 6, 6)"
proof -
  have digits: "decimal_digits 6 = ''6''" "decimal_digits 0 = ''0''" by code_simp+
  have "parse_reply sample_double (0, 0, 0) two_replies = (of_int \<lfloor>6 :: rat\<rfloor>, 0, of_nat 6)"
    using merged_replies[of sample_double "\<lambda>x. of_int \<lfloor>x\<rfloor>" 6 6 6 0] sample_reads_back[of 6]
    by (simp add: two_replies_def exact_print print_floor_def digits)
  moreover have "take reply_size two_replies = two_replies"
    by (simp add: two_replies_def reply_size_def reply_text_def exact_print print_floor_def
        print_unsigned_def digits)
  ultimately have merged: "parse_reply sample_double (0, 0, 0) (take reply_size two_replies) = (6, 0, 6)"
    by simp
  show ?thesis
    by (simp add: merged_events_def sample_eval merged right_answer_def slice_table_def worker_integral
        integral_2x5_def cong: sample_cong)
qed

end
