(* ===== verification/Spec2Isabelle.thy ===== *)
theory Spec2Isabelle
  imports NodeTheorems NodeTests Logging KvTheorems LostCommand Durability WorkerMain Discovery LeaderTheorems
begin

text \<open>
  A verification of the two C++ programs of this repository: the replicated key-value store of \<open>hw2/\<close>,
  which is built on a consensus library in the manner of Raft, and the distributed integral of \<open>hw1/\<close>.

  \<^bold>\<open>Conventions.\<close> A struct or class is a record with the members of the source, an enum or variant a
  datatype, a machine integer a word of its width (arithmetic wraps). \<open>StdMap\<close> models \<open>std::map\<close> and
  \<open>std::set\<close> as ordered association lists, \<open>Streams\<close> the extraction of numbers and words from a string
  stream. A function that may throw or run into undefined behaviour returns \<open>Inl\<close> of a fault or \<open>Inr\<close> of
  its value and the new state; \<open>post E Q m\<close> of \<open>Prelude\<close> says that the run \<open>m\<close> ends in a fault of \<open>E\<close> or in
  a value with \<open>Q\<close>. What a default-initialised variable holds is an argument named \<open>garbage\<close>. A loop that
  may not end is a \<open>partial_function (option)\<close>, or a recursion over the list of the results of its
  blocking calls; \<open>None\<close> is then a run that is still waiting. There is no fuel.

  \<^bold>\<open>The consensus library\<close> (\<open>hw2/src/consensus\<close>, \<open>hw2/src/common\<close>).
  \<^item> \<open>ConsensusTypes\<close>: \<open>common.h\<close>, \<open>state.h\<close>, \<open>message.h\<close>, \<open>node_sender.h\<close>. \<open>Timeout\<close>: \<open>timeout.h\<close>; the
    readings of the clock and the numbers drawn are sequences.
  \<^item> \<open>Node\<close>: every method of \<open>node.cpp\<close>, under its name, as a function on the record \<open>Node\<close>. The queues that
    clients and the network fill between ticks are fields; a promise is a number, and the map of results
    says which promises are answered with what.
  \<^item> \<open>NodeInv\<close>, \<open>NodeFrame\<close>, \<open>AppendLog\<close>, \<open>NodeSafe\<close>, \<open>Commit\<close>, \<open>Promises\<close>, \<open>TickSafe\<close>: the type invariant of
    a node, what each method leaves alone, the merge of logs, the commit step, the discipline of the
    promises, and with them: a tick of a node in good state ends in one, or in a vector beyond its
    maximal size or an index outside the log. \<open>Evolve\<close>, \<open>Sending\<close>: how term, log and commit index move in a
    tick, and what a node sends. \<open>NodeTheorems\<close>: the properties of one node. \<open>NodeTests\<close>: unit tests of the
    repository, evaluated on the model. \<open>Logging\<close>: the text of a log line.

  \<^bold>\<open>The key-value store\<close> (\<open>hw2/src/worker\<close>, \<open>hw2/src/common/storage.h\<close>, \<open>hw2/src/client\<close>).
  \<^item> \<open>Storage\<close>: the map and the text of commands. \<open>KvStore\<close>: \<open>KeyValueStoreImpl\<close>; a call waits on a promise
    while the node handles the events of a given list, and where it does not hold \<open>lock_\<close> other threads
    make whole calls of \<open>ActualizeState\<close> (\<open>service_event\<close>). \<open>NodeEval\<close>, \<open>KvTheorems\<close>: evaluation and
    properties. What a read returns is stated for all such interleavings; that it is the last committed
    write needs that no committed command is replaced meanwhile, which \<open>LostCommand\<close> shows can happen.
  \<^item> \<open>Codec\<close>, \<open>CodecTheorems\<close>: the conversions between messages and the structs of \<open>communication.proto\<close> in
    \<open>OtherNodesMessageSender\<close> and \<open>CommunicationImpl\<close>. \<open>Process\<close>: the start of a worker and the client.
    \<open>WorkerMain\<close>: \<open>main\<close> of the worker as a whole, from its flags to its exit code, with node, service,
    clients and input loop together; it faults in no other way than a node does. Dumps go to the standard
    error; the program writes nothing to the standard output.
  \<^item> \<open>Cluster\<close>: a system of workers over any transport that satisfies the locale \<open>cluster_transport\<close>: each
    worker ticks, takes commands and queries, and a message once sent is delivered at most once, at any
    time, in any order, or never. \<open>Election\<close>: votes and elections. \<open>Deployment\<close> instantiates the transport
    with the codec and the cluster with what \<open>start_worker\<close> creates. \<open>ClusterTheorems\<close>: safety of all runs,
    the voting discipline, and concrete runs of three workers in which the code departs from Raft.
  \<^item> \<open>LogSteps\<close>: replication and voting as nine abstract steps on a view of a node, and the simulation of
    every method by them. \<open>TermLogs\<close>: with one ghost log per term, these steps keep log matching. \<open>Ballots\<close>:
    the steps of a whole cluster, and the invariant that ties votes, acknowledgements and the logs of later
    leaders together. \<open>Completeness\<close>: what it gives, by induction on the term of the leader. \<open>RaftRuns\<close>: every
    run of a cluster is a sequence of these steps. The code lets a leader vote a second time, so \<open>logs_match\<close>,
    \<open>leaders_have_acknowledged\<close> and \<open>acknowledged_agree\<close> have the double vote as their exception, and
    \<open>leaders_commit_differently\<close> shows that it happens.
  \<^item> \<open>Acknowledged\<close>: what a leader has in \<open>match_index\<close>, members have acknowledged. \<open>Durability\<close>: an entry of
    its own term that a leader commits stays in the logs of all later leaders, with the double vote and
    stale acknowledgements as exceptions (a response is counted whatever its term). The code also commits
    entries of earlier terms: \<open>LostCommand\<close> is a run, with no double vote, in which a client loses such a
    command although it was told that the command is persistent.

  \<^bold>\<open>The distributed integral\<close> (\<open>hw1/src\<close>).
  \<^item> \<open>Integral\<close>: \<open>common/integral.cpp\<close>. The type \<open>double\<close> with its operations is a parameter, the record
    \<open>Double\<close>. No law of it is assumed but what a theorem names: \<open>exact_double\<close> is an ordered field,
    \<open>reads_back\<close> (\<open>Exchange\<close>) says that a number is printed so that it can be read.
  \<^item> \<open>LeaderTypes\<close>, \<open>Leader\<close>: \<open>leader.h\<close> and a whole round of \<open>Leader::RunOverWorkers\<close>, one definition per
    step, composed as in the code; the results of the system calls are the input of a round. Threads
    exchange data under mutexes, so queries and heartbeats arrive between rounds (\<open>leader_step\<close>). Three
    fields of the record are history: answers counted, requests sent, descriptors closed.
  \<^item> \<open>Discovery\<close>: \<open>socket.cpp\<close> and the two handlers of datagrams. \<open>IntegralWorker\<close>: the connection of a worker.
  \<^item> \<open>LeaderInv\<close>, \<open>LeaderRound\<close>, \<open>LeaderPass\<close>, \<open>LeaderRuns\<close>: the strong invariant of the scheduler (open slots
    and known workers correspond; each slice is to do, in progress or answered once; the tasks of the
    workers are the tasks in progress, each once) through a round and through runs in which every \<open>recv\<close>
    returns one whole reply to a request of that connection (\<open>lawful\<close>). \<open>LeaderSound\<close>: the weaker invariant
    that every run keeps, whatever is received. \<open>LeaderAnswers\<close>: the queries of the user in slices, and when
    the answers of a query add up to its integral. \<open>Exchange\<close>: requests and replies as text.
  \<^item> \<open>IntegralPrograms\<close>: \<open>ensure.h\<close>, constructors, threads, \<open>Run\<close> and \<open>Stop\<close> of \<open>Leader\<close> and \<open>Worker\<close>, and the two
    \<open>main\<close> functions; that of the leader is a sequence of the actions of \<open>main\<close> and its three threads in any
    order, and an exception of a thread ends it. \<open>LeaderTheorems\<close>: the properties, from the numbers typed
    at the leader to the result of the query, with sample runs in rational arithmetic.

  \<^bold>\<open>Interfaces.\<close> The locales are \<open>ordered_map\<close>, \<open>key_value_store\<close>, \<open>itimeout\<close>, \<open>message_channel\<close>,
  \<open>cluster_transport\<close>, \<open>safe_machine\<close>, \<open>guarded_machine\<close> and \<open>run_relation\<close>; each is interpreted on the model
  in the theory of the component that provides it.

  \<^bold>\<open>Hypotheses on the environment.\<close> Runs of a node: the vector of the log may be limited by
  \<open>max_log_size_value\<close> entries, channels exist for the members. Runs of a cluster: the numbers sent fit the
  32-bit fields of the protocol (\<open>fits_proto\<close>) and no term wraps around (\<open>no_wraps\<close>). Runs of the leader:
  none. TCP does not keep the borders of the replies, and the code miscounts when they are lost:
  \<open>merged_replies_miscounted\<close> is a run in which two right replies arrive in one piece, so
  \<open>typed_query_exact\<close> names ten right answers as a condition.

  \<^bold>\<open>Not modelled.\<close> The places that write log lines, which have no effect on the state, and
  \<open>hw1/src/common/message.h\<close>, an alias nothing uses. The wire format and the threads of gRPC, sockets with
  their options and the parsing of flags are library and system code: their results are inputs of the
  model. A thread is the sequence of its turns or, in a node, of events; the mutexes are the atomicity of
  these steps. A tick of a node is one step: a command or query that a client queues while a tick is
  running counts as queued before or after it, though the code could still redirect such a command with
  the second of two requests it handles in that tick. The removal of a silent worker is commented out in
  the code.
\<close>

end
